(* ===== verification/Prelude.thy ===== *)
theory Prelude
  imports Main "HOL-Library.Word" "HOL-Library.Monad_Syntax"
begin

unbundle bit_operations_syntax

text \<open>
  What the components share: the machine integer types, the Rust slice and arithmetic
  operations the code uses, and lemmas on lists and words.

  A Rust panic (an index or a slice out of range, \<open>copy_from_slice\<close> between different
  lengths, an overflowing addition with overflow checks on, \<open>expect\<close> on an error) is the
  value \<^term>\<open>None\<close> of an option; a body that can panic is written in the option monad, so that a
  panic anywhere is a panic of the caller. A slice or array is the list of its elements. A
  \<open>usize\<close> that indexes a slice is a \<^typ>\<open>nat\<close>: a slice has at most \<open>isize::MAX\<close> elements, so
  such indices do not overflow.
\<close>

named_theorems rust_defs \<open>unfolding rules of the Rust slice and integer operations\<close>
named_theorems len_simps \<open>lengths of updated buffers\<close>

type_synonym u8 = "8 word"
type_synonym u32 = "32 word"
type_synonym u64 = "64 word"

section \<open>Slice operations that can panic\<close>

text \<open>\<open>&xs[a..b]\<close>\<close>

definition slice :: "nat \<Rightarrow> nat \<Rightarrow> 'a list \<Rightarrow> 'a list option" where
  "slice a b xs = (if a \<le> b \<and> b \<le> length xs then Some (take (b - a) (drop a xs)) else None)"

text \<open>\<open>xs[i]\<close>\<close>

definition index :: "'a list \<Rightarrow> nat \<Rightarrow> 'a option" where
  "index xs i = (if i < length xs then Some (xs ! i) else None)"

text \<open>\<open>xs[i] = v\<close>\<close>

definition index_set :: "nat \<Rightarrow> 'a \<Rightarrow> 'a list \<Rightarrow> 'a list option" where
  "index_set i v xs = (if i < length xs then Some (xs[i := v]) else None)"

text \<open>\<open>dst[a..b].copy_from_slice(src)\<close>\<close>

definition copy_from_slice :: "nat \<Rightarrow> nat \<Rightarrow> 'a list \<Rightarrow> 'a list \<Rightarrow> 'a list option" where
  "copy_from_slice a b src dst =
     (if a \<le> b \<and> b \<le> length dst \<and> length src = b - a
      then Some (take a dst @ src @ drop b dst) else None)"

text \<open>\<open>xs.copy_within(a..b, d)\<close>\<close>

definition copy_within :: "nat \<Rightarrow> nat \<Rightarrow> nat \<Rightarrow> 'a list \<Rightarrow> 'a list option" where
  "copy_within a b d xs =
     (if a \<le> b \<and> b \<le> length xs \<and> d + (b - a) \<le> length xs
      then Some (take d xs @ take (b - a) (drop a xs) @ drop (d + (b - a)) xs) else None)"

text \<open>\<open>xs.split_at(mid)\<close>\<close>

definition split_at :: "nat \<Rightarrow> 'a list \<Rightarrow> ('a list \<times> 'a list) option" where
  "split_at m xs = (if m \<le> length xs then Some (take m xs, drop m xs) else None)"

text \<open>
  The \<open>?\<close> operator on a step that changes a state also when it fails: the state reached so far
  is the state of the caller.
\<close>

definition and_then ::
  "('e + unit) \<times> 's \<Rightarrow> ('s \<Rightarrow> ('e + 'a) \<times> 's) \<Rightarrow> ('e + 'a) \<times> 's" where
  "and_then r k = (case r of (Inl e, s) \<Rightarrow> (Inl e, s) | (Inr _, s) \<Rightarrow> k s)"

lemma and_then_simps [simp]:
  "and_then (Inl e, s) k = (Inl e, s)"
  "and_then (Inr u, s) k = k s"
  by (simp_all add: and_then_def)

lemma bind_SomeE:
  assumes "Option.bind m k = Some r"
  obtains x where "m = Some x" "k x = Some r"
  using assms by (auto simp: bind_eq_Some_conv)

text \<open>The \<open>?\<close> operator in a body that can panic: an error ends the body with the state reached.\<close>

definition try_bind ::
  "(('e + 'a) \<times> 's) option \<Rightarrow> ('a \<Rightarrow> 's \<Rightarrow> (('e + 'b) \<times> 's) option) \<Rightarrow> (('e + 'b) \<times> 's) option" where
  "try_bind m k =
     Option.bind m (\<lambda>(r, s). case r of Inl e \<Rightarrow> Some (Inl e, s) | Inr x \<Rightarrow> k x s)"

lemma try_bind_simps [simp]:
  "try_bind None k = None"
  "try_bind (Some (Inl e, s)) k = Some (Inl e, s)"
  "try_bind (Some (Inr x, s)) k = k x s"
  by (simp_all add: try_bind_def)

lemma try_bind_SomeE:
  assumes "try_bind m k = Some (r, s')"
  obtains (err) e where "m = Some (Inl e, s')" "r = Inl e"
    | (ok) x s where "m = Some (Inr x, s)" "k x s = Some (r, s')"
proof (cases m)
  case (Some rs)
  then show thesis using assms by (cases rs; cases "fst rs") (auto intro: err ok)
qed (use assms in simp)

text \<open>\<open>xs.iter().position(P)\<close>\<close>

fun position :: "('a \<Rightarrow> bool) \<Rightarrow> 'a list \<Rightarrow> nat option" where
  "position P [] = None"
| "position P (x # xs) = (if P x then Some 0 else map_option Suc (position P xs))"

lemma position_Some:
  "position P xs = Some k \<Longrightarrow> k < length xs \<and> P (xs ! k) \<and> (\<forall>x \<in> set (take k xs). \<not> P x)"
  by (induction xs arbitrary: k) (auto split: if_splits)

lemma position_None: "position P xs = None \<longleftrightarrow> (\<forall>x \<in> set xs. \<not> P x)"
  by (induction xs) auto

section \<open>Buffers\<close>

lemma update_boundary:
  "length p = k \<Longrightarrow> k < length d \<Longrightarrow> (p @ drop k d)[k := b] = p @ b # drop (Suc k) d"
  by (simp add: list_update_append Cons_nth_drop_Suc [symmetric])

lemma take_prefix:
  assumes "n \<le> length xs"
  obtains p r where "xs = p @ r" "length p = n"
  using assms by (metis append_take_drop_id length_take min.absorb2)

lemma slice_append [simp]:
  "length p = a \<Longrightarrow> b = a + length xs \<Longrightarrow> slice a b (p @ xs @ r) = Some xs"
  by (simp add: slice_def)

lemma split_at_append: "length p = n \<Longrightarrow> split_at n (p @ r) = Some (p, r)"
  by (auto simp: split_at_def)

lemma copy_after_prefix:
  "length p = a \<Longrightarrow> b = a + length src \<Longrightarrow> length src \<le> length r \<Longrightarrow>
     copy_from_slice a b src (p @ r) = Some (p @ src @ drop (length src) r)"
  by (simp add: copy_from_slice_def)

section \<open>Integer operations\<close>

text \<open>\<open>a.checked_sub(b)\<close> on \<open>usize\<close>\<close>

definition checked_sub :: "nat \<Rightarrow> nat \<Rightarrow> nat option" where
  "checked_sub a b = (if b \<le> a then Some (a - b) else None)"

text \<open>\<open>a + b\<close> with overflow checks: a panic when the sum does not fit.\<close>

definition add_checked :: "'w::len word \<Rightarrow> 'w word \<Rightarrow> 'w word option" where
  "add_checked a b = (if unat a + unat b < 2 ^ LENGTH('w) then Some (a + b) else None)"

text \<open>\<open>a - b\<close> on \<open>usize\<close> with overflow checks\<close>

definition sub_checked :: "nat \<Rightarrow> nat \<Rightarrow> nat option" where
  "sub_checked a b = (if b \<le> a then Some (a - b) else None)"

text \<open>\<open>a.saturating_add(b)\<close>\<close>

definition saturating_add :: "'w::len word \<Rightarrow> 'w word \<Rightarrow> 'w word" where
  "saturating_add a b = (if unat a + unat b < 2 ^ LENGTH('w) then a + b else - 1)"

text \<open>\<open>a.div_ceil(b)\<close> on \<open>usize\<close>, as the standard library computes it\<close>

definition div_ceil :: "nat \<Rightarrow> nat \<Rightarrow> nat" where
  "div_ceil a b = (if 0 < a mod b then a div b + 1 else a div b)"

declare slice_def [rust_defs] index_def [rust_defs] index_set_def [rust_defs]
  copy_from_slice_def [rust_defs] copy_within_def [rust_defs] split_at_def [rust_defs]
  checked_sub_def [rust_defs] add_checked_def [rust_defs] sub_checked_def [rust_defs]

section \<open>Big-endian bytes\<close>

text \<open>\<open>w.to_be_bytes()\<close> and \<open>from_be_bytes\<close>\<close>

definition be_bytes :: "nat \<Rightarrow> 'w::len word \<Rightarrow> u8 list" where
  "be_bytes n w = map (\<lambda>i. ucast (drop_bit (8 * i) w)) (rev [0..<n])"

definition to_be_bytes :: "'w::len word \<Rightarrow> u8 list" where
  "to_be_bytes w = be_bytes (LENGTH('w) div 8) w"

definition from_be_bytes :: "u8 list \<Rightarrow> 'w::len word" where
  "from_be_bytes bs = foldl (\<lambda>acc b. push_bit 8 acc OR ucast b) 0 bs"

lemma length_be_bytes [simp, len_simps]: "length (be_bytes n w) = n"
  by (simp add: be_bytes_def)

lemma length_to_be_bytes [simp, len_simps]:
  "length (to_be_bytes (w :: 'w::len word)) = LENGTH('w) div 8"
  by (simp add: to_be_bytes_def)

lemma be_bytes_Suc: "be_bytes (Suc n) w = be_bytes n (drop_bit 8 w) @ [ucast w]"
proof -
  have "rev [0..<Suc n] = map Suc (rev [0..<n]) @ [0]"
    by (metis map_Suc_upt rev_map upt_conv_Cons rev.simps(2) zero_less_Suc)
  then show ?thesis
    by (simp add: be_bytes_def drop_bit_drop_bit add.commute)
qed

lemma bit_u8: "bit (b :: u8) n \<Longrightarrow> n < 8"
  using bit_imp_le_length [of b n] by simp

lemma from_be_bytes_Nil [simp]: "from_be_bytes [] = 0"
  by (simp add: from_be_bytes_def)

lemma from_be_bytes_snoc [simp]:
  "from_be_bytes (bs @ [b]) = push_bit 8 (from_be_bytes bs) OR ucast b"
  by (simp add: from_be_bytes_def)

lemma from_be_bytes_be_bytes: "from_be_bytes (be_bytes n w) = take_bit (8 * n) (w :: 'w::len word)"
proof (induction n arbitrary: w)
  case 0
  show ?case by (simp add: be_bytes_def)
next
  case (Suc n)
  have "push_bit 8 (take_bit (8 * n) (drop_bit 8 w)) OR ucast (ucast w :: u8) = take_bit (8 + 8 * n) w"
    by (rule bit_word_eqI) (auto simp: bit_simps)
  with Suc show ?case by (simp add: be_bytes_Suc)
qed

lemma take_bit_from_be_bytes:
  "take_bit (8 * length bs) (from_be_bytes bs :: 'w::len word) = from_be_bytes bs"
proof (induction bs rule: rev_induct)
  case Nil
  show ?case by simp
next
  case (snoc b bs)
  have "take_bit (8 + 8 * length bs) (push_bit 8 (take_bit (8 * length bs) x) OR ucast b)
      = push_bit 8 (take_bit (8 * length bs) x) OR ucast b" for x :: "'w word"
    by (rule bit_word_eqI) (auto simp: bit_simps dest: bit_u8)
  from this [of "from_be_bytes bs"] snoc show ?case by simp
qed

lemma be_bytes_from_be_bytes:
  "8 * length bs \<le> LENGTH('w) \<Longrightarrow> be_bytes (length bs) (from_be_bytes bs :: 'w::len word) = bs"
proof (induction bs rule: rev_induct)
  case Nil
  show ?case by (simp add: be_bytes_def)
next
  case (snoc b bs)
  let ?x = "from_be_bytes bs :: 'w word"
  have "drop_bit 8 (push_bit 8 (take_bit (8 * length bs) x) OR ucast b) = take_bit (8 * length bs) x"
    for x :: "'w word"
    using snoc.prems by (intro bit_word_eqI) (auto simp: bit_simps dest: bit_u8)
  from this [of ?x] have "drop_bit 8 (push_bit 8 ?x OR ucast b) = ?x"
    by (simp add: take_bit_from_be_bytes)
  moreover have "ucast (push_bit 8 ?x OR ucast b) = b"
    using snoc.prems by (intro bit_word_eqI) (auto simp: bit_simps)
  ultimately show ?case using snoc by (simp add: be_bytes_Suc)
qed

lemma from_to_be_bytes [simp]:
  assumes "8 dvd LENGTH('w)"
  shows "from_be_bytes (to_be_bytes (w :: 'w::len word)) = w"
  using assms by (simp add: to_be_bytes_def from_be_bytes_be_bytes)

lemma to_from_be_bytes:
  assumes "8 * length bs = LENGTH('w)"
  shows "to_be_bytes (from_be_bytes bs :: 'w::len word) = bs"
  using assms be_bytes_from_be_bytes [of bs, where 'w = 'w]
  by (metis to_be_bytes_def nonzero_mult_div_cancel_left zero_neq_numeral order_refl)

end
