(* ===== verification/Sizes.thy ===== *)
theory Sizes
  imports Prelude
begin

text \<open>
  The buffer sizes of \<open>src/lib.rs\<close>. \<open>max_encoding_overhead\<close> and \<open>max_encoding_length\<close> are the
  exact functions, which is what constant evaluation computes (it rejects an overflow);
  \<open>max_encoding_length_usize\<close> is the run-time function on a \<open>usize\<close> of any width, where the
  addition can overflow.
\<close>

definition max_encoding_overhead :: "nat \<Rightarrow> nat" where
  "max_encoding_overhead source_len = (if source_len = 0 then 1 else div_ceil source_len 254)"

definition max_encoding_length :: "nat \<Rightarrow> nat" where
  "max_encoding_length source_len = source_len + max_encoding_overhead source_len"

definition max_encoding_length_usize :: "'w::len word \<Rightarrow> 'w word option" where
  "max_encoding_length_usize source_len =
     add_checked source_len (of_nat (max_encoding_overhead (unat source_len)))"

lemma div_ceil_eq:
  assumes "0 < b"
  shows "div_ceil a b = (a + (b - 1)) div b"
proof -
  have a: "a + (b - 1) = a div b * b + (a mod b + (b - 1))"
    by (simp add: div_mult_mod_eq [symmetric] del: div_mult_mod_eq)
  have "(a + (b - 1)) div b = a div b + (a mod b + (b - 1)) div b"
    by (subst a, rule div_mult_self3) (use assms in simp)
  moreover have "(a mod b + (b - 1)) div b = (if 0 < a mod b then 1 else 0)"
  proof (cases "a mod b")
    case 0
    with assms show ?thesis by simp
  next
    case (Suc r)
    with assms have "r < b" by (metis Suc_lessD mod_less_divisor)
    moreover from Suc assms have "a mod b + (b - 1) = b + r" by simp
    ultimately show ?thesis using assms Suc by (simp add: add.commute [of b] div_add_self2)
  qed
  ultimately show ?thesis by (simp add: div_ceil_def)
qed

lemma div_ceil_254: "div_ceil n 254 = (n + 253) div 254"
  using div_ceil_eq [of 254 n] by simp

lemma max_encoding_overhead_pos: "1 \<le> max_encoding_overhead n"
  unfolding max_encoding_overhead_def div_ceil_254 by (cases n) auto

lemma max_encoding_overhead_mono: "m \<le> n \<Longrightarrow> max_encoding_overhead m \<le> max_encoding_overhead n"
  unfolding max_encoding_overhead_def div_ceil_254 by (auto intro: div_le_mono)

lemma max_encoding_overhead_block:
  "0 < n \<Longrightarrow> max_encoding_overhead (254 + n) = 1 + max_encoding_overhead n"
  unfolding max_encoding_overhead_def div_ceil_254 by simp

lemma max_encoding_overhead_le: "max_encoding_overhead n \<le> max 1 n"
proof (cases n)
  case (Suc m)
  have "(Suc m + 253) div 254 \<le> (Suc m * 254) div 254"
    by (intro div_le_mono) simp
  with Suc show ?thesis
    by (simp add: max_encoding_overhead_def div_ceil_254 del: div_mult_self_is_m)
qed (simp add: max_encoding_overhead_def)

lemma max_encoding_length_mono [intro]:
  "m \<le> n \<Longrightarrow> max_encoding_length m \<le> max_encoding_length n"
  unfolding max_encoding_length_def by (simp add: add_mono max_encoding_overhead_mono)

lemma max_encoding_length_strict: "m < n \<Longrightarrow> max_encoding_length m < max_encoding_length n"
  unfolding max_encoding_length_def by (simp add: add_less_le_mono max_encoding_overhead_mono)

lemma max_encoding_length_Suc: "n < max_encoding_length n"
  unfolding max_encoding_length_def using max_encoding_overhead_pos [of n] by simp

lemma max_encoding_overhead_fits:
  "max_encoding_overhead (unat (w :: 'w::len word)) < 2 ^ LENGTH('w)"
proof -
  have "(1::nat) < 2 ^ LENGTH('w)" by (rule one_less_power) simp_all
  moreover have "unat w < 2 ^ LENGTH('w)" by simp
  ultimately show ?thesis
    using max_encoding_overhead_le [of "unat w"] by linarith
qed

end
