(* ===== verification/Cobs_Spec.thy ===== *)
theory Cobs_Spec
  imports Sizes
begin

text \<open>
  Consistent Overhead Byte Stuffing, as an abstract specification: \<open>cobs\<close> maps a payload to its
  encoded body, block by block, and \<open>unstuff\<close> maps a body back to a payload, with a flag that
  says whether its last block is complete. The encoder of \<open>src/sync.rs\<close> and the decoder of
  \<open>src/codec/decode.rs\<close> are proved to compute these (theories \<open>Cobs_Encode\<close> and
  \<open>Cobs_Decode\<close>).
\<close>

section \<open>Encoding\<close>

text \<open>The longest prefix of at most 254 nonzero bytes: the data of the next block.\<close>

definition first_block :: "u8 list \<Rightarrow> u8 list" where
  "first_block xs = takeWhile (\<lambda>x. x \<noteq> 0) (take 254 xs)"

lemma first_block_Nil [simp]: "first_block [] = []"
  by (simp add: first_block_def)

lemma length_first_block: "length (first_block xs) \<le> 254"
  using length_takeWhile_le [of "\<lambda>x. x \<noteq> 0" "take 254 xs"] by (simp add: first_block_def)

lemma first_block_le: "length (first_block xs) \<le> length xs"
  using length_takeWhile_le [of "\<lambda>x. x \<noteq> 0" "take 254 xs"] by (simp add: first_block_def)

lemma first_block_nonzero: "0 \<notin> set (first_block xs)"
  by (auto simp: first_block_def dest: set_takeWhileD)

function cobs :: "u8 list \<Rightarrow> u8 list" where
  "cobs xs =
     (let b = first_block xs; r = drop (length b) xs in
      if length b = 254 then 255 # b @ (if r = [] then [] else cobs r)
      else of_nat (length b + 1) # b @ (case r of [] \<Rightarrow> [] | _ # r' \<Rightarrow> cobs r'))"
  by pat_completeness auto
termination
proof (relation "measure length", goal_cases)
  case 1
  show ?case by simp
next
  case (2 xs b r)
  then show ?case using first_block_le [of xs] by simp
next
  case (3 xs b r y r')
  then have "length (y # r') \<le> length xs" by simp
  then show ?case by simp
qed

declare cobs.simps [simp del]

lemma first_block_append:
  assumes "0 \<notin> set cur" "length cur < 254"
  shows "first_block (cur @ xs) = cur @ takeWhile (\<lambda>x. x \<noteq> 0) (take (254 - length cur) xs)"
  using assms by (auto simp: first_block_def takeWhile_append)

lemma cobs_short:
  assumes "0 \<notin> set cur" "length cur < 254"
  shows "cobs cur = of_nat (length cur + 1) # cur"
  using assms first_block_append [of cur "[]"] by (subst cobs.simps) simp

lemma cobs_zero:
  assumes "0 \<notin> set cur" "length cur < 254"
  shows "cobs (cur @ 0 # xs) = of_nat (length cur + 1) # cur @ cobs xs"
proof -
  have "first_block (cur @ 0 # xs) = cur"
    using assms first_block_append [of cur "0 # xs"] by (simp add: take_Cons')
  with assms show ?thesis by (subst cobs.simps) simp
qed

lemma cobs_full:
  assumes "0 \<notin> set cur" "length cur = 254"
  shows "cobs (cur @ xs) = 255 # cur @ (if xs = [] then [] else cobs xs)"
proof -
  have "first_block (cur @ xs) = cur"
    using assms by (auto simp: first_block_def takeWhile_eq_all_conv)
  with assms show ?thesis by (subst cobs.simps) simp
qed

lemma cobs_Nil [simp]: "cobs [] = [1]"
  using cobs_short [of "[]"] by simp

lemma cobs_nonempty [simp]: "cobs xs \<noteq> []"
  by (subst cobs.simps) (simp add: Let_def)

text \<open>Every payload is a short tail, a block ended by a zero, or a full block and the rest.\<close>

lemma block_cases:
  fixes xs :: "u8 list"
  obtains (short) "0 \<notin> set xs" "length xs < 254"
  | (zero) cur ys where "xs = cur @ 0 # ys" "0 \<notin> set cur" "length cur < 254"
  | (full) cur ys where "xs = cur @ ys" "0 \<notin> set cur" "length cur = 254"
proof -
  let ?b = "first_block xs"
  have split: "xs = ?b @ drop (length ?b) xs"
    by (metis append_take_drop_id first_block_def takeWhile_eq_take take_take min.absorb1
        length_takeWhile_le length_take min.bounded_iff)
  consider "length ?b = 254" | "length ?b < 254" "drop (length ?b) xs = []"
    | y ys where "length ?b < 254" "drop (length ?b) xs = y # ys"
    using length_first_block [of xs] by (cases "drop (length ?b) xs") fastforce+
  then show thesis
  proof cases
    case 1
    with split first_block_nonzero show thesis by (intro full) auto
  next
    case 2
    with split first_block_nonzero [of xs] show thesis by (intro short) (metis append_Nil2)+
  next
    case 3
    have "length ?b < length (take 254 xs)"
      using 3 split by (metis length_append length_take list.size(4) min_less_iff_conj less_add_Suc1 add_Suc_right)
    then have "take 254 xs ! length ?b = 0"
      using nth_length_takeWhile [of "\<lambda>x. x \<noteq> 0" "take 254 xs"] by (simp add: first_block_def)
    with 3 have "y = 0"
      by (metis hd_drop_conv_nth length_take list.sel(1) min_less_iff_conj nth_take
          \<open>length ?b < length (take 254 xs)\<close>)
    with 3 split first_block_nonzero show thesis by (intro zero) auto
  qed
qed

lemma cobs_induct [case_names short zero full]:
  fixes P :: "u8 list \<Rightarrow> bool"
  assumes short: "\<And>cur. 0 \<notin> set cur \<Longrightarrow> length cur < 254 \<Longrightarrow> P cur"
    and zero: "\<And>cur ys. 0 \<notin> set cur \<Longrightarrow> length cur < 254 \<Longrightarrow> P ys \<Longrightarrow> P (cur @ 0 # ys)"
    and full: "\<And>cur ys. 0 \<notin> set cur \<Longrightarrow> length cur = 254 \<Longrightarrow> (ys \<noteq> [] \<Longrightarrow> P ys) \<Longrightarrow> P (cur @ ys)"
  shows "P xs"
proof (induction xs rule: length_induct)
  case (1 xs)
  show ?case
  proof (cases xs rule: block_cases)
    case short
    then show ?thesis by (rule assms(1))
  next
    case (zero cur ys)
    with 1 show ?thesis by (auto intro: assms(2))
  next
    case (full cur ys)
    moreover have "P ys" if "ys \<noteq> []"
      using 1 full by auto
    ultimately show ?thesis by (auto intro: assms(3))
  qed
qed

lemma cobs_no_zero: "0 \<notin> set (cobs xs)"
proof (induction xs rule: cobs_induct)
  case (short cur)
  then show ?case by (auto simp: cobs_short word_of_nat_eq_0_iff dest: dvd_imp_le simp del: of_nat_Suc)
next
  case (zero cur ys)
  then show ?case by (auto simp: cobs_zero word_of_nat_eq_0_iff dest: dvd_imp_le simp del: of_nat_Suc)
next
  case (full cur ys)
  then show ?case by (simp add: cobs_full)
qed

lemma length_cobs: "length (cobs xs) \<le> max_encoding_length (length xs)"
proof (induction xs rule: cobs_induct)
  case (short cur)
  then show ?case
    using max_encoding_overhead_pos [of "length cur"] by (simp add: cobs_short max_encoding_length_def)
next
  case (zero cur ys)
  then show ?case
    using max_encoding_overhead_mono [of "length ys" "length cur + Suc (length ys)"]
    by (simp add: cobs_zero max_encoding_length_def)
next
  case (full cur ys)
  then show ?case
    using max_encoding_overhead_block [of "length ys"] max_encoding_overhead_pos [of 254]
    by (auto simp: cobs_full max_encoding_length_def)
qed

lemma length_cobs_gt: "length xs < length (cobs xs)"
  by (induction xs rule: cobs_induct) (auto simp: cobs_short cobs_zero cobs_full)

lemma length_cobs_nonzero: "0 \<notin> set xs \<Longrightarrow> length (cobs xs) = max_encoding_length (length xs)"
proof (induction xs rule: cobs_induct)
  case (short cur)
  then show ?case
    by (cases cur) (simp_all add: cobs_short max_encoding_length_def max_encoding_overhead_def div_ceil_254)
next
  case (zero cur ys)
  then show ?case by simp
next
  case (full cur ys)
  then show ?case
    using max_encoding_overhead_block [of "length ys"]
    by (auto simp: cobs_full max_encoding_length_def max_encoding_overhead_def div_ceil_254)
qed

section \<open>Decoding\<close>

text \<open>
  The payload of a body without its delimiter. A block is a code byte and the number of data
  bytes it announces; between two blocks stands a payload zero unless the first is a full one.
  The flag is false when the last block is cut short; the bytes read so far are still decoded.
\<close>

fun unstuff :: "u8 list \<Rightarrow> u8 list \<times> bool" where
  "unstuff [] = ([], True)"
| "unstuff (c # bs) =
     (let n = unat c - 1 in
      if length bs < n then (bs, False)
      else if drop n bs = [] then (take n bs, True)
      else (case unstuff (drop n bs) of
              (ys, ok) \<Rightarrow> (take n bs @ (if c = 255 then [] else [0]) @ ys, ok)))"

lemma unstuff_block:
  assumes "length cur < 255"
  shows "unstuff (of_nat (length cur + 1) # cur) = (cur, True)"
    and "bs \<noteq> [] \<Longrightarrow> unstuff (of_nat (length cur + 1) # cur @ bs) =
      (cur @ (if length cur = 254 then [] else [0]) @ fst (unstuff bs), snd (unstuff bs))"
proof -
  have n: "unat (of_nat (length cur + 1) :: u8) = length cur + 1"
    using assms by (simp add: unat_of_nat del: of_nat_add of_nat_Suc)
  then have full: "(of_nat (length cur + 1) :: u8) = 255 \<longleftrightarrow> length cur = 254"
    by (simp only: word_unat_eq_iff n) simp
  show "unstuff (of_nat (length cur + 1) # cur) = (cur, True)"
    using n by (simp del: of_nat_add of_nat_Suc)
  show "unstuff (of_nat (length cur + 1) # cur @ bs) =
      (cur @ (if length cur = 254 then [] else [0]) @ fst (unstuff bs), snd (unstuff bs))"
    if "bs \<noteq> []"
    using that n full by (simp split: prod.splits del: of_nat_add of_nat_Suc)
qed

lemma unstuff_cobs: "unstuff (cobs xs) = (xs, True)"
proof (induction xs rule: cobs_induct)
  case (short cur)
  then show ?case
    using unstuff_block(1) [of cur] by (simp add: cobs_short del: unstuff.simps)
next
  case (zero cur ys)
  then show ?case
    using unstuff_block(2) [of cur "cobs ys"] by (simp add: cobs_zero del: unstuff.simps)
next
  case (full cur ys)
  then show ?case
    using unstuff_block [of cur] by (simp add: cobs_full del: unstuff.simps)
qed

lemma cobs_inject: "cobs xs = cobs ys \<Longrightarrow> xs = ys"
  by (metis unstuff_cobs prod.inject)

lemma length_unstuff: "length (fst (unstuff bs)) \<le> length bs - 1"
proof (induction bs rule: unstuff.induct)
  case (2 c bs)
  show ?case
  proof (cases "length bs < unat c - 1 \<or> drop (unat c - 1) bs = []")
    case False
    with "2.IH" [OF refl] show ?thesis by (auto simp: Let_def split: prod.splits)
  qed (auto simp: Let_def)
qed simp

end
