(* ===== verification/Errors.thy ===== *)
theory Errors
  imports Prelude
begin

text \<open>
  The error types of \<open>src/error.rs\<close> and the progress report of \<open>src/codec/decode.rs\<close> that
  \<open>InvalidFrame\<close> carries.
\<close>

datatype seekable_error = OutOfBounds

text \<open>
  \<open>core::convert::Infallible\<close> has no value; a HOL type has at least one, so the decoder is proved
  never to produce it (the \<open>Source\<close> error is never returned).
\<close>

datatype infallible = Uninhabited

record decode_progress =
  progress_consumed :: u64
  progress_written :: u64
  progress_frame_len :: "u64 option"

text \<open>The \<open>Default\<close> of \<open>DecodeProgress\<close>\<close>

definition default_progress :: decode_progress where
  "default_progress = \<lparr>progress_consumed = 0, progress_written = 0, progress_frame_len = None\<rparr>"

datatype ('s, 'd) decode_error =
    Source 's
  | Destination 'd
  | UnexpectedSourceEof
  | EmptyFrame
  | InvalidFrame decode_progress

datatype config_error = BufferTooSmall

datatype 'e connection_error =
    Transport 'e
  | UnexpectedEof
  | WriteZero
  | Timeout
  | SequenceExhausted
  | Failed

end
