(* ===== verification/Cobs_Encode.thy ===== *)
theory Cobs_Encode
  imports Cobs_Spec Errors
begin

text \<open>
  The encoder of \<open>src/sync.rs\<close>: \<open>SliceOutput\<close> with \<open>append\<close> and \<open>set\<close>, the loop of
  \<open>encode_from_slice\<close> and \<open>encode_from_slice_including_sentinels\<close>. An operation that fails
  leaves the destination as the code leaves it, partly overwritten, so each returns the
  destination next to its result.
\<close>

record slice_output =
  dest :: "u8 list"
  out_len :: nat

definition append :: "u8 \<Rightarrow> 'z slice_output_scheme \<Rightarrow> (seekable_error + unit) \<times> 'z slice_output_scheme" where
  "append byte o' =
     (if out_len o' < length (dest o')
      then (Inr (), o'\<lparr>dest := (dest o')[out_len o' := byte], out_len := out_len o' + 1\<rparr>)
      else (Inl OutOfBounds, o'))"

definition set_at :: "nat \<Rightarrow> u8 \<Rightarrow> 'z slice_output_scheme \<Rightarrow> (seekable_error + unit) \<times> 'z slice_output_scheme" where
  "set_at idx byte o' =
     (if idx < length (dest o')
      then (Inr (), o'\<lparr>dest := (dest o')[idx := byte]\<rparr>)
      else (Inl OutOfBounds, o'))"

text \<open>The output and the local variables of the loop of \<open>encode_from_slice\<close>\<close>

record encoder = slice_output +
  code_idx :: nat
  code :: u8
  needs_code_placeholder :: bool

text \<open>One iteration of the loop\<close>

definition encode_byte :: "u8 \<Rightarrow> encoder \<Rightarrow> (seekable_error + unit) \<times> encoder" where
  "encode_byte byte s =
     and_then
       (if needs_code_placeholder s
        then and_then (append 0 s) (\<lambda>s. (Inr (), s\<lparr>needs_code_placeholder := False\<rparr>))
        else (Inr (), s))
       (\<lambda>s.
         if byte = 0 then
           and_then (set_at (code_idx s) (code s) s) (\<lambda>s.
           and_then (append 0 (s\<lparr>code_idx := out_len s\<rparr>)) (\<lambda>s.
             (Inr (), s\<lparr>code := 1\<rparr>)))
         else
           let s = s\<lparr>code := code s + 1\<rparr> in
           if code s = 255 then
             and_then (set_at (code_idx s) (code s) s) (\<lambda>s.
             and_then (append byte s) (\<lambda>s.
               (Inr (), s\<lparr>code_idx := out_len s, code := 1, needs_code_placeholder := True\<rparr>)))
           else append byte s)"

fun encode_loop :: "u8 list \<Rightarrow> encoder \<Rightarrow> (seekable_error + unit) \<times> encoder" where
  "encode_loop [] s = (Inr (), s)"
| "encode_loop (byte # source) s = and_then (encode_byte byte s) (encode_loop source)"

definition encode_from_slice :: "u8 list \<Rightarrow> u8 list \<Rightarrow> (seekable_error + nat) \<times> u8 list" where
  "encode_from_slice source d =
     (case and_then (append 0 \<lparr>dest = d, out_len = 0, code_idx = 0, code = 1,
                              needs_code_placeholder = False\<rparr>) (\<lambda>s.
           and_then (encode_loop source s) (\<lambda>s.
             if \<not> needs_code_placeholder s then set_at (code_idx s) (code s) s else (Inr (), s)))
      of (Inl e, s) \<Rightarrow> (Inl e, dest s) | (Inr _, s) \<Rightarrow> (Inr (out_len s), dest s))"

definition encode_from_slice_including_sentinels ::
  "u8 list \<Rightarrow> u8 list \<Rightarrow> (seekable_error + nat) \<times> u8 list" where
  "encode_from_slice_including_sentinels source d =
     (case d of
        [] \<Rightarrow> (Inl OutOfBounds, d)
      | _ # rest \<Rightarrow>
          (case encode_from_slice source rest of
             (Inl e, rest) \<Rightarrow> (Inl e, 0 # rest)
           | (Inr body_len, rest) \<Rightarrow>
               if body_len < length rest then (Inr (body_len + 2), 0 # rest[body_len := 0])
               else (Inl OutOfBounds, 0 # rest)))"

section \<open>The loop computes the specification\<close>

text \<open>
  The state of the loop between two bytes, seen from the specification: \<open>pre\<close> holds the
  finished blocks, \<open>cur\<close> the data of the block under construction, whose code byte is a
  placeholder at \<open>code_idx\<close>; \<open>d\<close> is the destination the caller passed.
\<close>

definition enc_open :: "u8 list \<Rightarrow> u8 list \<Rightarrow> u8 list \<Rightarrow> encoder \<Rightarrow> bool" where
  "enc_open d pre cur s \<longleftrightarrow>
     needs_code_placeholder s = False \<and> 0 \<notin> set cur \<and> length cur < 254 \<and>
     length pre + 1 + length cur \<le> length d \<and>
     dest s = pre @ 0 # cur @ drop (length pre + 1 + length cur) d \<and>
     out_len s = length pre + 1 + length cur \<and>
     code_idx s = length pre \<and> code s = of_nat (length cur + 1)"

definition enc_closed :: "u8 list \<Rightarrow> u8 list \<Rightarrow> encoder \<Rightarrow> bool" where
  "enc_closed d pre s \<longleftrightarrow>
     needs_code_placeholder s = True \<and> length pre \<le> length d \<and>
     dest s = pre @ drop (length pre) d \<and> out_len s = length pre \<and>
     code_idx s = length pre \<and> code s = 1"

text \<open>The outcome of encoding a body into \<open>d\<close>: it fits, or the destination is too short.\<close>

definition encodes :: "u8 list \<Rightarrow> u8 list \<Rightarrow> (seekable_error + unit) \<times> encoder \<Rightarrow> bool" where
  "encodes d body r \<longleftrightarrow>
     (if length body \<le> length d
      then fst r = Inr () \<and> dest (snd r) = body @ drop (length body) d \<and> out_len (snd r) = length body
      else fst r = Inl OutOfBounds \<and> length (dest (snd r)) = length d)"

lemma word_of_nat_1: "(of_nat (Suc 0) :: u8) = 1"
  by simp

lemma append_open:
  assumes "enc_open d pre cur s"
  shows "if length pre + 1 + length cur < length d
    then append b s = (Inr (), s\<lparr>dest := pre @ 0 # cur @ b # drop (length pre + 2 + length cur) d,
                              out_len := length pre + 2 + length cur\<rparr>)
    else append b s = (Inl OutOfBounds, s) \<and> length (dest s) = length d"
  using assms update_boundary [of "pre @ 0 # cur" "length pre + 1 + length cur" d b]
  by (auto simp: append_def enc_open_def)

lemma set_code_open:
  assumes "enc_open d pre cur s"
  shows "set_at (length pre) c s =
    (Inr (), s\<lparr>dest := pre @ c # cur @ drop (length pre + 1 + length cur) d\<rparr>)"
  using assms by (auto simp: set_at_def enc_open_def list_update_append)

lemma encode_byte_zero:
  assumes "enc_open d pre cur s"
  shows "if length pre + 1 + length cur < length d
    then \<exists>s'. encode_byte 0 s = (Inr (), s') \<and> enc_open d (pre @ of_nat (length cur + 1) # cur) [] s'
    else \<exists>s'. encode_byte 0 s = (Inl OutOfBounds, s') \<and> length (dest s') = length d"
proof -
  let ?c = "of_nat (length cur + 1) :: u8"
  from assms have "set_at (code_idx s) (code s) s =
    (Inr (), s\<lparr>dest := pre @ ?c # cur @ drop (length pre + 1 + length cur) d\<rparr>)"
    using set_code_open [OF assms, of ?c] by (simp add: enc_open_def)
  with assms show ?thesis
    using update_boundary [of "pre @ ?c # cur" "length pre + 1 + length cur" d 0]
    by (auto simp: encode_byte_def enc_open_def append_def word_of_nat_1
        simp del: of_nat_add of_nat_Suc)
qed

lemma encode_byte_data:
  assumes "enc_open d pre cur s" "b \<noteq> 0" "length cur < 253"
  shows "if length pre + 1 + length cur < length d
    then \<exists>s'. encode_byte b s = (Inr (), s') \<and> enc_open d pre (cur @ [b]) s'
    else \<exists>s'. encode_byte b s = (Inl OutOfBounds, s') \<and> length (dest s') = length d"
proof -
  have "(of_nat (length cur + 1) + 1 :: u8) \<noteq> 255"
  proof
    assume "(of_nat (length cur + 1) + 1 :: u8) = 255"
    then have "unat (of_nat (length cur + 2) :: u8) = 255" by simp
    with assms(3) show False by (simp add: unat_of_nat del: of_nat_add of_nat_Suc)
  qed
  with assms show ?thesis
    using update_boundary [of "pre @ 0 # cur" "length pre + 1 + length cur" d b]
    by (auto simp: encode_byte_def enc_open_def append_def Let_def add_ac)
qed

lemma encode_byte_full:
  assumes "enc_open d pre cur s" "b \<noteq> 0" "length cur = 253"
  shows "if length pre + 1 + length cur < length d
    then \<exists>s'. encode_byte b s = (Inr (), s') \<and> enc_closed d (pre @ 255 # cur @ [b]) s'
    else \<exists>s'. encode_byte b s = (Inl OutOfBounds, s') \<and> length (dest s') = length d"
proof -
  have "set_at (length pre) 255 (s\<lparr>code := 255\<rparr>) =
    (Inr (), s\<lparr>dest := pre @ 255 # cur @ drop (length pre + 1 + length cur) d, code := 255\<rparr>)"
    using assms by (auto simp: set_at_def enc_open_def list_update_append)
  with assms show ?thesis
    using update_boundary [of "pre @ 255 # cur" "length pre + 1 + length cur" d b]
    by (auto simp: encode_byte_def enc_open_def enc_closed_def append_def Let_def add.commute)
qed

lemma encode_byte_placeholder:
  "needs_code_placeholder s \<Longrightarrow> encode_byte b s =
     and_then (append 0 s) (\<lambda>s'. encode_byte b (s'\<lparr>needs_code_placeholder := False\<rparr>))"
  by (auto simp: encode_byte_def and_then_def append_def)

lemma append_closed:
  assumes "enc_closed d pre s"
  shows "if length pre < length d
    then \<exists>s'. append 0 s = (Inr (), s') \<and> enc_open d pre [] (s'\<lparr>needs_code_placeholder := False\<rparr>)
    else append 0 s = (Inl OutOfBounds, s) \<and> length (dest s) = length d"
  using assms update_boundary [of pre "length pre" d 0]
  by (auto simp: append_def enc_open_def enc_closed_def)

definition encode_rest :: "u8 list \<Rightarrow> encoder \<Rightarrow> (seekable_error + unit) \<times> encoder" where
  "encode_rest source s = and_then (encode_loop source s) (\<lambda>s.
     if \<not> needs_code_placeholder s then set_at (code_idx s) (code s) s else (Inr (), s))"

lemma encode_rest_Cons:
  "encode_rest (b # bs) s = and_then (encode_byte b s) (encode_rest bs)"
  by (auto simp: encode_rest_def and_then_def split: prod.splits sum.splits)

lemma encodes_too_short:
  "length d < length body \<Longrightarrow> length (dest s) = length d \<Longrightarrow> encodes d body (Inl OutOfBounds, s)"
  by (simp add: encodes_def)

text \<open>One byte on, in either state, if the rest of the bytes lead to the specified body\<close>

lemma encode_rest_open:
  assumes "enc_open d pre cur s"
    and "\<And>pre cur s. enc_open d pre cur s \<Longrightarrow> encodes d (pre @ cobs (cur @ bs)) (encode_rest bs s)"
    and "\<And>pre s. enc_closed d pre s \<Longrightarrow>
      encodes d (pre @ (if bs = [] then [] else cobs bs)) (encode_rest bs s)"
  shows "encodes d (pre @ cobs (cur @ b # bs)) (encode_rest (b # bs) s)"
proof (cases "length pre + 1 + length cur < length d")
  case True
  note o = assms(1)
  consider "b = 0" | "b \<noteq> 0" "length cur < 253" | "b \<noteq> 0" "length cur = 253"
    using o by (fastforce simp: enc_open_def)
  then show ?thesis
  proof cases
    case 1
    with True encode_byte_zero [OF o] obtain s' where
      "encode_byte b s = (Inr (), s')" "enc_open d (pre @ of_nat (length cur + 1) # cur) [] s'"
      by auto
    with assms(2) [OF this(2)] o 1 show ?thesis
      by (simp add: encode_rest_Cons enc_open_def cobs_zero)
  next
    case 2
    with True encode_byte_data [OF o] obtain s' where
      "encode_byte b s = (Inr (), s')" "enc_open d pre (cur @ [b]) s'"
      by auto
    with assms(2) [OF this(2)] show ?thesis by (simp add: encode_rest_Cons)
  next
    case 3
    with True encode_byte_full [OF o] obtain s' where
      "encode_byte b s = (Inr (), s')" "enc_closed d (pre @ 255 # cur @ [b]) s'"
      by auto
    with assms(3) [OF this(2)] o 3 cobs_full [of "cur @ [b]" bs] show ?thesis
      by (simp add: encode_rest_Cons enc_open_def)
  qed
next
  case False
  note o = assms(1)
  have "\<exists>s'. encode_byte b s = (Inl OutOfBounds, s') \<and> length (dest s') = length d"
    using False encode_byte_zero [OF o] encode_byte_data [OF o] encode_byte_full [OF o] o
    by (cases "b = 0"; cases "length cur < 253") (auto simp: enc_open_def)
  moreover have "length d < length (pre @ cobs (cur @ b # bs))"
    using False length_cobs_gt [of "cur @ b # bs"] by simp
  ultimately show ?thesis by (auto simp: encode_rest_Cons encodes_too_short)
qed

lemma encode_rest_closed:
  assumes "enc_closed d pre s"
    and "\<And>s. enc_open d pre [] s \<Longrightarrow> encodes d (pre @ cobs (b # bs)) (encode_rest (b # bs) s)"
  shows "encodes d (pre @ cobs (b # bs)) (encode_rest (b # bs) s)"
proof (cases "length pre < length d")
  case True
  with append_closed [OF assms(1)] obtain s' where
    a: "append 0 s = (Inr (), s')" and o: "enc_open d pre [] (s'\<lparr>needs_code_placeholder := False\<rparr>)"
    by auto
  from assms(1) have "needs_code_placeholder s" by (simp add: enc_closed_def)
  with a have "encode_rest (b # bs) s = encode_rest (b # bs) (s'\<lparr>needs_code_placeholder := False\<rparr>)"
    by (simp add: encode_rest_Cons encode_byte_placeholder)
  with assms(2) [OF o] show ?thesis by simp
next
  case False
  with append_closed [OF assms(1)] assms(1) show ?thesis
    by (simp add: encode_rest_Cons encode_byte_placeholder enc_closed_def encodes_too_short)
qed

text \<open>Both states of the loop lead to the specified body, by induction on the bytes left.\<close>

lemma encode_rest_correct:
  "enc_open d pre cur s \<Longrightarrow> encodes d (pre @ cobs (cur @ source)) (encode_rest source s)"
  "enc_closed d pre s \<Longrightarrow>
     encodes d (pre @ (if source = [] then [] else cobs source)) (encode_rest source s)"
proof (induction source arbitrary: pre cur s)
  case Nil
  {
    case 1
    then show ?case
      using set_code_open [of d pre cur s "of_nat (length cur + 1)"]
      by (auto simp: enc_open_def encode_rest_def encodes_def cobs_short)
  next
    case 2
    then show ?case by (auto simp: enc_closed_def encode_rest_def encodes_def)
  }
next
  case (Cons b bs)
  {
    case 1
    then show ?case using Cons by (rule encode_rest_open)
  next
    case 2
    have "encodes d (pre @ cobs ([] @ b # bs)) (encode_rest (b # bs) s)" if "enc_open d pre [] s" for s
      using that Cons by (rule encode_rest_open)
    with 2 show ?case using encode_rest_closed [of d pre s b bs] by simp
  }
qed

lemma encode_from_slice_correct:
  "encode_from_slice source d =
     (if length (cobs source) \<le> length d
      then (Inr (length (cobs source)), cobs source @ drop (length (cobs source)) d)
      else (Inl OutOfBounds, snd (encode_from_slice source d)))"
  "length (snd (encode_from_slice source d)) = length d"
proof -
  let ?s = "\<lparr>dest = d, out_len = 0, code_idx = 0, code = 1, needs_code_placeholder = False\<rparr>"
  have enc: "encodes d (cobs source) (and_then (append 0 ?s) (encode_rest source))"
  proof (cases d)
    case Nil
    then show ?thesis by (simp add: append_def encodes_too_short)
  next
    case (Cons x xs)
    then have "append 0 ?s = (Inr (), ?s\<lparr>dest := 0 # xs, out_len := 1\<rparr>)"
      by (simp add: append_def)
    moreover have "enc_open d [] [] (?s\<lparr>dest := 0 # xs, out_len := 1\<rparr>)"
      using Cons by (simp add: enc_open_def)
    ultimately show ?thesis
      using encode_rest_correct(1) [of d "[]" "[]" _ source] by simp
  qed
  have run: "encode_from_slice source d =
      (case and_then (append 0 ?s) (encode_rest source) of
         (Inl e, s) \<Rightarrow> (Inl e, dest s) | (Inr _, s) \<Rightarrow> (Inr (out_len s), dest s))"
    by (simp add: encode_from_slice_def encode_rest_def [abs_def])
  obtain r s' where rs: "and_then (append 0 ?s) (encode_rest source) = (r, s')" by fastforce
  show "encode_from_slice source d =
     (if length (cobs source) \<le> length d
      then (Inr (length (cobs source)), cobs source @ drop (length (cobs source)) d)
      else (Inl OutOfBounds, snd (encode_from_slice source d)))"
    and "length (snd (encode_from_slice source d)) = length d"
    using enc run unfolding rs by (auto simp: encodes_def split: sum.splits if_splits)
qed

end
