(* ===== verification/Cobs_Decode.thy ===== *)
theory Cobs_Decode
  imports Cobs_Spec Errors
begin

text \<open>
  The decoder of \<open>src/codec/decode.rs\<close>: the state machine \<open>DecoderState::push\<close> over single
  bytes and the loop of \<open>decode_slice\<close>, which \<open>sync::decode_to_slice\<close> calls; then the proof
  that the machine computes \<open>unstuff\<close> on the first frame of its input.
\<close>

record decoder_state =
  next_sentinel_idx :: u8
  current_block_is_full :: bool

datatype push_result =
    AddSingle
  | WriteSentinel
  | InvalidFrame_push
  | EndOfFrame
  | Skip

definition new_decoder :: decoder_state where
  "new_decoder = \<lparr>next_sentinel_idx = 0, current_block_is_full = False\<rparr>"

definition push :: "u8 \<Rightarrow> decoder_state \<Rightarrow> push_result \<times> decoder_state" where
  "push byte st =
     (if byte = 0 then
        if next_sentinel_idx st > 1 then (InvalidFrame_push, st\<lparr>next_sentinel_idx := 0\<rparr>)
        else (EndOfFrame, st\<lparr>next_sentinel_idx := 0\<rparr>)
      else if next_sentinel_idx st \<le> 1 then
        (if next_sentinel_idx st = 0 \<or> current_block_is_full st then Skip else WriteSentinel,
         st\<lparr>current_block_is_full := (byte = 0xFF), next_sentinel_idx := byte\<rparr>)
      else (AddSingle, st\<lparr>next_sentinel_idx := next_sentinel_idx st - 1\<rparr>))"

text \<open>The result of a successful decode, \<open>DecodedFrame\<close> of \<open>src/sync.rs\<close>\<close>

record decoded_frame =
  frame_len :: nat
  frame_consumed :: nat

type_synonym decode_result = "(infallible, seekable_error) decode_error + decoded_frame"

text \<open>
  The loop of \<open>decode_slice\<close> from index \<open>idx\<close>, over the bytes not yet read: \<open>n\<close> is
  \<open>source.len()\<close>, the other arguments are the local variables. The result comes with the
  destination, which an error leaves partly overwritten.
\<close>

fun decode_loop ::
  "nat \<Rightarrow> nat \<Rightarrow> u8 list \<Rightarrow> decoder_state \<Rightarrow> bool \<Rightarrow> nat \<Rightarrow> u8 list \<Rightarrow> decode_result \<times> u8 list" where
  "decode_loop n idx [] st started written dst =
     (if next_sentinel_idx st > 1 then Inl UnexpectedSourceEof
      else if \<not> started then Inl EmptyFrame
      else Inr \<lparr>frame_len = written, frame_consumed = n\<rparr>, dst)"
| "decode_loop n idx (byte # bytes) st started written dst =
     (if \<not> started \<and> byte = 0 then decode_loop n (idx + 1) bytes st started written dst
      else
        let (r, st) = push byte st;
            store = (\<lambda>value.
              if written < length dst
              then decode_loop n (idx + 1) bytes st True (written + 1) (dst[written := value])
              else (Inl (Destination OutOfBounds), dst))
        in case r of
             Skip \<Rightarrow> decode_loop n (idx + 1) bytes st True written dst
           | AddSingle \<Rightarrow> store byte
           | WriteSentinel \<Rightarrow> store 0
           | EndOfFrame \<Rightarrow> (Inr \<lparr>frame_len = written, frame_consumed = idx + 1\<rparr>, dst)
           | InvalidFrame_push \<Rightarrow>
               (Inl (InvalidFrame \<lparr>progress_consumed = of_nat idx + 1,
                                  progress_written = of_nat written,
                                  progress_frame_len = None\<rparr>), dst))"

definition decode_slice :: "u8 list \<Rightarrow> u8 list \<Rightarrow> decode_result \<times> u8 list" where
  "decode_slice source dst = decode_loop (length source) 0 source new_decoder False 0 dst"

definition decode_to_slice :: "u8 list \<Rightarrow> u8 list \<Rightarrow> decode_result \<times> u8 list" where
  "decode_to_slice source dst = decode_slice source dst"

section \<open>The reference decoder\<close>

text \<open>
  The first frame of a source: zeros, a body without zeros, and the rest, which starts with the
  delimiter unless the source ends there.
\<close>

definition frame_padding :: "u8 list \<Rightarrow> u8 list" where
  "frame_padding source = takeWhile (\<lambda>b. b = 0) source"

definition frame_body :: "u8 list \<Rightarrow> u8 list" where
  "frame_body source = takeWhile (\<lambda>b. b \<noteq> 0) (dropWhile (\<lambda>b. b = 0) source)"

definition frame_tail :: "u8 list \<Rightarrow> u8 list" where
  "frame_tail source = dropWhile (\<lambda>b. b \<noteq> 0) (dropWhile (\<lambda>b. b = 0) source)"

text \<open>The result of a frame whose decoded bytes \<open>ys\<close> all fit: \<open>ok\<close> if its last block is whole.\<close>

definition frame_result :: "nat \<Rightarrow> nat \<Rightarrow> u8 list \<Rightarrow> bool \<Rightarrow> nat \<Rightarrow> decode_result" where
  "frame_result n body_end tail ok w =
     (if tail = [] then
        if ok then Inr \<lparr>frame_len = w, frame_consumed = n\<rparr> else Inl UnexpectedSourceEof
      else if ok then Inr \<lparr>frame_len = w, frame_consumed = body_end + 1\<rparr>
      else Inl (InvalidFrame \<lparr>progress_consumed = of_nat (body_end + 1),
                             progress_written = of_nat w, progress_frame_len = None\<rparr>))"

definition decode_spec :: "u8 list \<Rightarrow> u8 list \<Rightarrow> decode_result \<times> u8 list" where
  "decode_spec source dst =
     (let body = frame_body source; (ys, ok) = unstuff body in
      if body = [] then (Inl EmptyFrame, dst)
      else if length dst < length ys then (Inl (Destination OutOfBounds), take (length dst) ys)
      else (frame_result (length source) (length (frame_padding source) + length body)
              (frame_tail source) ok (length ys),
            ys @ drop (length ys) dst))"

section \<open>The state machine computes the reference\<close>

text \<open>
  What is still to be decoded in the middle of a block: \<open>k\<close> is \<open>next_sentinel_idx\<close>, one more
  than the number of data bytes left, \<open>f\<close> is \<open>current_block_is_full\<close>.
\<close>

definition block_rest :: "nat \<Rightarrow> bool \<Rightarrow> u8 list \<Rightarrow> u8 list \<times> bool" where
  "block_rest k f bs =
     (let n = k - 1 in
      if length bs < n then (bs, False)
      else if drop n bs = [] then (take n bs, True)
      else (case unstuff (drop n bs) of
              (ys, ok) \<Rightarrow> (take n bs @ (if f then [] else [0]) @ ys, ok)))"

lemma unstuff_Cons: "unstuff (c # bs) = block_rest (unat c) (c = 255) bs"
  by (simp add: block_rest_def)

lemma block_rest_Nil: "block_rest k f [] = ([], k \<le> 1)"
  by (auto simp: block_rest_def Let_def)

lemma block_rest_code:
  "k \<le> 1 \<Longrightarrow> block_rest k f (c # bs) =
     (case block_rest (unat c) (c = 255) bs of (ys, ok) \<Rightarrow> ((if f then [] else [0]) @ ys, ok))"
  by (simp add: block_rest_def [of k] unstuff_Cons del: unstuff.simps split: prod.splits)

lemma block_rest_data:
  "1 < k \<Longrightarrow> block_rest k f (b # bs) =
     (case block_rest (k - 1) f bs of (ys, ok) \<Rightarrow> (b # ys, ok))"
  by (cases k; cases "k - 1") (auto simp: block_rest_def split: prod.splits)

definition overwrite :: "nat \<Rightarrow> 'a list \<Rightarrow> 'a list \<Rightarrow> 'a list" where
  "overwrite w ys dst = take w dst @ ys @ drop (w + length ys) dst"

lemma overwrite_Nil [simp]: "overwrite w [] dst = dst"
  by (simp add: overwrite_def)

lemma overwrite_update:
  assumes "w < length dst"
  shows "overwrite (Suc w) ys (dst[w := y]) = overwrite w (y # ys) dst"
proof -
  have "take (Suc w) (dst[w := y]) = take w dst @ [y]"
    using assms by (simp add: take_Suc_conv_app_nth)
  then show ?thesis using assms by (simp add: overwrite_def)
qed

text \<open>What the loop returns once the bytes \<open>ys\<close> of the frame are decoded from \<open>written\<close> on\<close>

definition finish_frame ::
  "nat \<Rightarrow> nat \<Rightarrow> u8 list \<Rightarrow> nat \<Rightarrow> u8 list \<Rightarrow> u8 list \<times> bool \<Rightarrow> decode_result \<times> u8 list" where
  "finish_frame n body_end tail written dst yo =
     (case yo of (ys, ok) \<Rightarrow>
        if length dst < written + length ys
        then (Inl (Destination OutOfBounds), overwrite written (take (length dst - written) ys) dst)
        else (frame_result n body_end tail ok (written + length ys), overwrite written ys dst))"

lemma finish_frame_Cons:
  "written < length dst \<Longrightarrow>
     finish_frame n e tail (Suc written) (dst[written := y]) (ys, ok) =
     finish_frame n e tail written dst (y # ys, ok)"
proof -
  assume w: "written < length dst"
  then obtain k where "length dst - written = Suc k" by (cases "length dst - written") auto
  moreover from this have "length dst - Suc written = k" by simp
  ultimately show ?thesis
    using w by (auto simp: finish_frame_def overwrite_update)
qed

lemma finish_frame_overflow:
  "\<not> written < length dst \<Longrightarrow>
     finish_frame n e tail written dst (y # ys, ok) = (Inl (Destination OutOfBounds), dst)"
  by (auto simp: finish_frame_def)

definition decoder_at :: "decoder_state \<Rightarrow> nat \<Rightarrow> bool \<Rightarrow> bool" where
  "decoder_at st k f \<longleftrightarrow>
     unat (next_sentinel_idx st) = k \<and> 1 \<le> k \<and> current_block_is_full st = f"

lemma decoder_at_idx:
  "decoder_at st k f \<Longrightarrow> (1 < next_sentinel_idx st \<longleftrightarrow> 1 < k)"
  "decoder_at st k f \<Longrightarrow> (next_sentinel_idx st \<le> 1 \<longleftrightarrow> k \<le> 1)"
  "decoder_at st k f \<Longrightarrow> next_sentinel_idx st \<noteq> 0"
  by (auto simp: decoder_at_def word_less_nat_alt word_le_nat_alt)

lemma push_data:
  assumes "decoder_at st k f" "b \<noteq> 0" "1 < k"
  obtains st' where "push b st = (AddSingle, st')" "decoder_at st' (k - 1) f"
proof
  show "push b st = (AddSingle, st\<lparr>next_sentinel_idx := next_sentinel_idx st - 1\<rparr>)"
    using assms decoder_at_idx [OF assms(1)] by (auto simp: push_def)
  have "1 \<le> next_sentinel_idx st"
    using assms by (auto simp: decoder_at_def word_le_nat_alt)
  then show "decoder_at (st\<lparr>next_sentinel_idx := next_sentinel_idx st - 1\<rparr>) (k - 1) f"
    using assms by (auto simp: decoder_at_def unat_sub)
qed

lemma push_code:
  assumes "decoder_at st k f" "b \<noteq> 0" "k \<le> 1"
  obtains st' where "push b st = (if f then Skip else WriteSentinel, st')"
    "decoder_at st' (unat b) (b = 255)"
proof
  show "push b st = (if f then Skip else WriteSentinel,
      st\<lparr>current_block_is_full := (b = 255), next_sentinel_idx := b\<rparr>)"
    using assms decoder_at_idx [OF assms(1)] by (auto simp: push_def decoder_at_def)
  show "decoder_at (st\<lparr>current_block_is_full := (b = 255), next_sentinel_idx := b\<rparr>) (unat b) (b = 255)"
    using assms(2) unat_gt_0 [of b] by (simp add: decoder_at_def Suc_le_eq)
qed

lemma decode_loop_correct:
  assumes "decoder_at st k f" "0 \<notin> set bs" "tail = [] \<or> hd tail = 0" "written \<le> length dst"
  shows "decode_loop n idx (bs @ tail) st True written dst =
    finish_frame n (idx + length bs) tail written dst (block_rest k f bs)"
  using assms
proof (induction bs arbitrary: idx st k f written dst)
  case Nil
  show ?case
  proof (cases tail)
    case Nil
    with Nil.prems show ?thesis
      by (simp add: finish_frame_def frame_result_def block_rest_Nil decoder_at_idx not_less)
  next
    case (Cons t ts)
    with Nil.prems show ?thesis
      by (simp add: finish_frame_def frame_result_def block_rest_Nil decoder_at_idx push_def not_less)
  qed
next
  case (Cons b bs)
  then have b: "b \<noteq> 0" by auto
  show ?case
  proof (cases "1 < k")
    case True
    with Cons.prems b obtain st' where
      "push b st = (AddSingle, st')" "decoder_at st' (k - 1) f" by (metis push_data)
    with True Cons.IH [of st' "k - 1" f "Suc written" "dst[written := b]" "Suc idx"] Cons.prems
    show ?thesis
      by (cases "block_rest (k - 1) f bs")
        (simp add: block_rest_data finish_frame_Cons finish_frame_overflow)
  next
    case False
    then have k: "k \<le> 1" by simp
    with Cons.prems b obtain st' where
      p: "push b st = (if f then Skip else WriteSentinel, st')" "decoder_at st' (unat b) (b = 255)"
      by (metis push_code)
    show ?thesis
    proof (cases f)
      case True
      with p k Cons.IH [of st' "unat b" "b = 255" written dst "Suc idx"] Cons.prems
      show ?thesis
        by (cases "block_rest (unat b) (b = 255) bs") (simp add: block_rest_code)
    next
      case f: False
      with p k Cons.IH [of st' "unat b" "b = 255" "Suc written" "dst[written := 0]" "Suc idx"] Cons.prems
      show ?thesis
        by (cases "block_rest (unat b) (b = 255) bs")
          (simp add: block_rest_code finish_frame_Cons finish_frame_overflow)
    qed
  qed
qed

text \<open>Padding before the frame is skipped, and its first code byte starts the first block.\<close>

lemma decode_loop_padding:
  "\<forall>b \<in> set zs. b = 0 \<Longrightarrow>
     decode_loop n idx (zs @ bs) new_decoder False 0 dst =
     decode_loop n (idx + length zs) bs new_decoder False 0 dst"
  by (induction zs arbitrary: idx) auto

lemma decode_loop_first:
  assumes "c \<noteq> 0"
  shows "\<exists>st. decode_loop n idx (c # bs) new_decoder False 0 dst =
    decode_loop n (idx + 1) bs st True 0 dst \<and> decoder_at st (unat c) (c = 255)"
proof -
  have "push c new_decoder = (Skip, \<lparr>next_sentinel_idx = c, current_block_is_full = (c = 255)\<rparr>)"
    using assms by (simp add: push_def new_decoder_def)
  moreover have "decoder_at \<lparr>next_sentinel_idx = c, current_block_is_full = (c = 255)\<rparr> (unat c) (c = 255)"
    using assms unat_gt_0 [of c] by (simp add: decoder_at_def Suc_le_eq)
  ultimately show ?thesis using assms by auto
qed

lemma frame_split: "source = frame_padding source @ frame_body source @ frame_tail source"
  by (simp add: frame_padding_def frame_body_def frame_tail_def)

lemma frame_padding_zero: "\<forall>b \<in> set (frame_padding source). b = 0"
  by (auto simp: frame_padding_def dest: set_takeWhileD)

lemma frame_body_nonzero: "0 \<notin> set (frame_body source)"
  by (auto simp: frame_body_def dest: set_takeWhileD)

lemma frame_tail_hd: "frame_tail source = [] \<or> hd (frame_tail source) = 0"
  using hd_dropWhile [of "\<lambda>b. b \<noteq> 0" "dropWhile (\<lambda>b. b = 0) source"]
  by (auto simp: frame_tail_def)

lemma frame_body_Nil: "frame_body source = [] \<Longrightarrow> frame_tail source = []"
  by (cases "dropWhile (\<lambda>b. b = 0) source")
    (auto simp: frame_body_def frame_tail_def dropWhile_eq_Cons_conv simp del: dropWhile_eq_Nil_conv)

lemma decode_slice_correct: "decode_slice source dst = decode_spec source dst"
proof -
  let ?z = "frame_padding source" and ?b = "frame_body source" and ?t = "frame_tail source"
  let ?n = "length source"
  have start: "decode_slice source dst =
      decode_loop ?n (length ?z) (?b @ ?t) new_decoder False 0 dst"
    unfolding decode_slice_def
    using decode_loop_padding [OF frame_padding_zero [of source], of ?n 0 "?b @ ?t" dst]
      frame_split [of source] by simp
  show ?thesis
  proof (cases ?b)
    case Nil
    with start frame_body_Nil [OF Nil] show ?thesis
      by (simp add: decode_spec_def new_decoder_def Let_def)
  next
    case (Cons c bs)
    with frame_body_nonzero [of source] have c: "c \<noteq> 0" "0 \<notin> set bs" by auto
    from decode_loop_first [OF c(1)] obtain st where
      st: "decoder_at st (unat c) (c = 255)" and
      step: "decode_loop ?n (length ?z) (c # (bs @ ?t)) new_decoder False 0 dst =
        decode_loop ?n (length ?z + 1) (bs @ ?t) st True 0 dst" by blast
    have "decode_slice source dst =
        finish_frame ?n (length ?z + 1 + length bs) ?t 0 dst (unstuff ?b)"
      unfolding start Cons append_Cons step
      using decode_loop_correct [OF st c(2) frame_tail_hd, of 0 dst] by (simp add: unstuff_Cons del: unstuff.simps)
    also have "\<dots> = decode_spec source dst"
      using Cons by (auto simp: decode_spec_def finish_frame_def overwrite_def Let_def
          simp del: unstuff.simps split: prod.splits)
    finally show ?thesis .
  qed
qed

lemma decode_to_slice_bounds:
  "length (snd (decode_to_slice source dst)) = length dst"
  "fst (decode_to_slice source dst) = Inr f \<Longrightarrow>
     frame_len f \<le> length dst \<and> frame_consumed f \<le> length source"
proof -
  obtain ys ok where ys: "unstuff (frame_body source) = (ys, ok)" by fastforce
  have "length (frame_padding source) + length (frame_body source) + length (frame_tail source) =
      length source"
    using frame_split [of source] by (metis length_append add.assoc)
  with ys show "length (snd (decode_to_slice source dst)) = length dst"
    "fst (decode_to_slice source dst) = Inr f \<Longrightarrow>
     frame_len f \<le> length dst \<and> frame_consumed f \<le> length source"
    by (cases "frame_tail source";
        auto simp: decode_to_slice_def decode_slice_correct decode_spec_def frame_result_def Let_def
          split: if_splits)+
qed

end
