(* ===== verification/Framing.thy ===== *)
theory Framing
  imports Cobs_Encode Cobs_Decode
begin

text \<open>
  What the packet layer relies on when it calls the codec of \<open>src/sync.rs\<close>, as a locale: a
  payload has one encoded body without zeros, the encoder writes it between two zeros when the
  destination is large enough, and the decoder gives the payload back whatever padding comes
  before the body and whatever bytes follow its delimiter. The COBS encoder and decoder provide
  this interface.
\<close>

locale framing =
  fixes encode :: "u8 list \<Rightarrow> u8 list \<Rightarrow> (seekable_error + nat) \<times> u8 list"
    and decode :: "u8 list \<Rightarrow> u8 list \<Rightarrow> decode_result \<times> u8 list"
    and body :: "u8 list \<Rightarrow> u8 list"
  assumes body_nonempty: "body xs \<noteq> []"
    and body_nonzero: "0 \<notin> set (body xs)"
    and body_length: "length (body xs) \<le> max_encoding_length (length xs)"
    and encode_fits: "length (body xs) + 2 \<le> length d \<Longrightarrow>
      encode xs d = (Inr (length (body xs) + 2), 0 # body xs @ 0 # drop (length (body xs) + 2) d)"
    and encode_short: "length d < length (body xs) + 2 \<Longrightarrow> fst (encode xs d) = Inl OutOfBounds"
    and encode_length: "length (snd (encode xs d)) = length d"
    and decode_body: "length xs \<le> length d \<Longrightarrow>
      decode (replicate k 0 @ body xs @ 0 # rest) d =
        (Inr \<lparr>frame_len = length xs, frame_consumed = k + length (body xs) + 1\<rparr>, xs @ drop (length xs) d)"
begin

lemma encode_max:
  "max_encoding_length (length xs) + 2 \<le> length d \<Longrightarrow>
     encode xs d = (Inr (length (body xs) + 2), 0 # body xs @ 0 # drop (length (body xs) + 2) d)"
  using body_length [of xs] by (intro encode_fits) linarith

lemma encode_ok_iff: "(\<exists>k. fst (encode xs d) = Inr k) \<longleftrightarrow> length (body xs) + 2 \<le> length d"
  using encode_fits [of xs d] encode_short [of d xs] by (cases "length (body xs) + 2 \<le> length d") auto

lemma decode_encoded:
  assumes "encode xs d = (Inr k, d')" "length xs \<le> length e"
  shows "decode (take k d' @ rest) e =
    (Inr \<lparr>frame_len = length xs, frame_consumed = k\<rparr>, xs @ drop (length xs) e)"
proof -
  from assms(1) encode_ok_iff [of xs d] have fits: "length (body xs) + 2 \<le> length d" by auto
  then have "d' = 0 # body xs @ 0 # drop k d" "k = length (body xs) + 2"
    using assms(1) encode_fits [of xs d] by auto
  then have "take k d' @ rest = replicate 1 0 @ body xs @ 0 # rest" by simp
  with decode_body [OF assms(2), of 1 rest] \<open>k = _\<close> show ?thesis by simp
qed

lemma body_inject:
  assumes "body xs = body ys"
  shows "xs = ys"
proof -
  let ?d = "replicate (length xs + length ys) 0"
  have "(Inr \<lparr>frame_len = length xs, frame_consumed = length (body xs) + 1\<rparr> :: decode_result,
          xs @ drop (length xs) ?d)
      = (Inr \<lparr>frame_len = length ys, frame_consumed = length (body ys) + 1\<rparr>, ys @ drop (length ys) ?d)"
    using decode_body [of xs ?d 0 "[]"] decode_body [of ys ?d 0 "[]"] assms by simp
  then show ?thesis by (auto simp: append_eq_append_conv)
qed

end

section \<open>COBS provides the interface\<close>

lemma frame_parts_delimited:
  assumes "0 \<notin> set b" "b \<noteq> []"
  shows "frame_padding (replicate k 0 @ b @ 0 # rest) = replicate k 0"
    and "frame_body (replicate k 0 @ b @ 0 # rest) = b"
    and "frame_tail (replicate k 0 @ b @ 0 # rest) = 0 # rest"
  using assms
  by (cases b; auto simp: frame_padding_def frame_body_def frame_tail_def takeWhile_append
      dropWhile_append)+

lemma frame_parts_whole:
  assumes "0 \<notin> set b" "b \<noteq> []"
  shows "frame_padding b = []" "frame_body b = b" "frame_tail b = []"
  using assms by (cases b; auto simp: frame_padding_def frame_body_def frame_tail_def takeWhile_eq_all_conv)+

lemma decode_delimited:
  assumes "0 \<notin> set b" "b \<noteq> []"
  shows "decode_to_slice (replicate k 0 @ b @ 0 # rest) d =
    (case unstuff b of (ys, ok) \<Rightarrow>
       if length d < length ys then (Inl (Destination OutOfBounds), take (length d) ys)
       else (if ok then Inr \<lparr>frame_len = length ys, frame_consumed = k + length b + 1\<rparr>
             else Inl (InvalidFrame \<lparr>progress_consumed = of_nat (k + length b + 1),
                         progress_written = of_nat (length ys), progress_frame_len = None\<rparr>),
             ys @ drop (length ys) d))"
  using assms
  by (simp add: decode_to_slice_def decode_slice_correct decode_spec_def frame_parts_delimited
      frame_result_def split: prod.splits)

lemma encode_sentinels_correct:
  "length (cobs xs) + 2 \<le> length d \<Longrightarrow>
     encode_from_slice_including_sentinels xs d =
       (Inr (length (cobs xs) + 2), 0 # cobs xs @ 0 # drop (length (cobs xs) + 2) d)"
  "length d < length (cobs xs) + 2 \<Longrightarrow>
     fst (encode_from_slice_including_sentinels xs d) = Inl OutOfBounds"
  "length (snd (encode_from_slice_including_sentinels xs d)) = length d"
proof -
  have sentinel: "(c @ drop (length c) r)[length c := 0] = c @ 0 # drop (Suc (length c)) r"
    if "length c < length r" for c r :: "u8 list"
    using that by (simp add: update_boundary)
  show "length (cobs xs) + 2 \<le> length d \<Longrightarrow>
     encode_from_slice_including_sentinels xs d =
       (Inr (length (cobs xs) + 2), 0 # cobs xs @ 0 # drop (length (cobs xs) + 2) d)"
    using encode_from_slice_correct(1) [of xs "tl d"]
    by (cases d) (auto simp: encode_from_slice_including_sentinels_def sentinel)
  show "length d < length (cobs xs) + 2 \<Longrightarrow>
     fst (encode_from_slice_including_sentinels xs d) = Inl OutOfBounds"
    using encode_from_slice_correct(1) [of xs "tl d"]
    by (cases d; cases "encode_from_slice xs (tl d)")
      (auto simp: encode_from_slice_including_sentinels_def split: if_splits)
  show "length (snd (encode_from_slice_including_sentinels xs d)) = length d"
    using encode_from_slice_correct(2) [of xs "tl d"]
    by (cases d; cases "encode_from_slice xs (tl d)")
      (auto simp: encode_from_slice_including_sentinels_def split: sum.splits)
qed

interpretation cobs_framing: framing encode_from_slice_including_sentinels decode_to_slice cobs
proof unfold_locales
  show "decode_to_slice (replicate k 0 @ cobs xs @ 0 # rest) d =
      (Inr \<lparr>frame_len = length xs, frame_consumed = k + length (cobs xs) + 1\<rparr>, xs @ drop (length xs) d)"
    if "length xs \<le> length d" for xs d :: "u8 list" and k rest
    using that by (simp add: decode_delimited cobs_no_zero unstuff_cobs)
qed (simp_all add: cobs_no_zero length_cobs encode_sentinels_correct)

end
