(* ===== verification/Reference_Encoder.thy ===== *)
theory Reference_Encoder
  imports Cobs_Encode
begin

text \<open>
  The encoder that \<open>src/tests/sync.rs\<close> keeps as a reference: it grows a vector, with no limit on its
  size, and looks ahead at the end of the payload where the encoder of the crate defers a
  placeholder. Both compute the specification.
\<close>

section \<open>The reference\<close>

text \<open>The loop over the bytes from index \<open>i\<close> on, of \<open>len\<close>\<close>

fun reference_loop :: "nat \<Rightarrow> nat \<Rightarrow> u8 list \<Rightarrow> u8 list \<Rightarrow> nat \<Rightarrow> u8 \<Rightarrow> u8 list option" where
  "reference_loop len i [] v idx c = index_set idx c v"
| "reference_loop len i (byte # data) v idx c =
    (if byte = 0 then do {
       v \<leftarrow> index_set idx c v;
       reference_loop len (i + 1) data (v @ [0]) (length v) 1
     } else do {
       let v = v @ [byte];
       c \<leftarrow> add_checked c 1;
       if c = 0xFF then do {
         v \<leftarrow> index_set idx c v;
         if i + 1 = len then Some v
         else reference_loop len (i + 1) data (v @ [0]) (length v) 1
       } else reference_loop len (i + 1) data v idx c
     })"

definition reference_encode :: "u8 list \<Rightarrow> u8 list option" where
  "reference_encode data = reference_loop (length data) 0 data [0] 0 1"

section \<open>It computes the specification\<close>

lemma index_set_code: "idx = length pre \<Longrightarrow> index_set idx c (pre @ 0 # cur) = Some (pre @ c # cur)"
  by (simp add: index_set_def list_update_append)

lemma next_code:
  assumes "length cur < 254"
  shows "add_checked (of_nat (length cur + 1) :: u8) 1 = Some (of_nat (length cur + 2))"
    and "(of_nat (length cur + 2) :: u8) = 0xFF \<longleftrightarrow> length cur = 253"
proof -
  have u: "unat (of_nat (length cur + 1) :: u8) = length cur + 1"
      "unat (of_nat (length cur + 2) :: u8) = length cur + 2"
    using assms by (simp_all add: unat_of_nat del: of_nat_add of_nat_Suc)
  then show "add_checked (of_nat (length cur + 1) :: u8) 1 = Some (of_nat (length cur + 2))"
    using assms unfolding add_checked_def by simp
  show "(of_nat (length cur + 2) :: u8) = 0xFF \<longleftrightarrow> length cur = 253"
    unfolding word_unat_eq_iff u(2) by simp
qed

lemma reference_loop_cobs:
  assumes "0 \<notin> set cur" "length cur < 254" "i + length data = len"
    and "idx = length pre" "c = of_nat (length cur + 1)"
  shows "reference_loop len i data (pre @ 0 # cur) idx c = Some (pre @ cobs (cur @ data))"
  using assms
proof (induction data arbitrary: i pre cur idx c)
  case Nil
  then show ?case by (simp add: index_set_code cobs_short)
next
  case (Cons byte data)
  note step = Cons.IH [of "[]" "i + 1" _ _ 1]
  consider "byte = 0" | "byte \<noteq> 0" "length cur = 253" "data = []" | "byte \<noteq> 0" "length cur = 253" "data \<noteq> []"
    | "byte \<noteq> 0" "length cur \<noteq> 253"
    by blast
  then show ?case
  proof cases
    case 1
    have "reference_loop len (i + 1) data ((pre @ c # cur) @ [0]) (length (pre @ c # cur)) 1 =
        Some ((pre @ c # cur) @ cobs data)"
      using step [of "length (pre @ c # cur)" "pre @ c # cur"] Cons.prems(3) by simp
    with 1 Cons.prems show ?thesis by (simp add: index_set_code cobs_zero)
  next
    case 2
    with Cons.prems next_code [of cur] cobs_full [of "cur @ [byte]" "[]"] show ?thesis
      by (simp add: index_set_code)
  next
    case 3
    have "reference_loop len (i + 1) data ((pre @ 255 # cur @ [byte]) @ [0]) (length (pre @ 255 # cur @ [byte])) 1 =
        Some ((pre @ 255 # cur @ [byte]) @ cobs data)"
      using step [of "length (pre @ 255 # cur @ [byte])" "pre @ 255 # cur @ [byte]"] Cons.prems(3) by simp
    with 3 Cons.prems next_code [of cur] cobs_full [of "cur @ [byte]" data] show ?thesis
      by (auto simp: index_set_code)
  next
    case 4
    have "reference_loop len (i + 1) data (pre @ 0 # (cur @ [byte])) idx (of_nat (length (cur @ [byte]) + 1)) =
        Some (pre @ cobs ((cur @ [byte]) @ data))"
      using Cons.prems 4 by (intro Cons.IH) auto
    with 4 Cons.prems next_code [of cur] show ?thesis by simp
  qed
qed

lemma reference_encode_cobs: "reference_encode data = Some (cobs data)"
  using reference_loop_cobs [of "[]" 0 data "length data" 0 "[]" 1] by (simp add: reference_encode_def)

end
