(* ===== verification/Codec_Properties.thy ===== *)
theory Codec_Properties
  imports Framing Reference_Encoder
begin

text \<open>
  The properties of the codec: \<open>src/sync.rs\<close>, \<open>src/codec/decode.rs\<close> and the size functions of
  \<open>src/lib.rs\<close>. Each follows from the lemmas of the theories it is about.
\<close>

section \<open>Concrete encodings\<close>

lemma encode_example:
  "encode_from_slice [7, 0, 9] [0, 0, 0, 0, 0] = (Inr 4, [2, 7, 2, 9, 0])"
  "encode_from_slice_including_sentinels [7, 0] [0, 0, 0, 0, 0] = (Inr 5, [0, 2, 7, 1, 0])"
  by code_simp+

lemma decode_example:
  "decode_to_slice [0, 3, 7, 0, 9] [0, 0] =
     (Inl (InvalidFrame \<lparr>progress_consumed = 4, progress_written = 1, progress_frame_len = None\<rparr>), [7, 0])"
  by code_simp

lemma sum_div_254: "2 \<le> M \<Longrightarrow> 0 < n \<Longrightarrow> n + (n + 253) div 254 < M \<longleftrightarrow> 255 * n \<le> 254 * (M - 1)"
  for n M :: nat
  by linarith

lemma unat_small: "n < 2 ^ LENGTH('w) \<Longrightarrow> unat (of_nat n :: 'w::len word) = n"
  by (simp add: unat_of_nat)

lemma frame_body_delimited: "frame_body (frame_padding source @ frame_body source) = frame_body source"
proof -
  have "dropWhile (\<lambda>b. b = 0) (frame_padding source @ frame_body source) =
      dropWhile (\<lambda>b. b = 0) (frame_body source)"
    using frame_padding_zero by (intro dropWhile_append2) auto
  also have "\<dots> = frame_body source"
    using frame_body_nonzero [of source] by (cases "frame_body source") auto
  finally show ?thesis
    unfolding frame_body_def [of "frame_padding source @ frame_body source"]
    using frame_body_nonzero [of source] by (simp add: takeWhile_eq_all_conv) metis
qed

lemma encode_from_slice_ok:
  assumes "encode_from_slice source d = (Inr k, d')"
  shows "k = length (cobs source)" "take k d' = cobs source"
  using assms encode_from_slice_correct(1) [of source d]
  by (cases "length (cobs source) \<le> length d"; simp)+

section \<open>Sizes\<close>

text \<open>
  C34: \<open>max_encoding_length\<close> overflows a machine word (a panic, with overflow checks) exactly for the
  lengths above 254/255 of the largest word, and otherwise is the length as a natural number.
\<close>

theorem max_encoding_length_overflow:
  fixes n :: "'w::len word"
  shows "max_encoding_length_usize n =
    (if 255 * unat n \<le> 254 * (2 ^ LENGTH('w) - 1)
     then Some (of_nat (max_encoding_length (unat n))) else None)"
proof -
  let ?M = "2 ^ LENGTH('w) :: nat"
  have "1 \<le> LENGTH('w)" by (simp add: Suc_le_eq)
  then have M: "2 \<le> ?M"
    using power_increasing [of 1 "LENGTH('w)" "2 :: nat"] by simp
  have "(unat n + max_encoding_overhead (unat n) < ?M) = (255 * unat n \<le> 254 * (?M - 1))"
  proof (cases "unat n = 0")
    case False
    then have "max_encoding_overhead (unat n) = (unat n + 253) div 254"
      by (simp add: max_encoding_overhead_def div_ceil_254)
    then show ?thesis using sum_div_254 [OF M, of "unat n"] False by simp
  qed (use M in \<open>simp add: max_encoding_overhead_def\<close>)
  moreover have "unat (of_nat (max_encoding_overhead (unat n)) :: 'w word) = max_encoding_overhead (unat n)"
    using max_encoding_overhead_fits [of n] by (simp add: unat_small)
  ultimately show ?thesis
    by (simp add: max_encoding_length_usize_def add_checked_def max_encoding_length_def)
qed

section \<open>Encoding\<close>

text \<open>
  C15: \<open>encode_from_slice\<close> writes the COBS encoding of its source at the start of the destination
  and returns its length when the encoding fits, leaving the rest of the destination; otherwise it
  returns the error. In neither case does the destination change its length.
\<close>

theorem encode_from_slice_exact:
  "(if length (cobs source) \<le> length d
    then encode_from_slice source d =
      (Inr (length (cobs source)), cobs source @ drop (length (cobs source)) d)
    else fst (encode_from_slice source d) = Inl OutOfBounds) \<and>
   length (snd (encode_from_slice source d)) = length d"
proof (cases "length (cobs source) \<le> length d")
  case True
  then show ?thesis using encode_from_slice_correct(1) [of source d] by simp
next
  case False
  then have "encode_from_slice source d = (Inl OutOfBounds, snd (encode_from_slice source d))"
    using encode_from_slice_correct(1) [of source d] by simp
  then show ?thesis
    using False encode_from_slice_correct(2) [of source d] by (metis fst_conv)
qed

text \<open>
  C17: What the tests check on random payloads holds for every payload and every destination: the
  reference encoder of the tests does not panic, its output is within \<open>max_encoding_length\<close> and has
  no zero; \<open>encode_from_slice\<close> writes exactly that output, or reports that it does not fit; and
  \<open>decode_to_slice\<close> gives the payload back from it alone, without a delimiter, consuming all of it.
\<close>

theorem encode_matches_reference:
  "\<exists>body. reference_encode data = Some body \<and>
    length body \<le> max_encoding_length (length data) \<and> 0 \<notin> set body \<and>
    (if length body \<le> length d
     then encode_from_slice data d = (Inr (length body), body @ drop (length body) d)
     else fst (encode_from_slice data d) = Inl OutOfBounds) \<and>
    decode_to_slice body (replicate (length data) b) =
      (Inr \<lparr>frame_len = length data, frame_consumed = length body\<rparr>, data)"
proof -
  have "decode_to_slice (cobs data) (replicate (length data) b) =
      (Inr \<lparr>frame_len = length data, frame_consumed = length (cobs data)\<rparr>, data)"
    using frame_parts_whole [OF cobs_no_zero cobs_nonempty, of data] unstuff_cobs [of data]
    by (simp add: decode_to_slice_def decode_slice_correct decode_spec_def frame_result_def)
  moreover have "fst (encode_from_slice data d) = Inl OutOfBounds" if "length d < length (cobs data)"
    using that encode_from_slice_correct(1) [of data d] by (metis fst_conv not_le)
  moreover have "encode_from_slice data d = (Inr (length (cobs data)), cobs data @ drop (length (cobs data)) d)"
    if "length (cobs data) \<le> length d"
    using that encode_from_slice_correct(1) [of data d] by simp
  ultimately show ?thesis
    using length_cobs [of data] cobs_no_zero [of data]
    by (simp add: reference_encode_cobs)
qed

text \<open>
  C40: A successful encoding has no zero byte, is longer than its source and within the bound of
  \<open>max_encoding_length\<close>; a source without zeros attains the bound.
\<close>

theorem encoding_shape:
  assumes "encode_from_slice source d = (Inr k, d')"
  shows "0 \<notin> set (take k d') \<and> length source < k \<and> k \<le> max_encoding_length (length source) \<and>
    (0 \<notin> set source \<longrightarrow> k = max_encoding_length (length source))"
  using encode_from_slice_ok [OF assms] cobs_no_zero [of source] length_cobs [of source]
    length_cobs_gt [of source] length_cobs_nonzero [of source]
  by simp

theorem encoding_shape_witness:
  "encode_from_slice [1, 0, 2] [9, 9, 9, 9, 9] = (Inr 4, [2, 1, 2, 2, 9]) \<and>
     0 \<notin> set (take 4 [2, 1, 2, 2, 9 :: u8]) \<and> 4 \<le> max_encoding_length 3"
proof -
  have "encode_from_slice [1, 0, 2] [9, 9, 9, 9, 9] = (Inr 4, [2, 1, 2, 2, 9])" by code_simp
  with encoding_shape [OF this] show ?thesis by (simp add: numeral_3_eq_3)
qed

text \<open>
  C39: A destination of \<open>max_encoding_length\<close> bytes suffices for every source of that length, and
  for a source without zeros nothing less does: the bound is the least one.
\<close>

theorem encode_bound_least:
  "(\<forall>source d. length source = n \<and> max_encoding_length n \<le> length d \<longrightarrow>
      (\<exists>k d'. encode_from_slice source d = (Inr k, d'))) \<and>
   (\<exists>source. length source = n \<and> (\<forall>d. length d < max_encoding_length n \<longrightarrow>
      fst (encode_from_slice source d) = Inl OutOfBounds))"
proof (intro conjI allI impI)
  fix source d :: "u8 list"
  assume "length source = n \<and> max_encoding_length n \<le> length d"
  then have "length (cobs source) \<le> length d" using length_cobs [of source] by simp
  then show "\<exists>k d'. encode_from_slice source d = (Inr k, d')"
    using encode_from_slice_correct(1) [of source d] by auto
next
  let ?source = "replicate n 1 :: u8 list"
  have "length (cobs ?source) = max_encoding_length n"
    using length_cobs_nonzero [of ?source] by simp
  then have "fst (encode_from_slice ?source d) = Inl OutOfBounds" if "length d < max_encoding_length n" for d
    using that encode_from_slice_correct(1) [of ?source d] by (metis fst_conv not_le)
  then show "\<exists>source. length source = n \<and> (\<forall>d. length d < max_encoding_length n \<longrightarrow>
      fst (encode_from_slice source d) = Inl OutOfBounds)"
    by (intro exI [of _ ?source]) simp
qed

theorem encode_bound_least_witness:
  "\<exists>k d'. encode_from_slice [1, 2] [0, 0, 0] = (Inr k, d')"
  using encode_bound_least [of 2] by (auto simp: max_encoding_length_def max_encoding_overhead_def
      div_ceil_254)

section \<open>Decoding\<close>

text \<open>
  C16: The decoder, a state machine fed byte by byte, is the block-wise definition of COBS: it skips
  leading zeros, decodes the bytes up to the next zero or the end, and reports the length and the
  bytes consumed, or the first error in the order of the input.
\<close>

theorem decode_to_slice_exact: "decode_to_slice source dst = decode_spec source dst"
  by (simp add: decode_to_slice_def decode_slice_correct)

text \<open>
  C33: Whatever the input, the decoder writes only into the destination, reports counts within the
  two buffers, and never reports a failure of the source.
\<close>

theorem decode_to_slice_safe:
  "length (snd (decode_to_slice source dst)) = length dst \<and>
   (case fst (decode_to_slice source dst) of
      Inr f \<Rightarrow> frame_len f \<le> length dst \<and> frame_consumed f \<le> length source
    | Inl e \<Rightarrow> (\<forall>x. e \<noteq> Source x))"
proof -
  have "fst (decode_to_slice source dst) \<noteq> Inl (Source x)" for x
    by (auto simp: decode_to_slice_def decode_slice_correct decode_spec_def frame_result_def Let_def
        split: prod.splits)
  then show ?thesis
    using decode_to_slice_bounds [of source dst] by (auto split: sum.splits)
qed

text \<open>
  C32: A frame found invalid ends at a zero: the progress it reports counts the bytes up to and with
  that delimiter, so that decoding resumes at the next frame; it reports no frame length, and no
  more bytes written than the destination holds.
\<close>

theorem invalid_frame_progress:
  assumes "decode_to_slice source dst = (Inl (InvalidFrame p), dst')" "length source < 2 ^ 64"
  shows "\<exists>bad rest. source = bad @ 0 # rest \<and> unat (progress_consumed p) = length bad + 1 \<and>
    frame_body bad = frame_body source \<and> \<not> snd (unstuff (frame_body source)) \<and>
    unat (progress_written p) \<le> length dst \<and> progress_frame_len p = None"
proof -
  let ?bad = "frame_padding source @ frame_body source"
  obtain ys ok where u: "unstuff (frame_body source) = (ys, ok)" by fastforce
  have parts: "frame_tail source \<noteq> []" "\<not> ok" "length ys \<le> length dst"
      "p = \<lparr>progress_consumed = of_nat (length ?bad + 1),
        progress_written = of_nat (length ys), progress_frame_len = None\<rparr>"
    using assms(1) u by (auto simp: decode_to_slice_def decode_slice_correct decode_spec_def
        frame_result_def Let_def split: if_splits)
  then obtain rest where tail: "frame_tail source = 0 # rest"
    using frame_tail_hd [of source] by (cases "frame_tail source") auto
  have source: "source = ?bad @ 0 # rest" using frame_split [of source] tail by simp
  then have "length source = length ?bad + 1 + length rest"
    by (metis One_nat_def add_Suc_right add_Suc_shift length_Cons length_append plus_1_eq_Suc add.assoc)
  then have "unat (progress_consumed p) = length ?bad + 1"
    using assms(2) unat_small [of "length ?bad + 1", where 'w = 64] unfolding parts(4) by simp
  moreover have "unat (progress_written p) \<le> length dst"
    using parts(3,4) by (simp add: unat_of_nat)
  ultimately show ?thesis
    using source u parts(2,4) frame_body_delimited [of source]
    by (intro exI [of _ ?bad] exI [of _ rest]) simp
qed

theorem invalid_frame_progress_witness:
  "\<exists>bad rest. [0, 3, 7, 0, 9 :: u8] = bad @ 0 # rest \<and> 4 = length bad + 1"
  using invalid_frame_progress [OF decode_example] by auto

section \<open>Round trips\<close>

text \<open>
  Decoding what \<open>encode_from_slice\<close> wrote, with any number of zeros before it and a zero and
  any bytes after it, gives the source back and stops right after the delimiter.
\<close>

theorem encode_decode_body:
  assumes "encode_from_slice source d = (Inr k, d')" "length source \<le> length e"
  shows "decode_to_slice (replicate z 0 @ take k d' @ 0 # rest) e =
    (Inr \<lparr>frame_len = length source, frame_consumed = z + k + 1\<rparr>,
     source @ drop (length source) e)"
  using encode_from_slice_ok [OF assms(1)] assms(2) by (simp add: cobs_framing.decode_body)

theorem encode_decode_body_witness:
  "decode_to_slice [0, 2, 7, 2, 9, 0, 5] [1, 1, 1] = (Inr \<lparr>frame_len = 3, frame_consumed = 6\<rparr>, [7, 0, 9])"
  using encode_decode_body [OF encode_example(1), of "[1, 1, 1]" 1 "[5]"] by simp

text \<open>
  C24: A delimited frame decodes to its source whatever follows it, and the bytes consumed are
  exactly the frame: frames written one after the other are read one after the other.
\<close>

theorem frame_round_trip:
  assumes "encode_from_slice_including_sentinels source d = (Inr k, d')" "length source \<le> length e"
  shows "decode_to_slice (take k d' @ rest) e =
    (Inr \<lparr>frame_len = length source, frame_consumed = k\<rparr>, source @ drop (length source) e)"
  using assms by (rule cobs_framing.decode_encoded)

theorem frame_round_trip_witness:
  "decode_to_slice [0, 2, 7, 1, 0, 9] [1, 1, 1] = (Inr \<lparr>frame_len = 2, frame_consumed = 5\<rparr>, [7, 0, 1])"
  using frame_round_trip [OF encode_example(2), of "[1, 1, 1]" "[9]"] by simp

text \<open>
  \<open>encode_from_slice_including_sentinels\<close> succeeds exactly when the encoding and its two
  delimiters fit, which \<open>max_encoding_length\<close> plus two guarantees; the frame has no zero but its
  first and last byte.
\<close>

theorem frame_shape:
  "(case encode_from_slice_including_sentinels source d of
      (Inr k, d') \<Rightarrow> k \<le> length d \<and> (\<exists>body. take k d' = 0 # body @ [0] \<and> 0 \<notin> set body) \<and>
        drop k d' = drop k d
    | (Inl e, d') \<Rightarrow> e = OutOfBounds \<and> length d < max_encoding_length (length source) + 2)"
proof (cases "length (cobs source) + 2 \<le> length d")
  case True
  then show ?thesis
    using encode_sentinels_correct(1) [OF True] cobs_no_zero [of source] by auto
next
  case False
  then have "length d < max_encoding_length (length source) + 2" using length_cobs [of source] by simp
  with False show ?thesis
    using encode_sentinels_correct(2) [of d source]
    by (cases "encode_from_slice_including_sentinels source d") auto
qed

end
