(* ===== verification/Crc.thy ===== *)
theory Crc
  imports Prelude
begin

text \<open>
  The checksum of \<open>src/protocol.rs\<close>: the constant table that constant evaluation fills, the
  table-driven \<open>crc32\<close>, its equivalence with the bitwise CRC-32/ISO-HDLC, and the errors it is
  sure to detect.
\<close>

section \<open>The code\<close>

text \<open>The body of the inner loop of \<open>CRC_TABLE\<close>\<close>

definition crc_bit :: "u32 \<Rightarrow> u32" where
  "crc_bit crc = (if crc AND 1 \<noteq> 0 then drop_bit 1 crc XOR 0xEDB88320 else drop_bit 1 crc)"

text \<open>The loop over \<open>bit\<close>, from \<open>k\<close> up to 8\<close>

function crc_bits_from :: "nat \<Rightarrow> u32 \<Rightarrow> u32" where
  "crc_bits_from k crc = (if k < 8 then crc_bits_from (k + 1) (crc_bit crc) else crc)"
  by pat_completeness auto
termination
  by (relation "measure (\<lambda>(k, crc). 8 - k)") auto

declare crc_bits_from.simps [simp del]

text \<open>The loop over \<open>i\<close>, from \<open>i\<close> up to 256\<close>

function crc_table_from :: "nat \<Rightarrow> u32 list \<Rightarrow> u32 list" where
  "crc_table_from i table =
     (if i < 256 then crc_table_from (i + 1) (table[i := crc_bits_from 0 (of_nat i)]) else table)"
  by pat_completeness auto
termination
  by (relation "measure (\<lambda>(i, table). 256 - i)") auto

declare crc_table_from.simps [simp del]

definition crc_table :: "u32 list" where
  "crc_table = crc_table_from 0 (replicate 256 0)"

definition crc32_byte :: "u8 \<Rightarrow> u32 \<Rightarrow> u32" where
  "crc32_byte byte crc = crc_table ! unat (ucast crc XOR byte) XOR drop_bit 8 crc"

definition crc32 :: "u8 list \<Rightarrow> u32" where
  "crc32 data = NOT (fold crc32_byte data (NOT 0))"

section \<open>The table\<close>

lemma crc_bits_from_eq: "n \<le> 8 \<Longrightarrow> crc_bits_from n crc = (crc_bit ^^ (8 - n)) crc"
proof (induction n crc rule: crc_bits_from.induct)
  case (1 n crc)
  show ?case
  proof (cases "n < 8")
    case True
    then have "8 - n = Suc (8 - Suc n)" by simp
    with 1 True show ?thesis
      by (subst crc_bits_from.simps) (simp add: funpow_Suc_right del: funpow.simps)
  next
    case False
    with 1 show ?thesis by (subst crc_bits_from.simps) simp
  qed
qed

lemma crc_table_from_eq:
  "i \<le> 256 \<Longrightarrow> length table = 256 \<Longrightarrow>
     length (crc_table_from i table) = 256 \<and>
     (\<forall>k < 256. crc_table_from i table ! k =
        (if k < i then table ! k else crc_bits_from 0 (of_nat k)))"
proof (induction i table rule: crc_table_from.induct)
  case (1 i table)
  show ?case
  proof (cases "i < 256")
    case True
    with 1 show ?thesis
      by (subst (1 2) crc_table_from.simps) (auto simp: nth_list_update less_Suc_eq)
  next
    case False
    with 1 show ?thesis by (subst (1 2) crc_table_from.simps) auto
  qed
qed

lemma length_crc_table: "length crc_table = 256"
  using crc_table_from_eq [of 0 "replicate 256 0"] by (simp add: crc_table_def)

lemma crc_table_nth: "k < 256 \<Longrightarrow> crc_table ! k = (crc_bit ^^ 8) (of_nat k)"
  using crc_table_from_eq [of 0 "replicate 256 0"] crc_bits_from_eq [of 0]
  by (simp add: crc_table_def)

section \<open>Linearity\<close>

lemma bit_u32: "bit (w :: u32) n \<Longrightarrow> n < 32"
  using bit_imp_le_length [of w n] by simp

lemma and_1_bit: "(x AND 1 \<noteq> 0) = bit (x :: u32) 0"
  by (simp add: and_one_eq even_iff_mod_2_eq_zero bit_0)

lemma crc_bit_eq: "crc_bit x = (if bit x 0 then drop_bit 1 x XOR 0xEDB88320 else drop_bit 1 x)"
  unfolding crc_bit_def and_1_bit ..

lemma crc_bit_xor: "crc_bit (x XOR y) = crc_bit x XOR crc_bit y"
  by (simp add: crc_bit_eq bit_xor_iff drop_bit_xor ac_simps)

lemma crc_bits_xor: "(crc_bit ^^ n) (x XOR y) = (crc_bit ^^ n) x XOR (crc_bit ^^ n) y"
  by (induction n) (simp_all add: crc_bit_xor)

lemma crc_bits_shift: "take_bit n h = 0 \<Longrightarrow> (crc_bit ^^ n) h = drop_bit n h"
proof (induction n)
  case 0
  show ?case by simp
next
  case (Suc n)
  have zero: "\<not> bit h k" if "k < Suc n" for k
    using that Suc.prems by (metis bit_0_eq bit_take_bit_iff bot_apply bot_bool_def)
  then have "take_bit n h = 0"
    by (intro bit_word_eqI) (auto simp: bit_take_bit_iff)
  with Suc.IH have "(crc_bit ^^ Suc n) h = crc_bit (drop_bit n h)" by simp
  also have "\<not> bit (drop_bit n h) 0" using zero [of n] by (simp add: bit_drop_bit_eq)
  then have "crc_bit (drop_bit n h) = drop_bit (Suc n) h"
    by (simp add: crc_bit_eq drop_bit_drop_bit)
  finally show ?case .
qed

lemma crc_bit_inj: "crc_bit x = crc_bit y \<Longrightarrow> x = y"
proof -
  assume "crc_bit x = crc_bit y"
  then have z: "crc_bit (x XOR y) = 0" by (simp add: crc_bit_xor)
  let ?d = "x XOR y"
  have top: "bit (0xEDB88320 :: u32) 31" by simp
  have "\<not> bit (drop_bit 1 d) 31" for d :: u32
    by (auto simp: bit_drop_bit_eq dest: bit_u32)
  then have low: "\<not> bit ?d 0"
    using z top by (metis bit_0_eq bit_xor_iff bot_apply bot_bool_def crc_bit_eq)
  with z have "drop_bit 1 ?d = 0" by (simp add: crc_bit_eq)
  then have "bit (drop_bit 1 ?d) k = False" for k by simp
  then have "\<not> bit ?d (Suc k)" for k by (simp only: bit_drop_bit_eq) simp
  with low have "\<not> bit ?d k" for k by (cases k) auto
  then have "?d = 0" by (intro bit_word_eqI) simp
  then have "(x XOR y) XOR y = 0 XOR y" by (rule arg_cong)
  then show "x = y" by (simp add: xor.assoc)
qed

lemma crc_bits_inj: "(crc_bit ^^ n) x = (crc_bit ^^ n) y \<Longrightarrow> x = y"
  by (induction n) (auto dest: crc_bit_inj)

section \<open>The table-driven step is eight bitwise steps\<close>

definition crc32_byte_bitwise :: "u8 \<Rightarrow> u32 \<Rightarrow> u32" where
  "crc32_byte_bitwise byte crc = (crc_bit ^^ 8) (crc XOR ucast byte)"

lemma crc32_byte_eq: "crc32_byte byte crc = crc32_byte_bitwise byte crc"
proof -
  let ?l = "ucast (ucast crc XOR byte :: u8) :: u32" and ?h = "crc AND NOT (mask 8)"
  have "crc XOR ucast byte = ?h XOR ?l"
    by (rule bit_word_eqI) (auto simp: bit_simps)
  moreover have "take_bit 8 ?h = 0"
    by (rule bit_word_eqI) (auto simp: bit_simps)
  moreover have "drop_bit 8 ?h = drop_bit 8 crc"
    by (rule bit_word_eqI) (auto simp: bit_simps dest: bit_u32)
  moreover have "(of_nat (unat (ucast crc XOR byte :: u8)) :: u32) = ?l"
    by simp
  moreover have "unat (ucast crc XOR byte :: u8) < 256"
    using unsigned_less [of "ucast crc XOR byte :: u8"] by simp
  ultimately show ?thesis
    by (simp add: crc32_byte_def crc32_byte_bitwise_def crc_table_nth crc_bits_xor crc_bits_shift
        xor.commute)
qed

lemma crc32_byte_inj: "crc32_byte b x = crc32_byte b y \<Longrightarrow> x = y"
proof -
  assume "crc32_byte b x = crc32_byte b y"
  then have "x XOR ucast b = y XOR ucast b"
    unfolding crc32_byte_eq crc32_byte_bitwise_def by (rule crc_bits_inj)
  then have "(x XOR ucast b) XOR ucast b = (y XOR ucast b) XOR ucast b" by (rule arg_cong)
  then show "x = y" by (simp add: xor.assoc)
qed

lemma crc32_bytes_inj: "fold crc32_byte bs x = fold crc32_byte bs y \<Longrightarrow> x = y"
  by (induction bs arbitrary: x y) (auto dest: crc32_byte_inj)

section \<open>Errors that are always detected\<close>

text \<open>
  Up to four bytes enter the state as one 32-bit value, lowest byte first, before the same number
  of bitwise steps; two different values of at most four bytes thus give different states.
\<close>

fun le_bytes :: "u8 list \<Rightarrow> u32" where
  "le_bytes [] = 0"
| "le_bytes (b # bs) = ucast b XOR push_bit 8 (le_bytes bs)"

lemma le_bytes_high: "bit (le_bytes bs) k \<Longrightarrow> k < 8 * length bs"
proof (induction bs arbitrary: k)
  case (Cons b bs)
  then show ?case
    by (cases "k < 8") (auto simp: bit_simps dest: bit_u8 Cons.IH [of "k - 8"])
qed simp

lemma le_bytes_inj:
  "length xs = length ys \<Longrightarrow> length xs \<le> 4 \<Longrightarrow> le_bytes xs = le_bytes ys \<Longrightarrow> xs = ys"
proof (induction xs ys rule: list_induct2)
  case (Cons x xs y ys)
  have eq: "bit (le_bytes (x # xs)) k = bit (le_bytes (y # ys)) k" for k
    using Cons.prems by simp
  have "bit x k = bit y k" if "k < 8" for k
    using that eq [of k] by (simp add: bit_simps)
  then have "x = y" by (intro bit_word_eqI) simp
  moreover have "bit (le_bytes xs) k = bit (le_bytes ys) k" for k
  proof (cases "k < 24")
    case True
    then show ?thesis using eq [of "k + 8"] by (auto simp: bit_simps dest: bit_u8)
  next
    case False
    then show ?thesis
      using Cons.prems Cons.hyps le_bytes_high [of xs k] le_bytes_high [of ys k] by auto
  qed
  then have "le_bytes xs = le_bytes ys" by (intro bit_word_eqI) simp
  ultimately show ?case using Cons by simp
qed simp

lemma crc32_bytes_burst:
  "length bs \<le> 4 \<Longrightarrow> fold crc32_byte bs crc = (crc_bit ^^ (8 * length bs)) (crc XOR le_bytes bs)"
proof (induction bs arbitrary: crc)
  case (Cons b bs)
  let ?r = "push_bit 8 (le_bytes bs)"
  have "take_bit 8 ?r = 0" by (rule bit_word_eqI) (auto simp: bit_simps)
  moreover have "drop_bit 8 ?r = le_bytes bs"
    using Cons.prems by (intro bit_word_eqI) (auto simp: bit_simps dest: le_bytes_high)
  ultimately have "(crc_bit ^^ 8) ?r = le_bytes bs" by (simp add: crc_bits_shift)
  then have "crc32_byte b crc XOR le_bytes bs = (crc_bit ^^ 8) (crc XOR le_bytes (b # bs))"
    by (simp add: crc32_byte_eq crc32_byte_bitwise_def crc_bits_xor xor.assoc)
  moreover have "(crc_bit ^^ (8 * length bs)) ((crc_bit ^^ 8) c) = (crc_bit ^^ (8 * length (b # bs))) c"
    for c by (simp add: add.commute [of 8] funpow_add)
  ultimately show ?case using Cons by simp
qed simp

lemma crc32_burst:
  assumes "length xs = length ys" "length xs \<le> 4" "xs \<noteq> ys"
  shows "crc32 (p @ xs @ s) \<noteq> crc32 (p @ ys @ s)"
proof
  let ?c = "fold crc32_byte p (NOT 0)"
  assume "crc32 (p @ xs @ s) = crc32 (p @ ys @ s)"
  then have "fold crc32_byte s (fold crc32_byte xs ?c) = fold crc32_byte s (fold crc32_byte ys ?c)"
    by (simp add: crc32_def)
  then have "fold crc32_byte xs ?c = fold crc32_byte ys ?c" by (rule crc32_bytes_inj)
  then have "?c XOR le_bytes xs = ?c XOR le_bytes ys"
    using assms by (simp add: crc32_bytes_burst crc_bits_inj)
  then have "?c XOR (?c XOR le_bytes xs) = ?c XOR (?c XOR le_bytes ys)" by (rule arg_cong)
  then have "le_bytes xs = le_bytes ys" by (simp add: xor.assoc [symmetric])
  with assms le_bytes_inj show False by blast
qed

end
