(* ===== verification/Protocol.thy ===== *)
theory Protocol
  imports Framing Crc
begin

text \<open>
  The packets of \<open>src/protocol.rs\<close>: their layout, the encoders of DATA and ACK frames, the parser,
  and the largest payload a frame buffer can carry.
\<close>

section \<open>The code\<close>

definition KIND_DATA :: u8 where "KIND_DATA = 1"
definition KIND_ACK :: u8 where "KIND_ACK = 2"
definition HEADER_LEN :: nat where "HEADER_LEN = 1 + 8 + 4"
definition CRC_LEN :: nat where "CRC_LEN = 4"
definition OVERHEAD :: nat where "OVERHEAD = HEADER_LEN + CRC_LEN"
definition ACK_FRAME_LEN :: nat where "ACK_FRAME_LEN = max_encoding_length OVERHEAD + 2"

datatype packet =
    Data (session_of: u64) (seq_of: u32) (payload_of: "u8 list")
  | Ack (session_of: u64) (seq_of: u32)

text \<open>The loop of \<open>max_payload\<close>, from \<open>len\<close> down\<close>

fun max_payload_loop :: "nat \<Rightarrow> nat \<Rightarrow> nat" where
  "max_payload_loop body len =
     (if len > OVERHEAD \<and> max_encoding_length len > body then max_payload_loop body (len - 1)
      else len)"

declare max_payload_loop.simps [simp del]

definition max_payload :: "nat \<Rightarrow> nat" where
  "max_payload capacity =
     (case checked_sub capacity 2 of
        None \<Rightarrow> 0
      | Some body \<Rightarrow> max_payload_loop body body - OVERHEAD)"

text \<open>\<open>expect\<close> on the result of the encoder is a panic when the frame buffer is too short.\<close>

definition seal :: "u8 list \<Rightarrow> nat \<Rightarrow> u8 list \<Rightarrow> (nat \<times> u8 list \<times> u8 list) option" where
  "seal decoded len frame = do {
     end_body \<leftarrow> sub_checked len CRC_LEN;
     body \<leftarrow> slice 0 end_body decoded;
     let crc = crc32 body;
     decoded \<leftarrow> copy_from_slice end_body len (to_be_bytes crc) decoded;
     source \<leftarrow> slice 0 len decoded;
     case encode_from_slice_including_sentinels source frame of
       (Inr n, frame) \<Rightarrow> Some (n, decoded, frame)
     | (Inl _, _) \<Rightarrow> None
   }"

definition header :: "u8 list \<Rightarrow> u8 \<Rightarrow> u64 \<Rightarrow> u32 \<Rightarrow> u8 list option" where
  "header decoded kind session seq = do {
     decoded \<leftarrow> index_set 0 kind decoded;
     decoded \<leftarrow> copy_from_slice 1 9 (to_be_bytes session) decoded;
     copy_from_slice 9 HEADER_LEN (to_be_bytes seq) decoded
   }"

text \<open>Both return the length of the frame, the scratch buffer and the frame buffer.\<close>

definition encode_data ::
  "u64 \<Rightarrow> u32 \<Rightarrow> u8 list \<Rightarrow> u8 list \<Rightarrow> u8 list \<Rightarrow> (nat \<times> u8 list \<times> u8 list) option" where
  "encode_data session seq payload scratch frame = do {
     scratch \<leftarrow> header scratch KIND_DATA session seq;
     scratch \<leftarrow> copy_from_slice HEADER_LEN (HEADER_LEN + length payload) payload scratch;
     seal scratch (OVERHEAD + length payload) frame
   }"

definition encode_ack :: "u64 \<Rightarrow> u32 \<Rightarrow> u8 list \<Rightarrow> (nat \<times> u8 list) option" where
  "encode_ack session seq frame = do {
     decoded \<leftarrow> header (replicate OVERHEAD 0) KIND_ACK session seq;
     (n, _, frame) \<leftarrow> seal decoded OVERHEAD frame;
     Some (n, frame)
   }"

text \<open>
  The outer option is the panic, the inner one the result: \<open>None\<close> when \<open>decoded\<close> is no packet.
  \<open>try_into\<close> turns a slice into an array of its length, and fails on any other length.
\<close>

definition try_into_array :: "nat \<Rightarrow> u8 list \<Rightarrow> u8 list option" where
  "try_into_array n xs = (if length xs = n then Some xs else None)"

definition parse :: "u8 list \<Rightarrow> packet option option" where
  "parse decoded =
     (if length decoded < OVERHEAD then Some None
      else do {
        n \<leftarrow> sub_checked (length decoded) CRC_LEN;
        (body, crc) \<leftarrow> split_at n decoded;
        case try_into_array 4 crc of
          None \<Rightarrow> Some None
        | Some crc \<Rightarrow>
            if crc32 body \<noteq> from_be_bytes crc then Some None
            else do {
              session \<leftarrow> slice 1 9 body;
              seq \<leftarrow> slice 9 HEADER_LEN body;
              payload \<leftarrow> slice HEADER_LEN (length body) body;
              kind \<leftarrow> index body 0;
              case (try_into_array 8 session, try_into_array 4 seq) of
                (Some session, Some seq) \<Rightarrow>
                  let session = from_be_bytes session; seq = from_be_bytes seq in
                  if kind = KIND_DATA \<and> payload \<noteq> [] then Some (Some (Data session seq payload))
                  else if kind = KIND_ACK \<and> payload = [] then Some (Some (Ack session seq))
                  else Some None
              | _ \<Rightarrow> Some None
            }
      })"

section \<open>The layout of a packet\<close>

definition packet_fields :: "packet \<Rightarrow> u8 list" where
  "packet_fields p =
     (case p of
        Data session seq payload \<Rightarrow> KIND_DATA # to_be_bytes session @ to_be_bytes seq @ payload
      | Ack session seq \<Rightarrow> KIND_ACK # to_be_bytes session @ to_be_bytes seq)"

definition sealed :: "u8 list \<Rightarrow> u8 list" where
  "sealed fs = fs @ to_be_bytes (crc32 fs)"

definition packet_bytes :: "packet \<Rightarrow> u8 list" where
  "packet_bytes p = sealed (packet_fields p)"

text \<open>The frame on the wire: the packet between two zero delimiters\<close>

definition packet_frame :: "packet \<Rightarrow> u8 list" where
  "packet_frame p = 0 # cobs (packet_bytes p) @ [0]"

text \<open>A DATA packet carries at least one byte.\<close>

definition valid_packet :: "packet \<Rightarrow> bool" where
  "valid_packet p \<longleftrightarrow> (case p of Data _ _ payload \<Rightarrow> payload \<noteq> [] | Ack _ _ \<Rightarrow> True)"

lemma length_packet_bytes [simp, len_simps]:
  "length (packet_bytes (Data session seq payload)) = OVERHEAD + length payload"
  "length (packet_bytes (Ack session seq)) = OVERHEAD"
  by (simp_all add: packet_bytes_def sealed_def packet_fields_def OVERHEAD_def HEADER_LEN_def CRC_LEN_def)

lemma length_packet_frame: "length (packet_frame p) = length (cobs (packet_bytes p)) + 2"
  by (simp add: packet_frame_def)

lemma OVERHEAD_17: "OVERHEAD = 17"
  by (simp add: OVERHEAD_def HEADER_LEN_def CRC_LEN_def)

lemma ACK_FRAME_LEN_20: "ACK_FRAME_LEN = 20"
  by (simp add: ACK_FRAME_LEN_def OVERHEAD_17 max_encoding_length_def max_encoding_overhead_def
      div_ceil_def)

section \<open>Encoding\<close>

lemma header_eq:
  assumes "13 \<le> length decoded"
  shows "header decoded kind session seq =
    Some (kind # to_be_bytes session @ to_be_bytes seq @ drop 13 decoded)"
proof -
  obtain x xs where "decoded = x # xs" "12 \<le> length xs"
    using assms by (cases decoded) auto
  then show ?thesis by (simp add: header_def rust_defs HEADER_LEN_def)
qed

lemma seal_eq:
  assumes "n = length fs + 4" "length (cobs (sealed fs)) + 2 \<le> length frame" "4 \<le> length r"
  shows "seal (fs @ r) n frame =
    Some (length (cobs (sealed fs)) + 2, sealed fs @ drop 4 r,
      0 # cobs (sealed fs) @ 0 # drop (length (cobs (sealed fs)) + 2) frame)"
proof -
  have "slice 0 (length fs) (fs @ r) = Some fs"
    by (simp add: slice_def)
  moreover have "copy_from_slice (length fs) n (to_be_bytes (crc32 fs)) (fs @ r) =
      Some (sealed fs @ drop 4 r)"
    using assms copy_after_prefix [of fs "length fs" n "to_be_bytes (crc32 fs)" r]
    by (simp add: sealed_def)
  moreover have "slice 0 n (sealed fs @ drop 4 r) = Some (sealed fs)"
    using assms by (simp add: slice_def sealed_def)
  moreover have "sub_checked n CRC_LEN = Some (length fs)"
    using assms by (auto simp: sub_checked_def CRC_LEN_def)
  ultimately show ?thesis
    using assms(2) by (simp add: seal_def cobs_framing.encode_fits)
qed

lemma length_packet_fields:
  "length (packet_fields (Data session seq payload)) = 13 + length payload"
  "length (packet_fields (Ack session seq)) = 13"
  by (simp_all add: packet_fields_def)

lemma encode_data_eq:
  assumes "length (packet_frame (Data session seq payload)) \<le> length frame"
    and "OVERHEAD + length payload \<le> length scratch"
  shows "encode_data session seq payload scratch frame =
    Some (length (packet_frame (Data session seq payload)),
      packet_bytes (Data session seq payload) @ drop (OVERHEAD + length payload) scratch,
      packet_frame (Data session seq payload) @
        drop (length (packet_frame (Data session seq payload))) frame)"
proof -
  let ?f = "packet_fields (Data session seq payload)"
  let ?s = "KIND_DATA # to_be_bytes session @ to_be_bytes seq @ drop 13 scratch"
  have "header scratch KIND_DATA session seq = Some ?s"
    using assms(2) by (simp add: header_eq OVERHEAD_17)
  moreover have "copy_from_slice HEADER_LEN (HEADER_LEN + length payload) payload ?s =
      Some (?f @ drop (13 + length payload) scratch)"
    using assms(2)
      copy_after_prefix [of "KIND_DATA # to_be_bytes session @ to_be_bytes seq" HEADER_LEN
        "HEADER_LEN + length payload" payload "drop 13 scratch"]
    by (simp add: HEADER_LEN_def OVERHEAD_17 packet_fields_def add.commute)
  moreover have "seal (?f @ drop (13 + length payload) scratch) (OVERHEAD + length payload) frame =
      Some (length (cobs (sealed ?f)) + 2, sealed ?f @ drop (OVERHEAD + length payload) scratch,
        0 # cobs (sealed ?f) @ 0 # drop (length (cobs (sealed ?f)) + 2) frame)"
    using assms by (subst seal_eq)
      (auto simp: packet_frame_def packet_bytes_def OVERHEAD_17 length_packet_fields add_ac)
  ultimately show ?thesis
    by (simp add: encode_data_def packet_frame_def packet_bytes_def)
qed

lemma ack_frame_fits: "length (packet_frame (Ack session seq)) \<le> ACK_FRAME_LEN"
  using length_cobs [of "packet_bytes (Ack session seq)"]
  by (simp add: packet_frame_def ACK_FRAME_LEN_def)

lemma encode_ack_eq:
  assumes "length (packet_frame (Ack session seq)) \<le> length frame"
  shows "encode_ack session seq frame =
    Some (length (packet_frame (Ack session seq)),
      packet_frame (Ack session seq) @ drop (length (packet_frame (Ack session seq))) frame)"
proof -
  let ?f = "packet_fields (Ack session seq)"
  have "header (replicate OVERHEAD 0) KIND_ACK session seq = Some (?f @ replicate 4 0)"
    by (simp add: header_eq OVERHEAD_17 packet_fields_def)
  moreover have "seal (?f @ replicate 4 0) OVERHEAD frame =
      Some (length (cobs (sealed ?f)) + 2, sealed ?f,
        0 # cobs (sealed ?f) @ 0 # drop (length (cobs (sealed ?f)) + 2) frame)"
    using assms by (subst seal_eq)
      (auto simp: packet_frame_def packet_bytes_def OVERHEAD_17 length_packet_fields)
  ultimately show ?thesis
    by (simp add: encode_ack_def packet_frame_def packet_bytes_def)
qed

section \<open>Parsing\<close>

lemma packet_split:
  assumes "OVERHEAD \<le> length d"
  obtains k s q payload c where "d = k # s @ q @ payload @ c"
    "length s = 8" "length q = 4" "length c = 4"
proof -
  from assms obtain k r where d: "d = k # r" "16 \<le> length r"
    by (cases d) (auto simp: OVERHEAD_17)
  from d(2) have "8 \<le> length r" by simp
  then obtain s r1 where r: "r = s @ r1" "length s = 8" by (rule take_prefix)
  from d(2) r have "4 \<le> length r1" by simp
  then obtain q r2 where r1: "r1 = q @ r2" "length q = 4" by (rule take_prefix)
  have "length r2 - 4 \<le> length r2" by simp
  then obtain payload c where r2: "r2 = payload @ c" "length payload = length r2 - 4"
    by (rule take_prefix)
  from d(2) r r1 have "4 \<le> length r2" by simp
  with r2 have "length c = 4" by simp
  moreover have "d = k # s @ q @ payload @ c" using d(1) r(1) r1(1) r2(1) by simp
  ultimately show thesis using r(2) r1(2) by (intro that)
qed

lemma parse_fields:
  assumes "length s = 8" "length q = 4" "length c = 4"
  shows "parse (k # s @ q @ payload @ c) = Some
    (if crc32 (k # s @ q @ payload) \<noteq> from_be_bytes c then None
     else if k = KIND_DATA \<and> payload \<noteq> [] then Some (Data (from_be_bytes s) (from_be_bytes q) payload)
     else if k = KIND_ACK \<and> payload = [] then Some (Ack (from_be_bytes s) (from_be_bytes q))
     else None)"
proof -
  let ?body = "k # s @ q @ payload"
  have n: "sub_checked (length (k # s @ q @ payload @ c)) CRC_LEN = Some (length ?body)"
    using assms by (simp add: sub_checked_def CRC_LEN_def)
  have split: "split_at (length ?body) (k # s @ q @ payload @ c) = Some (?body, c)"
    using split_at_append [of ?body "length ?body" c] by simp
  have s: "slice 1 9 ?body = Some s"
    using assms slice_append [of "[k]" 1 9 s "q @ payload"] by simp
  have q: "slice 9 HEADER_LEN ?body = Some q"
    using assms slice_append [of "k # s" 9 HEADER_LEN q payload] by (simp add: HEADER_LEN_def)
  have p: "slice HEADER_LEN (length ?body) ?body = Some payload"
    using assms slice_append [of "k # s @ q" HEADER_LEN "length ?body" payload "[]"]
    by (simp add: HEADER_LEN_def)
  have k: "index ?body 0 = Some k" by (simp add: index_def)
  have l: "\<not> length (k # s @ q @ payload @ c) < OVERHEAD"
    using assms by (simp add: OVERHEAD_17)
  show ?thesis
    unfolding parse_def if_not_P [OF l] n Option.bind.bind_lunit split prod.case try_into_array_def
      s q p k
    using assms by (simp add: Let_def)
qed

lemma parse_short: "length d < OVERHEAD \<Longrightarrow> parse d = Some None"
  by (simp add: parse_def)

lemma parse_total: "\<exists>r. parse d = Some r"
  by (cases "length d < OVERHEAD")
    (auto simp: parse_short not_less parse_fields elim!: packet_split)

lemma parse_packet_bytes: "valid_packet p \<Longrightarrow> parse (packet_bytes p) = Some (Some p)"
  by (cases p) (auto simp: packet_bytes_def sealed_def packet_fields_def parse_fields valid_packet_def
      parse_fields [where payload = "[]", simplified] KIND_ACK_def KIND_DATA_def)

lemma parse_sound: "parse d = Some (Some p) \<Longrightarrow> valid_packet p \<and> d = packet_bytes p"
proof -
  assume parse: "parse d = Some (Some p)"
  then have "OVERHEAD \<le> length d" by (metis leI option.distinct(1) option.inject parse_short)
  then obtain k s q payload c where d: "d = k # s @ q @ payload @ c"
    and l: "length s = 8" "length q = 4" "length c = 4"
    by (rule packet_split)
  have "to_be_bytes (from_be_bytes s :: u64) = s" "to_be_bytes (from_be_bytes q :: u32) = q"
    "to_be_bytes (from_be_bytes c :: u32) = c"
    using l by (simp_all add: to_from_be_bytes)
  with parse show ?thesis
    unfolding d parse_fields [OF l]
    by (auto simp: valid_packet_def packet_bytes_def sealed_def packet_fields_def split: if_splits)
qed

lemma parse_iff: "parse d = Some (Some p) \<longleftrightarrow> valid_packet p \<and> d = packet_bytes p"
  using parse_sound parse_packet_bytes by blast

lemma packet_bytes_inject:
  "valid_packet p \<Longrightarrow> valid_packet p' \<Longrightarrow> packet_bytes p = packet_bytes p' \<Longrightarrow> p = p'"
  by (metis option.inject parse_packet_bytes)

section \<open>The largest payload\<close>

lemma max_payload_loop_correct:
  assumes "r = max_payload_loop body len"
  shows "r \<le> len" "OVERHEAD < r \<Longrightarrow> max_encoding_length r \<le> body"
    "r < m \<Longrightarrow> m \<le> len \<Longrightarrow> body < max_encoding_length m"
proof -
  have "max_payload_loop body len \<le> len \<and>
    (OVERHEAD < max_payload_loop body len \<longrightarrow> max_encoding_length (max_payload_loop body len) \<le> body) \<and>
    (\<forall>m. max_payload_loop body len < m \<and> m \<le> len \<longrightarrow> body < max_encoding_length m)"
  proof (induction body len rule: max_payload_loop.induct)
    case (1 body len)
    show ?case
    proof (cases "OVERHEAD < len \<and> body < max_encoding_length len")
      case True
      with 1 have IH: "max_payload_loop body (len - 1) \<le> len - 1 \<and>
        (OVERHEAD < max_payload_loop body (len - 1) \<longrightarrow>
           max_encoding_length (max_payload_loop body (len - 1)) \<le> body) \<and>
        (\<forall>m. max_payload_loop body (len - 1) < m \<and> m \<le> len - 1 \<longrightarrow> body < max_encoding_length m)"
        by blast
      have "max_payload_loop body len = max_payload_loop body (len - 1)"
        using True by (subst max_payload_loop.simps) simp
      moreover have "body < max_encoding_length m"
        if "max_payload_loop body (len - 1) < m" "m \<le> len" for m
        using IH True that by (cases "m = len") auto
      ultimately show ?thesis using IH by auto
    next
      case False
      then have "max_payload_loop body len = len" by (subst max_payload_loop.simps) auto
      with False show ?thesis by auto
    qed
  qed
  then show "r \<le> len" "OVERHEAD < r \<Longrightarrow> max_encoding_length r \<le> body"
    "r < m \<Longrightarrow> m \<le> len \<Longrightarrow> body < max_encoding_length m"
    using assms by auto
qed

lemma max_payload_iff:
  assumes "0 < n"
  shows "n \<le> max_payload capacity \<longleftrightarrow> max_encoding_length (OVERHEAD + n) + 2 \<le> capacity"
proof (cases "2 \<le> capacity")
  case True
  let ?b = "capacity - 2"
  define r where "r = max_payload_loop ?b ?b"
  have mp: "max_payload capacity = r - OVERHEAD"
    using True by (simp add: max_payload_def checked_sub_def r_def)
  show ?thesis
  proof
    assume "n \<le> max_payload capacity"
    with mp assms have r: "OVERHEAD + n \<le> r" "OVERHEAD < r" by auto
    with max_payload_loop_correct(2) [OF r_def] max_encoding_length_mono [OF r(1)] True
    show "max_encoding_length (OVERHEAD + n) + 2 \<le> capacity" by linarith
  next
    assume fits: "max_encoding_length (OVERHEAD + n) + 2 \<le> capacity"
    then have "OVERHEAD + n \<le> ?b" using max_encoding_length_Suc [of "OVERHEAD + n"] by linarith
    then have "\<not> r < OVERHEAD + n"
      using max_payload_loop_correct(3) [OF r_def, of "OVERHEAD + n"] fits by linarith
    with mp show "n \<le> max_payload capacity" by linarith
  qed
next
  case False
  with assms show ?thesis by (simp add: max_payload_def checked_sub_def)
qed

lemma packet_frame_data_fits:
  assumes "0 < length payload" "length payload \<le> max_payload capacity"
  shows "length (packet_frame (Data session seq payload)) \<le> capacity"
    and "OVERHEAD + length payload \<le> capacity"
proof -
  from assms have fits: "max_encoding_length (OVERHEAD + length payload) + 2 \<le> capacity"
    using max_payload_iff by blast
  with length_cobs [of "packet_bytes (Data session seq payload)"]
  show "length (packet_frame (Data session seq payload)) \<le> capacity"
    by (simp add: length_packet_frame)
  from fits max_encoding_length_Suc [of "OVERHEAD + length payload"]
  show "OVERHEAD + length payload \<le> capacity" by linarith
qed

end
