(* ===== verification/Protocol_Properties.thy ===== *)
theory Protocol_Properties
  imports Protocol
begin

text \<open>
  The properties of the packets of \<open>src/protocol.rs\<close>: the checksum, the layout, parsing, and the
  largest payload of a frame buffer.
\<close>

section \<open>Lemmas\<close>

lemma seal_short:
  assumes "n = length fs + 4" "length frame < length (cobs (sealed fs)) + 2" "4 \<le> length r"
  shows "seal (fs @ r) n frame = None"
proof -
  have "slice 0 (length fs) (fs @ r) = Some fs"
    by (simp add: slice_def)
  moreover have "copy_from_slice (length fs) n (to_be_bytes (crc32 fs)) (fs @ r) =
      Some (sealed fs @ drop 4 r)"
    using assms copy_after_prefix [of fs "length fs" n "to_be_bytes (crc32 fs)" r]
    by (simp add: sealed_def)
  moreover have "slice 0 n (sealed fs @ drop 4 r) = Some (sealed fs)"
    using assms by (simp add: slice_def sealed_def)
  moreover have "sub_checked n CRC_LEN = Some (length fs)"
    using assms by (auto simp: sub_checked_def CRC_LEN_def)
  moreover obtain fr where "encode_from_slice_including_sentinels (sealed fs) frame = (Inl OutOfBounds, fr)"
    using assms(2) cobs_framing.encode_short by (metis prod.collapse)
  ultimately show ?thesis by (simp add: seal_def)
qed

lemma encode_data_short:
  assumes "length frame < length (packet_frame (Data session seq payload)) \<or>
    length scratch < OVERHEAD + length payload"
  shows "encode_data session seq payload scratch frame = None"
proof (cases "13 + length payload \<le> length scratch")
  case True
  let ?f = "packet_fields (Data session seq payload)"
  let ?s = "KIND_DATA # to_be_bytes session @ to_be_bytes seq @ drop 13 scratch"
  let ?r = "drop (13 + length payload) scratch"
  have "header scratch KIND_DATA session seq = Some ?s"
    using True by (simp add: header_eq)
  moreover have "copy_from_slice HEADER_LEN (HEADER_LEN + length payload) payload ?s = Some (?f @ ?r)"
    using True
      copy_after_prefix [of "KIND_DATA # to_be_bytes session @ to_be_bytes seq" HEADER_LEN
        "HEADER_LEN + length payload" payload "drop 13 scratch"]
    by (simp add: HEADER_LEN_def packet_fields_def add.commute)
  moreover have "seal (?f @ ?r) (OVERHEAD + length payload) frame = None"
  proof (cases "OVERHEAD + length payload \<le> length scratch")
    case fits: True
    with assms show ?thesis
      by (intro seal_short)
        (auto simp: OVERHEAD_17 length_packet_fields packet_frame_def packet_bytes_def)
  next
    case False
    then show ?thesis
      using True by (auto simp: seal_def copy_from_slice_def OVERHEAD_17 length_packet_fields
          sub_checked_def CRC_LEN_def)
  qed
  ultimately show ?thesis by (simp add: encode_data_def)
next
  case False
  then show ?thesis
    by (cases "13 \<le> length scratch")
      (auto simp: encode_data_def header_eq copy_from_slice_def HEADER_LEN_def header_def index_set_def
        split: option.splits elim!: bind_SomeE)
qed

lemma parse_wrong_checksum:
  assumes "length crc = 4" "crc \<noteq> to_be_bytes (crc32 fs)"
  shows "parse (fs @ crc) = Some None"
proof -
  have "parse (fs @ crc) \<noteq> Some (Some p)" for p
  proof
    assume "parse (fs @ crc) = Some (Some p)"
    then have "fs @ crc = packet_fields p @ to_be_bytes (crc32 (packet_fields p))"
      using parse_sound [of "fs @ crc" p] by (simp add: packet_bytes_def sealed_def)
    then have "fs = packet_fields p \<and> crc = to_be_bytes (crc32 (packet_fields p))"
      using assms(1) by (subst (asm) append_eq_append_conv) simp_all
    with assms(2) show False by simp
  qed
  then show ?thesis using parse_total [of "fs @ crc"] by (metis not_None_eq)
qed

lemma to_be_bytes_crc_inject:
  "to_be_bytes a = (to_be_bytes b) \<Longrightarrow> a = b" for a b :: u32
  by (drule arg_cong [of _ _ "from_be_bytes :: _ \<Rightarrow> u32"]) simp

lemma funpow_8: "(f ^^ 8) x = f (f (f (f (f (f (f (f x)))))))" for f :: "'a \<Rightarrow> 'a"
  by (simp add: eval_nat_numeral)

section \<open>The checksum\<close>

lemma crc_check_steps:
  "(crc_bit ^^ 8) (NOT 0 XOR ucast (0x31 :: u8)) = 0x7C231048"
  "(crc_bit ^^ 8) (0x7C231048 XOR ucast (0x32 :: u8)) = 0xB0ACBB32"
  "(crc_bit ^^ 8) (0xB0ACBB32 XOR ucast (0x33 :: u8)) = 0x77B79C2D"
  "(crc_bit ^^ 8) (0x77B79C2D XOR ucast (0x34 :: u8)) = 0x641C1F5C"
  "(crc_bit ^^ 8) (0x641C1F5C XOR ucast (0x35 :: u8)) = 0x340AC5E3"
  "(crc_bit ^^ 8) (0x340AC5E3 XOR ucast (0x36 :: u8)) = 0xF68D2C9E"
  "(crc_bit ^^ 8) (0xF68D2C9E XOR ucast (0x37 :: u8)) = 0xAFFC9660"
  "(crc_bit ^^ 8) (0xAFFC9660 XOR ucast (0x38 :: u8)) = 0x651F2550"
  "(crc_bit ^^ 8) (0x651F2550 XOR ucast (0x39 :: u8)) = 0x340BC6D9"
  by (simp_all add: crc_bit_def funpow_8)

text \<open>
  C31: The table-driven checksum is the bit-by-bit CRC-32/ISO-HDLC it stands for (reflected
  polynomial 0xEDB88320, initial value and final xor 0xFFFFFFFF), and has the check value of that
  algorithm.
\<close>

theorem crc32_bitwise:
  "crc32 data = NOT (fold (\<lambda>byte crc. (crc_bit ^^ 8) (crc XOR ucast byte)) data (NOT 0)) \<and>
   crc32 [0x31, 0x32, 0x33, 0x34, 0x35, 0x36, 0x37, 0x38, 0x39] = 0xCBF43926"
proof -
  have eq: "crc32_byte = (\<lambda>byte crc. (crc_bit ^^ 8) (crc XOR ucast byte))"
    by (simp add: fun_eq_iff crc32_byte_eq crc32_byte_bitwise_def)
  have "NOT (fold (\<lambda>byte crc. (crc_bit ^^ 8) (crc XOR ucast (byte :: u8)))
      [0x31, 0x32, 0x33, 0x34, 0x35, 0x36, 0x37, 0x38, 0x39] (NOT 0)) = (0xCBF43926 :: u32)"
    using crc_check_steps by simp
  then show ?thesis unfolding crc32_def eq by simp
qed

text \<open>
  Bytes that differ only within four consecutive positions never have the same checksum: every
  error burst of up to four bytes is detected.
\<close>

theorem crc32_detects_bursts:
  assumes "length xs = length ys" "length xs \<le> 4" "xs \<noteq> ys"
  shows "crc32 (pre @ xs @ post) \<noteq> crc32 (pre @ ys @ post)"
  using assms by (rule crc32_burst)

theorem crc32_detects_bursts_witness: "crc32 [1, 2, 3, 9] \<noteq> crc32 [1, 7, 4, 9]"
  using crc32_detects_bursts [of "[2, 3]" "[7, 4]" "[1]" "[9]"] by simp

section \<open>Parsing\<close>

text \<open>
  C25: \<open>parse\<close> never panics, and accepts exactly the layouts of packets: kind, session, sequence
  number and payload in big-endian order under their checksum, where a DATA packet has a payload.
\<close>

theorem parse_exact:
  "\<exists>r. parse d = Some r \<and> (\<forall>p. r = Some p \<longleftrightarrow> valid_packet p \<and> d = packet_bytes p)"
proof -
  obtain r where "parse d = Some r" using parse_total by blast
  then show ?thesis using parse_iff [of d] by auto
qed

text \<open>
  C26: A packet damaged in up to four consecutive bytes before its checksum, or anywhere in its
  checksum, is rejected.
\<close>

theorem corrupted_packet_rejected:
  assumes "packet_bytes p = pre @ xs @ post @ crc" "length crc = 4"
  shows "(length ys = length xs \<and> length xs \<le> 4 \<and> ys \<noteq> xs \<longrightarrow> parse (pre @ ys @ post @ crc) = Some None) \<and>
    (length crc' = 4 \<and> crc' \<noteq> crc \<longrightarrow> parse (pre @ xs @ post @ crc') = Some None)"
proof -
  have "packet_fields p @ to_be_bytes (crc32 (packet_fields p)) = (pre @ xs @ post) @ crc"
    using assms(1) by (simp add: packet_bytes_def sealed_def)
  then have fields: "packet_fields p = pre @ xs @ post"
    and sum: "to_be_bytes (crc32 (packet_fields p)) = crc"
    using assms(2) by (subst (asm) append_eq_append_conv; simp)+
  have crc: "to_be_bytes (crc32 (pre @ xs @ post)) = crc" using sum unfolding fields .
  then have "crc \<noteq> to_be_bytes (crc32 (pre @ ys @ post))"
    if "length ys = length xs" "length xs \<le> 4" "ys \<noteq> xs"
    using that crc32_burst [of xs ys pre post] by (auto dest: to_be_bytes_crc_inject)
  then show ?thesis
    using parse_wrong_checksum [OF assms(2), of "pre @ ys @ post"]
      parse_wrong_checksum [of crc' "pre @ xs @ post"] crc by auto
qed

lemma packet_split_example:
  "packet_bytes (Ack 0 5) =
     [2] @ [0] @ [0, 0, 0, 0, 0, 0, 0, 0, 0, 0, 5] @ to_be_bytes (crc32 (packet_fields (Ack 0 5)))"
proof -
  have "to_be_bytes (0 :: u64) = [0, 0, 0, 0, 0, 0, 0, 0]" "to_be_bytes (5 :: u32) = [0, 0, 0, 5]"
    by code_simp+
  then show ?thesis
    by (simp add: packet_bytes_def sealed_def packet_fields_def KIND_ACK_def)
qed

theorem corrupted_packet_rejected_witness:
  "parse ([2] @ [1] @ [0, 0, 0, 0, 0, 0, 0, 0, 0, 0, 5] @ to_be_bytes (crc32 (packet_fields (Ack 0 5)))) =
     Some None"
  by (rule corrupted_packet_rejected [OF packet_split_example, THEN conjunct1, THEN mp]) simp_all

section \<open>Frames\<close>

text \<open>
  C29: \<open>encode_data\<close> panics exactly when one of its buffers is too short; otherwise the frame buffer
  starts with the delimited encoding of the packet, of the length returned.
\<close>

theorem encode_data_exact:
  "encode_data session seq payload scratch frame =
    (let p = Data session seq payload; n = length (packet_frame p) in
     if n \<le> length frame \<and> OVERHEAD + length payload \<le> length scratch
     then Some (n, packet_bytes p @ drop (OVERHEAD + length payload) scratch,
                packet_frame p @ drop n frame)
     else None)"
  by (auto simp: Let_def encode_data_eq intro!: encode_data_short simp: not_le)

text \<open>
  C27: A DATA packet survives the way through the codec: the frame written by \<open>encode_data\<close>, decoded
  and parsed, gives the session, the sequence number and the payload back, whatever follows it.
\<close>

theorem data_round_trip:
  assumes "encode_data session seq payload scratch frame = Some (n, scratch', frame')"
    and "payload \<noteq> []" "OVERHEAD + length payload \<le> length buf"
  shows "\<exists>buf'. decode_to_slice (take n frame' @ rest) buf =
      (Inr \<lparr>frame_len = OVERHEAD + length payload, frame_consumed = n\<rparr>, buf') \<and>
    parse (take (OVERHEAD + length payload) buf') = Some (Some (Data session seq payload))"
proof -
  let ?p = "Data session seq payload"
  have "length (packet_frame ?p) \<le> length frame \<and> OVERHEAD + length payload \<le> length scratch"
    using assms(1) encode_data_short [of frame session seq payload scratch]
    by (cases "length (packet_frame ?p) \<le> length frame \<and> OVERHEAD + length payload \<le> length scratch") auto
  with assms(1) have "take n frame' = packet_frame ?p" "n = length (packet_frame ?p)"
    by (auto simp: encode_data_eq)
  then have "decode_to_slice (take n frame' @ rest) buf =
      (Inr \<lparr>frame_len = OVERHEAD + length payload, frame_consumed = n\<rparr>,
       packet_bytes ?p @ drop (OVERHEAD + length payload) buf)"
    using assms(3) cobs_framing.decode_body [of "packet_bytes ?p" buf 1 rest]
    by (simp add: packet_frame_def)
  moreover have "parse (packet_bytes ?p) = Some (Some ?p)"
    using assms(2) by (simp add: parse_packet_bytes valid_packet_def)
  ultimately show ?thesis by simp
qed

lemma encode_data_example:
  "\<exists>scratch' frame'. encode_data 7 3 [1, 2] (replicate 20 0) (replicate 24 0) =
     Some (length (packet_frame (Data 7 3 [1, 2])), scratch', frame')"
  using length_cobs [of "packet_bytes (Data 7 3 [1, 2])"]
  by (subst encode_data_eq) (simp_all add: length_packet_frame OVERHEAD_17 max_encoding_length_def
      max_encoding_overhead_def div_ceil_254)

theorem data_round_trip_witness:
  "\<exists>buf'. parse (take 19 buf') = Some (Some (Data 7 3 [1, 2]))"
proof -
  obtain scratch' frame' where "encode_data 7 3 [1, 2] (replicate 20 0) (replicate 24 0) =
      Some (length (packet_frame (Data 7 3 [1, 2])), scratch', frame')"
    using encode_data_example by blast
  from data_round_trip [OF this, of "replicate 20 0" "[]"] show ?thesis by (auto simp: OVERHEAD_17)
qed

text \<open>
  C28: An acknowledgment always fits the frame buffer of the connection, so \<open>encode_ack\<close> does not
  panic, and its frame decodes and parses to the acknowledgment, whatever follows it.
\<close>

theorem ack_round_trip:
  assumes "length frame = ACK_FRAME_LEN" "OVERHEAD \<le> length buf"
  shows "\<exists>n frame' buf'. encode_ack session seq frame = Some (n, frame') \<and>
    length frame' = ACK_FRAME_LEN \<and> n \<le> ACK_FRAME_LEN \<and>
    decode_to_slice (take n frame' @ rest) buf =
      (Inr \<lparr>frame_len = OVERHEAD, frame_consumed = n\<rparr>, buf') \<and>
    parse (take OVERHEAD buf') = Some (Some (Ack session seq))"
proof -
  let ?p = "Ack session seq"
  let ?n = "length (packet_frame ?p)"
  have fits: "?n \<le> length frame" using assms(1) ack_frame_fits by simp
  have "decode_to_slice (packet_frame ?p @ rest) buf =
      (Inr \<lparr>frame_len = OVERHEAD, frame_consumed = ?n\<rparr>, packet_bytes ?p @ drop OVERHEAD buf)"
    using assms(2) cobs_framing.decode_body [of "packet_bytes ?p" buf 1 rest]
    by (simp add: packet_frame_def)
  moreover have "parse (packet_bytes ?p) = Some (Some ?p)"
    by (simp add: parse_packet_bytes valid_packet_def)
  ultimately show ?thesis
    using fits assms(1) encode_ack_eq [OF fits] by (intro exI conjI) (assumption | simp)+
qed

theorem ack_round_trip_witness:
  "\<exists>n frame'. encode_ack 7 3 (replicate 20 0) = Some (n, frame') \<and> n \<le> 20"
  using ack_round_trip [of "replicate 20 0" "replicate 17 0" 7 3 "[]"]
  by (auto simp: ACK_FRAME_LEN_20 OVERHEAD_17)

text \<open>
  C30: \<open>max_payload\<close> is the largest payload whose frame is sure to fit: exactly the non-empty
  payloads up to it have room for the worst-case encoding, and for these \<open>encode_data\<close> does not
  panic on buffers of that capacity. It is zero exactly for capacities below 21, and 236 for 256.
\<close>

theorem max_payload_largest:
  "(\<forall>n > 0. n \<le> max_payload capacity \<longleftrightarrow> max_encoding_length (OVERHEAD + n) + 2 \<le> capacity) \<and>
   (\<forall>session seq payload scratch frame.
      payload \<noteq> [] \<and> length payload \<le> max_payload capacity \<and>
      length scratch = capacity \<and> length frame = capacity \<longrightarrow>
      encode_data session seq payload scratch frame \<noteq> None) \<and>
   (max_payload capacity = 0 \<longleftrightarrow> capacity < 21) \<and> max_payload 256 = 236"
proof (intro conjI allI impI)
  fix session seq and payload scratch frame :: "u8 list"
  assume a: "payload \<noteq> [] \<and> length payload \<le> max_payload capacity \<and>
      length scratch = capacity \<and> length frame = capacity"
  then show "encode_data session seq payload scratch frame \<noteq> None"
    using packet_frame_data_fits [of payload capacity] by (simp add: encode_data_eq)
next
  have "0 < max_payload capacity \<longleftrightarrow> 21 \<le> capacity"
    using max_payload_iff [of 1 capacity]
    by (simp add: OVERHEAD_17 max_encoding_length_def max_encoding_overhead_def div_ceil_254 Suc_le_eq)
  then show "max_payload capacity = 0 \<longleftrightarrow> capacity < 21" by linarith
next
  have "n \<le> max_payload 256 \<longleftrightarrow> n \<le> 236" if "0 < n" for n
  proof -
    have "max_encoding_length (17 + n) + 2 \<le> 256 \<longleftrightarrow> n \<le> 236"
      using that by (simp add: max_encoding_length_def max_encoding_overhead_def div_ceil_254) linarith
    then show ?thesis using max_payload_iff [OF that, of 256] by (simp add: OVERHEAD_17)
  qed
  from this [of 236] this [of 237] this [of "max_payload 256"] show "max_payload 256 = 236"
    by linarith
qed (use max_payload_iff in auto)

theorem max_payload_largest_witness:
  "encode_data 1 2 [3] (replicate 21 0) (replicate 21 0) \<noteq> None"
proof -
  have "1 \<le> max_payload 21"
    by (simp add: max_payload_iff OVERHEAD_17 max_encoding_length_def max_encoding_overhead_def div_ceil_254)
  then show ?thesis using max_payload_largest [of 21] by simp
qed

end
