(* ===== verification/Transport.thy ===== *)
theory Transport
  imports Prelude
begin

text \<open>
  The interfaces of \<open>src/transport.rs\<close> and \<open>src/timer.rs\<close>. A trait is the record of its methods
  on an explicit state; a method that can panic gives an option. The laws the connection relies
  on are locales.
\<close>

section \<open>Wakers and polls\<close>

text \<open>
  A waker is the data pointer and the vtable of its \<open>RawWaker\<close>; \<open>will_wake\<close> compares the two, as
  the standard library does. \<open>clone\<close> gives an equal waker. The effect of waking is recorded by
  the caller in a trace.
\<close>

datatype waker = Waker (waker_data: nat) (waker_vtable: nat)

definition will_wake :: "waker \<Rightarrow> waker \<Rightarrow> bool" where
  "will_wake a b \<longleftrightarrow> waker_data a = waker_data b \<and> waker_vtable a = waker_vtable b"

lemma will_wake_eq: "will_wake a b \<longleftrightarrow> a = b"
  by (cases a; cases b) (simp add: will_wake_def)

datatype 'a poll = Pending | Ready 'a

definition is_ready :: "'a poll \<Rightarrow> bool" where
  "is_ready p \<longleftrightarrow> (case p of Pending \<Rightarrow> False | Ready _ \<Rightarrow> True)"

definition is_pending :: "'a poll \<Rightarrow> bool" where
  "is_pending p \<longleftrightarrow> \<not> is_ready p"

lemma is_ready_simps [simp]: "\<not> is_ready Pending" "is_ready (Ready x)"
  by (simp_all add: is_ready_def)

lemma is_pending_simps [simp]: "is_pending Pending" "\<not> is_pending (Ready x)"
  by (simp_all add: is_pending_def)

section \<open>The traits\<close>

text \<open>
  \<open>Transport\<close>: a read takes the buffer and returns it as the method leaves it, next to the result.
\<close>

record ('t, 'e) transport_ops =
  t_poll_read :: "waker \<Rightarrow> u8 list \<Rightarrow> 't \<Rightarrow> (('e + nat) poll \<times> u8 list \<times> 't) option"
  t_poll_write :: "waker \<Rightarrow> u8 list \<Rightarrow> 't \<Rightarrow> (('e + nat) poll \<times> 't) option"
  t_poll_flush :: "waker \<Rightarrow> 't \<Rightarrow> (('e + unit) poll \<times> 't) option"

text \<open>
  \<open>Timer\<close>: the clock may advance at every call, so \<open>now\<close> returns the new state of the clock too.
\<close>

record 'c timer_ops =
  c_now :: "'c \<Rightarrow> u64 \<times> 'c"
  c_poll_deadline :: "waker \<Rightarrow> u64 \<Rightarrow> 'c \<Rightarrow> unit poll \<times> 'c"

section \<open>What a transport guarantees\<close>

text \<open>
  What a connection needs of its link: on the states of an invariant no method panics, the invariant
  is kept, and a read leaves the buffer at its length (a slice cannot change its length in Rust).
  A write of an empty buffer is left open: no caller makes one.
\<close>

locale transport_total =
  fixes T :: "('t, 'e) transport_ops"
    and tinv :: "'t \<Rightarrow> bool"
  assumes read_total: "tinv t \<Longrightarrow> t_poll_read T cx buf t \<noteq> None"
    and read_keeps: "tinv t \<Longrightarrow> t_poll_read T cx buf t = Some (r, buf', t') \<Longrightarrow>
      tinv t' \<and> length buf' = length buf"
    and write_total: "tinv t \<Longrightarrow> buf \<noteq> [] \<Longrightarrow> t_poll_write T cx buf t \<noteq> None"
    and write_keeps: "tinv t \<Longrightarrow> buf \<noteq> [] \<Longrightarrow> t_poll_write T cx buf t = Some (r, t') \<Longrightarrow> tinv t'"
    and flush_total: "tinv t \<Longrightarrow> t_poll_flush T cx t \<noteq> None"
    and flush_keeps: "tinv t \<Longrightarrow> t_poll_flush T cx t = Some (f, t') \<Longrightarrow> tinv t'"

text \<open>
  The contract of the trait, as its documentation states it: a count does not exceed the buffer; a
  read of a nonempty buffer that gives no bytes means the end of the stream; a flush that completes
  leaves nothing buffered; and a method that is pending has arranged for the waker it was given to be
  woken. When a stream has ended, what is buffered and how a waker is kept are the implementation's.
\<close>

datatype call = ReadCall | WriteCall | FlushCall

locale transport_laws = transport_total T tinv
  for T :: "('t, 'e) transport_ops" and tinv :: "'t \<Rightarrow> bool" +
  fixes ended :: "'t \<Rightarrow> bool"
    and drained :: "'t \<Rightarrow> bool"
    and arranged :: "call \<Rightarrow> waker \<Rightarrow> 't \<Rightarrow> 't \<Rightarrow> bool"
  assumes read_count: "tinv t \<Longrightarrow> t_poll_read T cx buf t = Some (Ready (Inr n), buf', t') \<Longrightarrow>
      n \<le> length buf"
    and read_end: "tinv t \<Longrightarrow> buf \<noteq> [] \<Longrightarrow> t_poll_read T cx buf t = Some (Ready (Inr 0), buf', t') \<Longrightarrow>
      ended t'"
    and read_pending: "tinv t \<Longrightarrow> buf \<noteq> [] \<Longrightarrow> t_poll_read T cx buf t = Some (Pending, buf', t') \<Longrightarrow>
      arranged ReadCall cx t t'"
    and write_count: "tinv t \<Longrightarrow> buf \<noteq> [] \<Longrightarrow> t_poll_write T cx buf t = Some (Ready (Inr n), t') \<Longrightarrow>
      n \<le> length buf"
    and write_pending: "tinv t \<Longrightarrow> buf \<noteq> [] \<Longrightarrow> t_poll_write T cx buf t = Some (Pending, t') \<Longrightarrow>
      arranged WriteCall cx t t'"
    and flush_pending: "tinv t \<Longrightarrow> t_poll_flush T cx t = Some (Pending, t') \<Longrightarrow> arranged FlushCall cx t t'"
    and flush_done: "tinv t \<Longrightarrow> t_poll_flush T cx t = Some (Ready (Inr u), t') \<Longrightarrow> drained t'"

end
