(* ===== verification/Connection_State.thy ===== *)
theory Connection_State
  imports Protocol Transport
begin

text \<open>
  The state of the connection of \<open>src/connection.rs\<close>: its configuration, the transmit, output and
  receive state of \<open>Reliable\<close>, the stored waiters, and the operations on them that cannot panic.
  The wakeups the code issues are recorded, in order, in the field \<open>woken\<close>, which no operation
  reads.
\<close>

definition STEP_BUDGET :: nat where "STEP_BUDGET = 16"

record config =
  session :: u64
  retransmit_timeout :: u64
  max_retries :: u32

definition new_config :: "u64 \<Rightarrow> config" where
  "new_config s = \<lparr>session = s, retransmit_timeout = 1000, max_retries = 8\<rparr>"

datatype tx = TxIdle | TxQueued | TxSending | TxWaiting

datatype frame = AckFrame | DataFrame

datatype out = OutIdle | Writing frame nat | Flushing frame

datatype work = Blocked | Progress | Yield

text \<open>The derived order of \<open>Work\<close>: that of the variants\<close>

fun work_rank :: "work \<Rightarrow> nat" where
  "work_rank Blocked = 0"
| "work_rank Progress = 1"
| "work_rank Yield = 2"

lemma work_rank_inject: "work_rank a = work_rank b \<Longrightarrow> a = b"
  by (cases a; cases b) auto

instantiation work :: linorder
begin

definition less_eq_work :: "work \<Rightarrow> work \<Rightarrow> bool" where
  "less_eq_work a b \<longleftrightarrow> work_rank a \<le> work_rank b"

definition less_work :: "work \<Rightarrow> work \<Rightarrow> bool" where
  "less_work a b \<longleftrightarrow> work_rank a < work_rank b"

instance
  by standard (auto simp: less_eq_work_def less_work_def dest: work_rank_inject)

end

text \<open>\<open>Budget\<close> is the number of units left.\<close>

definition new_budget :: nat where "new_budget = STEP_BUDGET"

definition spend :: "nat \<Rightarrow> bool \<times> nat" where
  "spend budget =
     (case checked_sub budget 1 of Some left \<Rightarrow> (True, left) | None \<Rightarrow> (False, budget))"

datatype pending_operation = PendingRead | PendingWrite | PendingFlush | PendingProgress

datatype op = OpRead | OpWrite | OpFlush | OpProgress

definition OPS :: "op list" where "OPS = [OpRead, OpWrite, OpFlush, OpProgress]"

text \<open>The array of four slots, indexed by the operation\<close>

type_synonym waiters = "op \<Rightarrow> waker option"

definition no_waiters :: waiters where "no_waiters = (\<lambda>_. None)"

datatype 'e health = HealthOk | HealthFailed "'e connection_error" | HealthReported

text \<open>The type parameters of \<open>Reliable\<close>: the two traits and the capacity \<open>N\<close>\<close>

record ('t, 'c, 'e) params =
  link :: "('t, 'e) transport_ops"
  clock :: "'c timer_ops"
  capacity :: nat

record ('t, 'c, 'e) reliable =
  transport :: 't
  timer :: 'c
  config :: config
  health :: "'e health"
  tx :: tx
  tx_frame :: "u8 list"
  tx_len :: nat
  tx_next :: u64
  tx_deadline :: u64
  tx_retries :: u32
  final_input :: "nat option"
  out :: out
  ack_pending :: "u32 option"
  ack_frame :: "u8 list"
  ack_len :: nat
  rx_buf :: "u8 list"
  rx_len :: nat
  rx_discarding :: bool
  rx_payload :: "u8 list"
  rx_start :: nat
  rx_end :: nat
  rx_next :: u64
  scratch :: "u8 list"
  waiters :: waiters
  woken :: "waker list"

section \<open>Waiters\<close>

definition register :: "op \<Rightarrow> waker \<Rightarrow> waiters \<Rightarrow> waiters" where
  "register op waker w =
     (case w op of
        Some held \<Rightarrow> if will_wake held waker then w else w(op := Some waker)
      | None \<Rightarrow> w(op := Some waker))"

definition clear_waiter :: "op \<Rightarrow> waiters \<Rightarrow> waiters" where
  "clear_waiter op w = w(op := None)"

definition wake :: "op \<Rightarrow> ('t, 'c, 'e) reliable \<Rightarrow> ('t, 'c, 'e) reliable" where
  "wake op s =
     (case waiters s op of
        Some waker \<Rightarrow> s\<lparr>waiters := (waiters s)(op := None), woken := woken s @ [waker]\<rparr>
      | None \<Rightarrow> s)"

section \<open>Construction\<close>

definition MAX_PAYLOAD :: "('t, 'c, 'e) params \<Rightarrow> nat" where
  "MAX_PAYLOAD P = max_payload (capacity P)"

definition FINAL_INPUT :: "('t, 'c, 'e) params \<Rightarrow> nat" where
  "FINAL_INPUT P = capacity P + ACK_FRAME_LEN"

definition new_reliable ::
  "('t, 'c, 'e) params \<Rightarrow> 't \<Rightarrow> 'c \<Rightarrow> config \<Rightarrow> config_error + ('t, 'c, 'e) reliable" where
  "new_reliable P t c cfg =
     (if MAX_PAYLOAD P = 0 then Inl BufferTooSmall
      else Inr \<lparr>
        transport = t,
        timer = c,
        config = cfg,
        health = HealthOk,
        tx = TxIdle,
        tx_frame = replicate (capacity P) 0,
        tx_len = 0,
        tx_next = 0,
        tx_deadline = 0,
        tx_retries = 0,
        final_input = None,
        out = OutIdle,
        ack_pending = None,
        ack_frame = replicate ACK_FRAME_LEN 0,
        ack_len = 0,
        rx_buf = replicate (capacity P) 0,
        rx_len = 0,
        rx_discarding = False,
        rx_payload = replicate (capacity P) 0,
        rx_start = 0,
        rx_end = 0,
        rx_next = 0,
        scratch = replicate (capacity P) 0,
        waiters = no_waiters,
        woken = []\<rparr>)"

definition into_parts :: "('t, 'c, 'e) reliable \<Rightarrow> 't \<times> 'c" where
  "into_parts s = (transport s, timer s)"

definition set_sequences ::
  "u64 \<Rightarrow> u64 \<Rightarrow> ('t, 'c, 'e) reliable \<Rightarrow> ('t, 'c, 'e) reliable" where
  "set_sequences next_tx next_rx s = s\<lparr>tx_next := next_tx, rx_next := next_rx\<rparr>"

section \<open>Failure\<close>

definition fail :: "'e connection_error \<Rightarrow> ('t, 'c, 'e) reliable \<Rightarrow> ('t, 'c, 'e) reliable" where
  "fail error s =
     (let s = s\<lparr>final_input := None\<rparr> in
      case health s of HealthOk \<Rightarrow> s\<lparr>health := HealthFailed error\<rparr> | _ \<Rightarrow> s)"

definition failure ::
  "('t, 'c, 'e) reliable \<Rightarrow> 'e connection_error option \<times> ('t, 'c, 'e) reliable" where
  "failure s =
     (case health s of
        HealthOk \<Rightarrow> (None, s)
      | HealthFailed error \<Rightarrow> (Some error, s\<lparr>health := HealthReported\<rparr>)
      | HealthReported \<Rightarrow> (Some Failed, s\<lparr>health := HealthReported\<rparr>))"

definition is_healthy :: "('t, 'c, 'e) reliable \<Rightarrow> bool" where
  "is_healthy s \<longleftrightarrow> (case health s of HealthOk \<Rightarrow> True | _ \<Rightarrow> False)"

section \<open>Conditions\<close>

definition data_out_busy :: "('t, 'c, 'e) reliable \<Rightarrow> bool" where
  "data_out_busy s \<longleftrightarrow>
     (case out s of
        Writing DataFrame _ \<Rightarrow> True
      | Flushing DataFrame \<Rightarrow> True
      | _ \<Rightarrow> False)"

definition write_ready :: "('t, 'c, 'e) reliable \<Rightarrow> bool" where
  "write_ready s \<longleftrightarrow> tx s = TxIdle \<and> \<not> data_out_busy s"

definition flush_ready :: "('t, 'c, 'e) reliable \<Rightarrow> bool" where
  "flush_ready s \<longleftrightarrow> tx s = TxIdle \<and> out s = OutIdle \<and> ack_pending s = None"

end
