(* ===== verification/Connection.thy ===== *)
theory Connection
  imports Connection_State
begin

text \<open>
  The engine of \<open>src/connection.rs\<close>: one step of the connection (output, input, timer), the loop
  \<open>drive\<close>, the processing of received frames, and the operations of the application. A panic
  anywhere is \<^term>\<open>None\<close>; the errors the code returns are values of a sum. The functions follow
  the source, branch by branch.
\<close>

section \<open>Received frames\<close>

text \<open>
  \<open>process_frame\<close> for the frame in \<open>rx_buf[..=end]\<close>; the capacity \<open>N\<close> and the largest payload are
  those of the type parameters.
\<close>

definition process_packet ::
  "('t, 'c, 'e) params \<Rightarrow> packet \<Rightarrow> ('t, 'c, 'e) reliable \<Rightarrow> ('t, 'c, 'e) reliable option" where
  "process_packet P p s =
     (case p of
        Ack sess seq \<Rightarrow>
          if sess = session (config s) \<and> tx s \<noteq> TxIdle then do {
            next \<leftarrow> add_checked (ucast seq) 1;
            Some (if next = tx_next s
                  then s\<lparr>tx := TxIdle, tx_retries := 0, final_input := None\<rparr> else s)
          } else Some s
      | Data sess seq payload \<Rightarrow>
          if sess \<noteq> session (config s) \<or> MAX_PAYLOAD P < length payload then Some s
          else if ucast seq = rx_next s then
            if rx_start s = rx_end s then do {
              buf \<leftarrow> copy_from_slice 0 (length payload) payload (rx_payload s);
              next \<leftarrow> add_checked (rx_next s) 1;
              Some (s\<lparr>rx_payload := buf, rx_start := 0, rx_end := length payload,
                      rx_next := next, ack_pending := Some seq\<rparr>)
            } else Some s
          else if 0 < rx_next s \<and> ucast seq = rx_next s - 1 \<and> ack_pending s = None
          then Some (s\<lparr>ack_pending := Some seq\<rparr>)
          else Some s)"

definition process_frame ::
  "('t, 'c, 'e) params \<Rightarrow> nat \<Rightarrow> ('t, 'c, 'e) reliable \<Rightarrow> ('t, 'c, 'e) reliable option" where
  "process_frame P stop s = do {
     source \<leftarrow> slice 0 (stop + 1) (rx_buf s);
     case decode_to_slice source (scratch s) of
       (Inl _, buf) \<Rightarrow> Some (s\<lparr>scratch := buf\<rparr>)
     | (Inr decoded, buf) \<Rightarrow> do {
         bytes \<leftarrow> slice 0 (frame_len decoded) buf;
         packet \<leftarrow> parse bytes;
         case packet of
           Some p \<Rightarrow> process_packet P p (s\<lparr>scratch := buf\<rparr>)
         | None \<Rightarrow> Some (s\<lparr>scratch := buf\<rparr>)
       }
   }"

text \<open>The frame that ends at the first zero of the buffer, in an iteration of \<open>process_input\<close>\<close>

definition handle_frame ::
  "('t, 'c, 'e) params \<Rightarrow> nat \<Rightarrow> ('t, 'c, 'e) reliable \<Rightarrow> ('t, 'c, 'e) reliable option" where
  "handle_frame P stop s =
     (if rx_discarding s then Some (s\<lparr>rx_discarding := False\<rparr>)
      else if 0 < stop then process_frame P stop s
      else Some s)"

text \<open>No frame changes the number of bytes received, so each iteration removes at least one.\<close>

lemma process_packet_rx_len: "process_packet P p s = Some s' \<Longrightarrow> rx_len s' = rx_len s"
  by (auto simp: process_packet_def elim!: bind_SomeE split: packet.splits if_splits)

lemma process_frame_rx_len: "process_frame P stop s = Some s' \<Longrightarrow> rx_len s' = rx_len s"
  by (auto simp: process_frame_def elim!: bind_SomeE dest!: process_packet_rx_len
      split: prod.splits sum.splits option.splits)

lemma handle_frame_rx_len: "handle_frame P stop s = Some s' \<Longrightarrow> rx_len s' = rx_len s"
  by (auto simp: handle_frame_def dest: process_frame_rx_len split: if_splits)

function process_input ::
  "('t, 'c, 'e) params \<Rightarrow> ('t, 'c, 'e) reliable \<Rightarrow> ('t, 'c, 'e) reliable option" where
  "process_input P s = do {
     received \<leftarrow> slice 0 (rx_len s) (rx_buf s);
     case position (\<lambda>byte. byte = 0) received of
       None \<Rightarrow>
         Some (if rx_discarding s \<or> rx_len s = capacity P
               then s\<lparr>rx_discarding := True, rx_len := 0\<rparr> else s)
     | Some stop \<Rightarrow> do {
         s' \<leftarrow> handle_frame P stop s;
         buf \<leftarrow> copy_within (stop + 1) (rx_len s') 0 (rx_buf s');
         n \<leftarrow> sub_checked (rx_len s') (stop + 1);
         process_input P (s'\<lparr>rx_buf := buf, rx_len := n\<rparr>)
       }
   }"
  by pat_completeness auto
termination
  by (relation "measure (\<lambda>(P, s). rx_len s)")
    (auto simp: sub_checked_def slice_def split: if_splits
      dest: position_Some handle_frame_rx_len)

declare process_input.simps [simp del]

section \<open>One step\<close>

text \<open>
  The first part of \<open>poll_output\<close>: with no frame on the way, an acknowledgment goes first, then a
  queued packet; the flag is false when there is nothing to send.
\<close>

definition select_frame ::
  "('t, 'c, 'e) reliable \<Rightarrow> (bool \<times> ('t, 'c, 'e) reliable) option" where
  "select_frame s =
     (if out s = OutIdle then
        case ack_pending s of
          Some seq \<Rightarrow> do {
            (n, frame) \<leftarrow> encode_ack (session (config s)) seq (ack_frame s);
            Some (True, s\<lparr>ack_pending := None, ack_len := n, ack_frame := frame,
                          out := Writing AckFrame 0\<rparr>)
          }
        | None \<Rightarrow>
            if tx s = TxQueued
            then Some (True, s\<lparr>tx := TxSending, out := Writing DataFrame 0\<rparr>)
            else Some (False, s)
      else Some (True, s))"

definition poll_writing ::
  "('t, 'c, 'e) params \<Rightarrow> waker \<Rightarrow> frame \<Rightarrow> nat \<Rightarrow> ('t, 'c, 'e) reliable \<Rightarrow>
     (('e connection_error + work) \<times> ('t, 'c, 'e) reliable) option" where
  "poll_writing P cx fr offset s = do {
     let n = (case fr of AckFrame \<Rightarrow> ack_len s | DataFrame \<Rightarrow> tx_len s);
     pending \<leftarrow> slice offset n (case fr of AckFrame \<Rightarrow> ack_frame s | DataFrame \<Rightarrow> tx_frame s);
     (r, t) \<leftarrow> t_poll_write (link P) cx pending (transport s);
     let s = s\<lparr>transport := t\<rparr>;
     case r of
       Pending \<Rightarrow> Some (Inr Blocked, s)
     | Ready (Inl error) \<Rightarrow> Some (Inl (Transport error), s)
     | Ready (Inr written) \<Rightarrow>
         if written = 0 then Some (Inl WriteZero, s)
         else
           let offset = offset + min written (length pending) in
           Some (Inr Progress,
                 s\<lparr>out := (if offset = n then Flushing fr else Writing fr offset)\<rparr>)
   }"

definition poll_flushing ::
  "('t, 'c, 'e) params \<Rightarrow> waker \<Rightarrow> frame \<Rightarrow> ('t, 'c, 'e) reliable \<Rightarrow>
     (('e connection_error + work) \<times> ('t, 'c, 'e) reliable) option" where
  "poll_flushing P cx fr s = do {
     (r, t) \<leftarrow> t_poll_flush (link P) cx (transport s);
     let s = s\<lparr>transport := t\<rparr>;
     case r of
       Pending \<Rightarrow> Some (Inr Blocked, s)
     | Ready (Inl error) \<Rightarrow> Some (Inl (Transport error), s)
     | Ready (Inr _) \<Rightarrow>
         let s = (if fr = DataFrame \<and> tx s = TxSending then
                    let (ticks, c) = c_now (clock P) (timer s) in
                    s\<lparr>tx := TxWaiting, final_input := None, timer := c,
                      tx_deadline := saturating_add ticks (retransmit_timeout (config s))\<rparr>
                  else s)
         in Some (Inr Progress, s\<lparr>out := OutIdle\<rparr>)
   }"

text \<open>The budget is passed along with the state of the connection.\<close>

definition poll_output ::
  "('t, 'c, 'e) params \<Rightarrow> waker \<Rightarrow> nat \<times> ('t, 'c, 'e) reliable \<Rightarrow>
     (('e connection_error + work) \<times> nat \<times> ('t, 'c, 'e) reliable) option" where
  "poll_output P cx bs = do {
     let (budget, s) = bs;
     (selected, s) \<leftarrow> select_frame s;
     if \<not> selected then Some (Inr Blocked, budget, s)
     else
       let (spent, budget) = spend budget in
       if \<not> spent then Some (Inr Yield, budget, s)
       else
         case out s of
           OutIdle \<Rightarrow> Some (Inr Blocked, budget, s)
         | Writing fr offset \<Rightarrow> do {
             (r, s) \<leftarrow> poll_writing P cx fr offset s;
             Some (r, budget, s)
           }
         | Flushing fr \<Rightarrow> do {
             (r, s) \<leftarrow> poll_flushing P cx fr s;
             Some (r, budget, s)
           }
   }"

definition poll_input ::
  "('t, 'c, 'e) params \<Rightarrow> waker \<Rightarrow> nat \<times> ('t, 'c, 'e) reliable \<Rightarrow>
     (('e connection_error + work) \<times> nat \<times> ('t, 'c, 'e) reliable) option" where
  "poll_input P cx bs = do {
     let (budget, s) = bs;
     let (spent, budget) = spend budget;
     if \<not> spent then Some (Inr Yield, budget, s)
     else do {
       free \<leftarrow> slice (rx_len s) (length (rx_buf s)) (rx_buf s);
       (r, free, t) \<leftarrow> t_poll_read (link P) cx free (transport s);
       let s = s\<lparr>transport := t, rx_buf := take (rx_len s) (rx_buf s) @ free\<rparr>;
       case r of
         Pending \<Rightarrow> Some (Inr Blocked, budget, s)
       | Ready (Inl error) \<Rightarrow> Some (Inl (Transport error), budget, s)
       | Ready (Inr read) \<Rightarrow>
           if read = 0 then Some (Inl UnexpectedEof, budget, s)
           else do {
             let read = min read (length free);
             s \<leftarrow> process_input P
                   (s\<lparr>rx_len := rx_len s + read,
                      final_input := map_option (\<lambda>left. left - read) (final_input s)\<rparr>);
             Some (Inr Progress, budget, s)
           }
     }
   }"

definition poll_timer ::
  "('t, 'c, 'e) params \<Rightarrow> waker \<Rightarrow> work \<Rightarrow> nat \<times> ('t, 'c, 'e) reliable \<Rightarrow>
     (('e connection_error + work) \<times> nat \<times> ('t, 'c, 'e) reliable) option" where
  "poll_timer P cx input bs =
     (case bs of (budget, s) \<Rightarrow>
        if tx s \<noteq> TxWaiting then Some (Inr Blocked, budget, s)
        else
          case final_input s of
            None \<Rightarrow>
              let (r, c) = c_poll_deadline (clock P) cx (tx_deadline s) (timer s);
                  s = s\<lparr>timer := c\<rparr> in
              if is_pending r then Some (Inr Blocked, budget, s)
              else Some (Inr Progress, budget, s\<lparr>final_input := Some (FINAL_INPUT P)\<rparr>)
          | Some left \<Rightarrow>
              if input = Blocked \<or> left = 0 then
                let s = s\<lparr>final_input := None\<rparr> in
                if tx_retries s \<ge> max_retries (config s) then Some (Inl Timeout, budget, s)
                else do {
                  retries \<leftarrow> add_checked (tx_retries s) 1;
                  Some (Inr Progress, budget, s\<lparr>tx_retries := retries, tx := TxQueued\<rparr>)
                }
              else Some (Inr Blocked, budget, s))"

definition step ::
  "('t, 'c, 'e) params \<Rightarrow> waker \<Rightarrow> nat \<times> ('t, 'c, 'e) reliable \<Rightarrow>
     (('e connection_error + work) \<times> nat \<times> ('t, 'c, 'e) reliable) option" where
  "step P cx bs =
     try_bind (poll_output P cx bs) (\<lambda>output bs.
     try_bind (poll_input P cx bs) (\<lambda>input bs.
     try_bind (poll_timer P cx input bs) (\<lambda>timer bs.
       Some (Inr (max (max output input) timer), bs))))"

text \<open>A step that makes progress has spent a unit of the budget, so the loop of \<open>drive\<close> ends.\<close>

lemma poll_output_budget:
  "poll_output P cx (b, s) = Some (r, b', s') \<Longrightarrow> b' \<le> b"
  by (auto simp: poll_output_def spend_def checked_sub_def elim!: bind_SomeE
      split: if_splits out.splits prod.splits)

lemma poll_input_budget:
  "poll_input P cx (b, s) = Some (r, b', s') \<Longrightarrow> b' \<le> b \<and> (r \<noteq> Inr Yield \<longrightarrow> b' < b)"
  by (auto simp: poll_input_def spend_def checked_sub_def Let_def elim!: bind_SomeE
      split: if_splits poll.splits sum.splits)

lemma poll_timer_budget: "poll_timer P cx i (b, s) = Some (r, b', s') \<Longrightarrow> b' = b"
  by (auto simp: poll_timer_def Let_def elim!: bind_SomeE split: if_splits option.splits prod.splits)

lemma max_Progress:
  "max (a :: work) b = Progress \<Longrightarrow> a \<noteq> Yield \<and> b \<noteq> Yield"
  "Progress = max (a :: work) b \<Longrightarrow> a \<noteq> Yield \<and> b \<noteq> Yield"
  "max (a :: work) Yield = Yield"
  by (cases a; cases b; auto simp: max_def less_eq_work_def)+

lemma step_budget:
  assumes "step P cx (b, s) = Some (r, b', s')"
  shows "b' \<le> b" and "r = Inr Progress \<Longrightarrow> b' < b"
proof -
  have "b' \<le> b \<and> (r = Inr Progress \<longrightarrow> b' < b)"
    using assms unfolding step_def
    by (auto elim!: try_bind_SomeE
        dest!: poll_output_budget poll_input_budget poll_timer_budget max_Progress(1,2) simp: max_Progress(3))
  then show "b' \<le> b" and "r = Inr Progress \<Longrightarrow> b' < b" by auto
qed

section \<open>The loop\<close>

function drive_loop ::
  "('t, 'c, 'e) params \<Rightarrow> waker \<Rightarrow> nat \<times> ('t, 'c, 'e) reliable \<Rightarrow>
     (work \<times> nat \<times> ('t, 'c, 'e) reliable) option" where
  "drive_loop P cx bs =
     Option.bind (step P cx bs) (\<lambda>(r, bs'). case r of
         Inr Progress \<Rightarrow> drive_loop P cx bs'
       | Inr Blocked \<Rightarrow> Some (Blocked, bs')
       | Inr Yield \<Rightarrow> Some (Yield, fst bs', (snd bs')\<lparr>woken := woken (snd bs') @ [cx]\<rparr>)
       | Inl error \<Rightarrow> Some (Blocked, fst bs', fail error (snd bs')))"
  by pat_completeness auto
termination
proof (relation "measure (\<lambda>(P, cx, bs). fst bs)", goal_cases)
  case (2 P cx bs x r bs' w)
  then show ?case
    using step_budget(2) [of P cx "fst bs" "snd bs" r "fst bs'" "snd bs'"] by simp
qed simp

declare drive_loop.simps [simp del]

definition drive ::
  "('t, 'c, 'e) params \<Rightarrow> waker \<Rightarrow> nat \<times> ('t, 'c, 'e) reliable \<Rightarrow>
     (work \<times> nat \<times> ('t, 'c, 'e) reliable) option" where
  "drive P cx bs =
     (if \<not> is_healthy (snd bs) then Some (Blocked, bs) else drive_loop P cx bs)"

section \<open>The operations of the application\<close>

text \<open>
  \<open>notify\<close> wakes the retained waiters of the other operations whose condition holds; only waiters
  change while it runs, so the conditions are those of the state it is called on.
\<close>

definition notify ::
  "op \<Rightarrow> bool \<Rightarrow> ('t, 'c, 'e) reliable \<Rightarrow> ('t, 'c, 'e) reliable" where
  "notify finished completed s =
     (let everyone = completed \<or> \<not> is_healthy s in
      fold (\<lambda>op s.
        if op = finished then s
        else if everyone \<or>
            (case op of
               OpRead \<Rightarrow> rx_start s < rx_end s
             | OpWrite \<Rightarrow> write_ready s
             | OpFlush \<Rightarrow> flush_ready s
             | OpProgress \<Rightarrow> False)
        then wake op s else s) OPS s)"

definition finish ::
  "op \<Rightarrow> waker \<Rightarrow> 'a poll \<Rightarrow> ('t, 'c, 'e) reliable \<Rightarrow> 'a poll \<times> ('t, 'c, 'e) reliable" where
  "finish op cx poll s =
     (let completed = is_ready poll;
          s = s\<lparr>waiters := (if completed then clear_waiter op (waiters s)
                            else register op cx (waiters s))\<rparr>
      in (poll, notify op completed s))"

definition poll_progress ::
  "('t, 'c, 'e) params \<Rightarrow> waker \<Rightarrow> ('t, 'c, 'e) reliable \<Rightarrow>
     ('e connection_error poll \<times> ('t, 'c, 'e) reliable) option" where
  "poll_progress P cx s = do {
     (_, _, s) \<leftarrow> drive P cx (new_budget, s);
     let (error, s) = failure s;
     let poll = (case error of Some e \<Rightarrow> Ready e | None \<Rightarrow> Pending);
     Some (finish OpProgress cx poll s)
   }"

fun canceled_op :: "pending_operation \<Rightarrow> op" where
  "canceled_op PendingRead = OpRead"
| "canceled_op PendingWrite = OpWrite"
| "canceled_op PendingFlush = OpFlush"
| "canceled_op PendingProgress = OpProgress"

definition cancel_pending ::
  "pending_operation \<Rightarrow> ('t, 'c, 'e) reliable \<Rightarrow> ('t, 'c, 'e) reliable" where
  "cancel_pending operation s =
     (let canceled = canceled_op operation;
          s = s\<lparr>waiters := clear_waiter canceled (waiters s)\<rparr>
      in fold (\<lambda>op s. if op \<noteq> canceled then wake op s else s) OPS s)"

definition queue_packet ::
  "('t, 'c, 'e) params \<Rightarrow> waker \<Rightarrow> u8 list \<Rightarrow> ('t, 'c, 'e) reliable \<Rightarrow>
     (('e connection_error + nat) poll \<times> ('t, 'c, 'e) reliable) option" where
  "queue_packet P cx buf s = do {
     (work, budget, s) \<leftarrow> drive P cx (new_budget, s);
     let yielded = (work = Yield);
     let busy = (\<not> write_ready s);
     let s = (if \<not> busy \<and> tx_next s > ucast (- 1 :: u32) then fail SequenceExhausted s else s);
     let (error, s) = failure s;
     case error of
       Some e \<Rightarrow> Some (Ready (Inl e), s)
     | None \<Rightarrow>
         if busy then Some (Pending, s)
         else do {
           let n = min (length buf) (MAX_PAYLOAD P);
           payload \<leftarrow> slice 0 n buf;
           (len, scr, fr) \<leftarrow> encode_data (session (config s)) (ucast (tx_next s)) payload
                               (scratch s) (tx_frame s);
           next \<leftarrow> add_checked (tx_next s) 1;
           let s = s\<lparr>scratch := scr, tx_frame := fr, tx_len := len,
                     tx_next := next, tx_retries := 0, tx := TxQueued\<rparr>;
           if \<not> yielded then do {
             (_, _, s) \<leftarrow> drive P cx (budget, s);
             Some (Ready (Inr n), s)
           } else Some (Ready (Inr n), s)
         }
   }"

definition poll_read ::
  "('t, 'c, 'e) params \<Rightarrow> waker \<Rightarrow> u8 list \<Rightarrow> ('t, 'c, 'e) reliable \<Rightarrow>
     (('e connection_error + nat) poll \<times> u8 list \<times> ('t, 'c, 'e) reliable) option" where
  "poll_read P cx buf s =
     (if buf = [] then Some (Ready (Inr 0), buf, s)
      else do {
        (_, _, s) \<leftarrow> drive P cx (new_budget, s);
        (poll, buf, s) \<leftarrow>
          (if rx_start s < rx_end s then do {
             let n = min (length buf) (rx_end s - rx_start s);
             bytes \<leftarrow> slice (rx_start s) (rx_start s + n) (rx_payload s);
             buf \<leftarrow> copy_from_slice 0 n bytes buf;
             Some (Ready (Inr n), buf, s\<lparr>rx_start := rx_start s + n\<rparr>)
           } else
             let (error, s) = failure s in
             case error of
               Some e \<Rightarrow> Some (Ready (Inl e), buf, s)
             | None \<Rightarrow> Some (Pending, buf, s));
        let (poll, s) = finish OpRead cx poll s;
        Some (poll, buf, s)
      })"

definition poll_write ::
  "('t, 'c, 'e) params \<Rightarrow> waker \<Rightarrow> u8 list \<Rightarrow> ('t, 'c, 'e) reliable \<Rightarrow>
     (('e connection_error + nat) poll \<times> ('t, 'c, 'e) reliable) option" where
  "poll_write P cx buf s =
     (if buf = [] then Some (Ready (Inr 0), s)
      else do {
        (poll, s) \<leftarrow> queue_packet P cx buf s;
        Some (finish OpWrite cx poll s)
      })"

definition poll_flush ::
  "('t, 'c, 'e) params \<Rightarrow> waker \<Rightarrow> ('t, 'c, 'e) reliable \<Rightarrow>
     (('e connection_error + unit) poll \<times> ('t, 'c, 'e) reliable) option" where
  "poll_flush P cx s = do {
     (_, _, s) \<leftarrow> drive P cx (new_budget, s);
     let (error, s) = failure s;
     let poll = (case error of
                   Some e \<Rightarrow> Ready (Inl e)
                 | None \<Rightarrow> if flush_ready s then Ready (Inr ()) else Pending);
     Some (finish OpFlush cx poll s)
   }"

text \<open>\<open>Reliable\<close> is a \<open>Transport\<close> itself.\<close>

definition reliable_ops ::
  "('t, 'c, 'e) params \<Rightarrow> (('t, 'c, 'e) reliable, 'e connection_error) transport_ops" where
  "reliable_ops P =
     \<lparr>t_poll_read = poll_read P, t_poll_write = poll_write P, t_poll_flush = poll_flush P\<rparr>"

end
