(* ===== verification/Connection_Inv.thy ===== *)
theory Connection_Inv
  imports Connection
begin

text \<open>
  The invariant of the connection: what its buffers hold, how the transmit, output and receive
  states agree, and that no operation panics or leaves it. The lemmas are proved in the locale of
  a link that keeps the laws of \<open>Transport\<close>; a connection is then such a link itself.
\<close>

named_theorems inv_defs \<open>the parts of the connection invariant\<close>

section \<open>The invariant\<close>

definition holds_frame :: "u8 list \<Rightarrow> nat \<Rightarrow> packet \<Rightarrow> bool" where
  "holds_frame buf n p \<longleftrightarrow>
     n = length (packet_frame p) \<and> n \<le> length buf \<and> take n buf = packet_frame p"

definition buffers_inv :: "('t, 'c, 'e) params \<Rightarrow> ('t, 'c, 'e) reliable \<Rightarrow> bool" where
  "buffers_inv P s \<longleftrightarrow>
     0 < MAX_PAYLOAD P \<and>
     length (tx_frame s) = capacity P \<and> length (scratch s) = capacity P \<and>
     length (rx_buf s) = capacity P \<and> length (rx_payload s) = capacity P \<and>
     length (ack_frame s) = ACK_FRAME_LEN"

text \<open>The packet under way: the last one accepted, in its frame in \<open>tx_frame\<close>\<close>

definition tx_frame_ok :: "('t, 'c, 'e) params \<Rightarrow> ('t, 'c, 'e) reliable \<Rightarrow> bool" where
  "tx_frame_ok P s \<longleftrightarrow>
     0 < tx_next s \<and>
     (\<exists>payload. payload \<noteq> [] \<and> length payload \<le> MAX_PAYLOAD P \<and>
        holds_frame (tx_frame s) (tx_len s)
          (Data (session (config s)) (ucast (tx_next s - 1)) payload))"

definition tx_inv :: "('t, 'c, 'e) params \<Rightarrow> ('t, 'c, 'e) reliable \<Rightarrow> bool" where
  "tx_inv P s \<longleftrightarrow>
     unat (tx_next s) \<le> 2 ^ 32 \<and>
     tx_retries s \<le> max_retries (config s) \<and>
     (tx s \<noteq> TxIdle \<or> data_out_busy s \<longrightarrow> tx_frame_ok P s) \<and>
     (data_out_busy s \<longrightarrow> tx s = TxIdle \<or> tx s = TxSending) \<and>
     (tx s = TxSending \<longrightarrow> data_out_busy s) \<and>
     (final_input s \<noteq> None \<longrightarrow> tx s = TxWaiting)"

text \<open>The output: an ACK under way acknowledges a packet that was retained.\<close>

definition ack_frame_ok :: "('t, 'c, 'e) reliable \<Rightarrow> bool" where
  "ack_frame_ok s \<longleftrightarrow>
     (\<exists>q. ucast q < rx_next s \<and> holds_frame (ack_frame s) (ack_len s) (Ack (session (config s)) q))"

definition out_inv :: "('t, 'c, 'e) reliable \<Rightarrow> bool" where
  "out_inv s \<longleftrightarrow>
     (\<forall>offset. out s = Writing AckFrame offset \<longrightarrow> offset < ack_len s \<and> ack_frame_ok s) \<and>
     (\<forall>offset. out s = Writing DataFrame offset \<longrightarrow> offset < tx_len s)"

definition rx_inv :: "('t, 'c, 'e) params \<Rightarrow> ('t, 'c, 'e) reliable \<Rightarrow> bool" where
  "rx_inv P s \<longleftrightarrow>
     rx_start s \<le> rx_end s \<and> rx_end s \<le> MAX_PAYLOAD P \<and> unat (rx_next s) \<le> 2 ^ 32 \<and>
     (\<forall>q. ack_pending s = Some q \<longrightarrow> unat (rx_next s) = unat q + 1)"

text \<open>Between two polls the buffer holds part of a frame, and has room for more.\<close>

definition input_inv :: "('t, 'c, 'e) params \<Rightarrow> ('t, 'c, 'e) reliable \<Rightarrow> bool" where
  "input_inv P s \<longleftrightarrow>
     rx_len s < capacity P \<and> 0 \<notin> set (take (rx_len s) (rx_buf s)) \<and>
     (rx_discarding s \<longrightarrow> rx_len s = 0)"

definition core_inv ::
  "('t, 'c, 'e) params \<Rightarrow> ('t \<Rightarrow> bool) \<Rightarrow> ('t, 'c, 'e) reliable \<Rightarrow> bool" where
  "core_inv P tinv s \<longleftrightarrow>
     tinv (transport s) \<and> buffers_inv P s \<and> tx_inv P s \<and> out_inv s \<and> rx_inv P s"

definition conn_inv ::
  "('t, 'c, 'e) params \<Rightarrow> ('t \<Rightarrow> bool) \<Rightarrow> ('t, 'c, 'e) reliable \<Rightarrow> bool" where
  "conn_inv P tinv s \<longleftrightarrow> core_inv P tinv s \<and> input_inv P s"

text \<open>The condition of \<open>data_out_busy\<close> as a predicate on the output alone\<close>

definition data_out :: "out \<Rightarrow> bool" where
  "data_out x \<longleftrightarrow> x = Flushing DataFrame \<or> (\<exists>offset. x = Writing DataFrame offset)"

lemma data_out_busy_eq: "data_out_busy s = data_out (out s)"
  by (auto simp: data_out_busy_def data_out_def split: out.splits frame.splits)

lemma data_out_simps [simp]:
  "\<not> data_out OutIdle" "data_out (Writing f n) = (f = DataFrame)" "data_out (Flushing f) = (f = DataFrame)"
  by (auto simp: data_out_def)

declare buffers_inv_def [inv_defs] tx_inv_def [inv_defs] out_inv_def [inv_defs]
  rx_inv_def [inv_defs] input_inv_def [inv_defs] core_inv_def [inv_defs]
  tx_frame_ok_def [inv_defs] ack_frame_ok_def [inv_defs] data_out_busy_eq [inv_defs]

lemma capacity_bounds:
  assumes "buffers_inv P s"
  shows "21 \<le> capacity P" "MAX_PAYLOAD P + 20 \<le> capacity P"
proof -
  from assms have pos: "0 < MAX_PAYLOAD P" by (simp add: buffers_inv_def)
  then have fits: "max_encoding_length (OVERHEAD + MAX_PAYLOAD P) + 2 \<le> capacity P"
    using max_payload_iff [of "MAX_PAYLOAD P" "capacity P"] by (simp add: MAX_PAYLOAD_def)
  then show "MAX_PAYLOAD P + 20 \<le> capacity P"
    using max_encoding_length_Suc [of "OVERHEAD + MAX_PAYLOAD P"] by (simp add: OVERHEAD_17)
  with pos show "21 \<le> capacity P" by linarith
qed

lemma new_reliable_inv:
  assumes "new_reliable P t c cfg = Inr s" "tinv t"
  shows "conn_inv P tinv s"
proof -
  have "0 < MAX_PAYLOAD P" using assms(1) by (auto simp: new_reliable_def split: if_splits)
  moreover from this have "0 < capacity P"
    using max_payload_iff [of 1 "capacity P"] by (auto simp: MAX_PAYLOAD_def)
  ultimately show ?thesis
    using assms by (auto simp: new_reliable_def conn_inv_def inv_defs)
qed

section \<open>Received packets\<close>

lemma unat_u32_less: "unat (q :: u32) < 4294967296"
  using unsigned_less [of q] by simp

lemma unat_ucast_u32 [simp]: "unat (ucast (q :: u32) :: u64) = unat q"
  using unat_u32_less [of q] by (simp add: unsigned_ucast_eq take_bit_nat_eq_self_iff)

lemma seq_eq_u64: "(ucast (q :: u32) :: u64) = x \<Longrightarrow> unat x = unat q"
  by auto

lemma add_checked_unat: "add_checked (a :: 'w::len word) 1 = Some c \<Longrightarrow> unat c = unat a + 1"
  by (auto simp: add_checked_def unat_word_ariths split: if_splits)

lemma add_checked_u64:
  "unat x \<le> 4294967296 \<Longrightarrow> add_checked (x :: u64) 1 = Some (x + 1) \<and> unat (x + 1) = unat x + 1"
  by (auto simp: add_checked_def unat_word_ariths)

lemma core_invI:
  "tinv (transport s) \<Longrightarrow> buffers_inv P s \<Longrightarrow> tx_inv P s \<Longrightarrow> out_inv s \<Longrightarrow> rx_inv P s \<Longrightarrow>
     core_inv P tinv s"
  by (simp add: core_inv_def)

lemma process_ack_inv:
  assumes "core_inv P tinv s"
  shows "core_inv P tinv (s\<lparr>tx := TxIdle, tx_retries := 0, final_input := None\<rparr>)"
  using assms by (simp add: inv_defs)

lemma receive_data_inv:
  assumes "core_inv P tinv s" "length payload \<le> MAX_PAYLOAD P" "ucast seq = rx_next s"
  shows "\<exists>buf. copy_from_slice 0 (length payload) payload (rx_payload s) = Some buf \<and>
    add_checked (rx_next s) 1 = Some (rx_next s + 1) \<and>
    core_inv P tinv (s\<lparr>rx_payload := buf, rx_start := 0, rx_end := length payload,
                       rx_next := rx_next s + 1, ack_pending := Some seq\<rparr>)"
proof -
  let ?buf = "payload @ drop (length payload) (rx_payload s)"
  have "length payload \<le> length (rx_payload s)"
    using assms(1,2) capacity_bounds(2) [of P s] by (simp add: inv_defs)
  then have "copy_from_slice 0 (length payload) payload (rx_payload s) = Some ?buf"
    and len: "length ?buf = length (rx_payload s)"
    by (simp_all add: copy_from_slice_def)
  moreover have next_seq: "add_checked (rx_next s) 1 = Some (rx_next s + 1)"
      "unat (rx_next s + 1) = unat seq + 1"
    using add_checked_u64 [of "rx_next s"] unat_u32_less [of seq] seq_eq_u64 [OF assms(3)] by auto
  moreover have "rx_next s < rx_next s + 1"
    using next_seq seq_eq_u64 [OF assms(3)] by (simp add: word_less_nat_alt)
  then have "ack_frame_ok (s\<lparr>rx_payload := ?buf, rx_start := 0, rx_end := length payload,
        rx_next := rx_next s + 1, ack_pending := Some seq\<rparr>)" if "ack_frame_ok s"
    using that by (auto simp: ack_frame_ok_def intro: order.strict_trans)
  then have "core_inv P tinv (s\<lparr>rx_payload := ?buf, rx_start := 0, rx_end := length payload,
        rx_next := rx_next s + 1, ack_pending := Some seq\<rparr>)"
    using assms(1,2) len next_seq(2) unat_u32_less [of seq]
    by (intro core_invI) (simp_all add: inv_defs)
  ultimately show ?thesis by blast
qed

lemma repeat_ack_inv:
  assumes "core_inv P tinv s" "0 < rx_next s" "ucast seq = rx_next s - 1"
  shows "core_inv P tinv (s\<lparr>ack_pending := Some seq\<rparr>)"
proof -
  have "unat (rx_next s - 1) = unat (rx_next s) - 1"
    using assms(2) by (simp add: unat_minus_one word_neq_0_conv)
  moreover have "0 < unat (rx_next s)" using assms(2) by (simp add: word_less_nat_alt)
  ultimately have "unat (rx_next s) = unat seq + 1"
    using seq_eq_u64 [OF assms(3)] by linarith
  with assms(1) show ?thesis
    by (simp add: inv_defs)
qed

text \<open>What a received packet leaves alone\<close>

definition same_input :: "('t, 'c, 'e) reliable \<Rightarrow> ('t, 'c, 'e) reliable \<Rightarrow> bool" where
  "same_input s s' \<longleftrightarrow>
     rx_buf s' = rx_buf s \<and> rx_len s' = rx_len s \<and> rx_discarding s' = rx_discarding s"

lemma process_packet_inv:
  assumes "core_inv P tinv s"
  shows "\<exists>s'. process_packet P p s = Some s' \<and> core_inv P tinv s' \<and> same_input s s'"
proof (cases p)
  case (Ack sess seq)
  obtain n where "add_checked (ucast seq :: u64) 1 = Some n"
    using add_checked_u64 [of "ucast seq"] unat_u32_less [of seq] by simp
  with assms Ack process_ack_inv [OF assms] show ?thesis
    by (auto simp: process_packet_def same_input_def)
next
  case (Data sess seq payload)
  with assms show ?thesis
    using receive_data_inv [OF assms, of payload seq] repeat_ack_inv [OF assms, of seq]
    by (auto simp: process_packet_def same_input_def not_less)
qed

section \<open>Received bytes\<close>

text \<open>What processing input never touches\<close>

definition same_output :: "('t, 'c, 'e) reliable \<Rightarrow> ('t, 'c, 'e) reliable \<Rightarrow> bool" where
  "same_output s s' \<longleftrightarrow>
     transport s' = transport s \<and> timer s' = timer s \<and> config s' = config s \<and>
     health s' = health s \<and> tx_frame s' = tx_frame s \<and> tx_len s' = tx_len s \<and>
     tx_next s' = tx_next s \<and> tx_deadline s' = tx_deadline s \<and> out s' = out s \<and>
     ack_frame s' = ack_frame s \<and> ack_len s' = ack_len s \<and>
     waiters s' = waiters s \<and> woken s' = woken s"

lemma same_output_refl [simp]: "same_output s s"
  by (simp add: same_output_def)

lemma same_output_trans: "same_output s s' \<Longrightarrow> same_output s' s'' \<Longrightarrow> same_output s s''"
  by (simp add: same_output_def)

lemma same_output_updates [simp]:
  "same_output s (s'\<lparr>scratch := a\<rparr>) = same_output s s'"
  "same_output s (s'\<lparr>rx_discarding := d\<rparr>) = same_output s s'"
  "same_output s (s'\<lparr>rx_len := n\<rparr>) = same_output s s'"
  "same_output s (s'\<lparr>rx_buf := b\<rparr>) = same_output s s'"
  by (simp_all add: same_output_def)

lemma process_packet_same_output: "process_packet P p s = Some s' \<Longrightarrow> same_output s s'"
  by (auto simp: process_packet_def same_output_def elim!: bind_SomeE split: packet.splits if_splits)

lemma process_frame_same_output: "process_frame P stop s = Some s' \<Longrightarrow> same_output s s'"
  by (auto simp: process_frame_def elim!: bind_SomeE split: prod.splits sum.splits option.splits
      dest: process_packet_same_output) (auto simp: same_output_def dest: process_packet_same_output)

lemma core_inv_scratch:
  "core_inv P tinv s \<Longrightarrow> length a = length (scratch s) \<Longrightarrow> core_inv P tinv (s\<lparr>scratch := a\<rparr>)"
  by (simp add: inv_defs)

lemma process_frame_inv:
  assumes "core_inv P tinv s" "stop < length (rx_buf s)"
  shows "\<exists>s'. process_frame P stop s = Some s' \<and> core_inv P tinv s' \<and> same_input s s'"
proof -
  let ?source = "take (stop + 1) (rx_buf s)"
  obtain r a where d: "decode_to_slice ?source (scratch s) = (r, a)" by fastforce
  with decode_to_slice_bounds(1) [of ?source "scratch s"]
  have a: "core_inv P tinv (s\<lparr>scratch := a\<rparr>)" using assms(1) by (simp add: core_inv_scratch)
  have source: "slice 0 (stop + 1) (rx_buf s) = Some ?source"
    using assms(2) by (simp add: slice_def)
  show ?thesis
  proof (cases r)
    case (Inl e)
    with source d a show ?thesis by (simp add: process_frame_def same_input_def)
  next
    case (Inr f)
    with d decode_to_slice_bounds [of ?source "scratch s"]
    have "slice 0 (frame_len f) a = Some (take (frame_len f) a)" by (simp add: slice_def)
    moreover obtain p where "parse (take (frame_len f) a) = Some p" using parse_total by blast
    ultimately show ?thesis
      using source d Inr a process_packet_inv [OF a]
      by (cases p) (auto simp: process_frame_def same_input_def)
  qed
qed

lemma core_inv_input_fields:
  "core_inv P tinv s \<Longrightarrow> length b = length (rx_buf s) \<Longrightarrow>
     core_inv P tinv (s\<lparr>rx_buf := b, rx_len := n\<rparr>)"
  "core_inv P tinv s \<Longrightarrow> core_inv P tinv (s\<lparr>rx_discarding := d\<rparr>)"
  "core_inv P tinv s \<Longrightarrow> core_inv P tinv (s\<lparr>rx_len := n\<rparr>)"
  by (simp_all add: inv_defs)

lemma handle_frame_inv:
  assumes "core_inv P tinv s" "stop < length (rx_buf s)"
  shows "\<exists>s'. handle_frame P stop s = Some s' \<and> core_inv P tinv s' \<and>
    rx_buf s' = rx_buf s \<and> rx_len s' = rx_len s \<and> rx_discarding s' = False \<and> same_output s s'"
  using assms process_frame_inv [OF assms] core_inv_input_fields(2) [OF assms(1), of False]
  by (auto simp: handle_frame_def same_input_def dest: process_frame_same_output)

definition drop_frame :: "nat \<Rightarrow> ('t, 'c, 'e) reliable \<Rightarrow> ('t, 'c, 'e) reliable" where
  "drop_frame stop s =
     s\<lparr>rx_buf := take (rx_len s - (stop + 1)) (drop (stop + 1) (rx_buf s)) @
                drop (rx_len s - (stop + 1)) (rx_buf s),
       rx_len := rx_len s - (stop + 1)\<rparr>"

lemma process_input_unfold:
  assumes "rx_len s \<le> length (rx_buf s)"
  shows "process_input P s =
    (case position (\<lambda>byte. byte = 0) (take (rx_len s) (rx_buf s)) of
       None \<Rightarrow>
         Some (if rx_discarding s \<or> rx_len s = capacity P
               then s\<lparr>rx_discarding := True, rx_len := 0\<rparr> else s)
     | Some stop \<Rightarrow> do {
         s' \<leftarrow> handle_frame P stop s;
         buf \<leftarrow> copy_within (stop + 1) (rx_len s') 0 (rx_buf s');
         n \<leftarrow> sub_checked (rx_len s') (stop + 1);
         process_input P (s'\<lparr>rx_buf := buf, rx_len := n\<rparr>)
       })"
  using assms by (subst process_input.simps) (simp add: slice_def)

lemma process_input_step:
  assumes "core_inv P tinv s" "rx_len s \<le> capacity P"
    and "position (\<lambda>byte. byte = 0) (take (rx_len s) (rx_buf s)) = Some stop"
  obtains s' where "handle_frame P stop s = Some s'"
    "process_input P s = process_input P (drop_frame stop s')"
    "core_inv P tinv (drop_frame stop s')" "same_output s s'"
    "rx_len (drop_frame stop s') < rx_len s"
proof -
  from assms have buf: "length (rx_buf s) = capacity P" by (simp add: inv_defs)
  from position_Some [OF assms(3)] assms(2) buf have stop: "stop < rx_len s" by simp
  with assms(1,2) buf obtain s' where s': "handle_frame P stop s = Some s'" "core_inv P tinv s'"
      "rx_buf s' = rx_buf s" "rx_len s' = rx_len s" "same_output s s'"
    using handle_frame_inv [OF assms(1), of stop] by auto
  have "rx_len s - Suc stop \<le> capacity P" using assms(2) by linarith
  then have "process_input P s = process_input P (drop_frame stop s')"
    using assms(2,3) buf stop s'
    by (subst process_input_unfold) (simp_all add: copy_within_def sub_checked_def drop_frame_def)
  moreover have "core_inv P tinv (drop_frame stop s')"
    unfolding drop_frame_def using s'(2-4) stop assms(2) buf
    by (intro core_inv_input_fields) auto
  ultimately show thesis using s' stop by (intro that) (auto simp: drop_frame_def)
qed

lemma process_input_inv:
  assumes "core_inv P tinv s" "rx_len s \<le> capacity P"
  shows "\<exists>s'. process_input P s = Some s' \<and> conn_inv P tinv s' \<and> same_output s s'"
  using assms
proof (induction "rx_len s" arbitrary: s rule: less_induct)
  case less
  show ?case
  proof (cases "position (\<lambda>byte. byte = 0) (take (rx_len s) (rx_buf s))")
    case None
    let ?s = "if rx_discarding s \<or> rx_len s = capacity P
      then s\<lparr>rx_discarding := True, rx_len := 0\<rparr> else s"
    have "process_input P s = Some ?s"
      using None less.prems by (subst process_input_unfold) (auto simp: inv_defs)
    moreover have "core_inv P tinv ?s"
      using less.prems(1) by (simp add: core_inv_input_fields)
    moreover have "input_inv P ?s"
      using None less.prems capacity_bounds(1) [of P s]
      by (auto simp: position_None input_inv_def core_inv_def)
    ultimately show ?thesis by (auto simp: conn_inv_def)
  next
    case (Some stop)
    from process_input_step [OF less.prems Some] obtain s' where
      s': "process_input P s = process_input P (drop_frame stop s')"
        "core_inv P tinv (drop_frame stop s')" "same_output s s'"
        "rx_len (drop_frame stop s') < rx_len s" by blast
    moreover from this less.prems(2) have "rx_len (drop_frame stop s') \<le> capacity P" by linarith
    ultimately obtain s'' where "process_input P s = Some s''" "conn_inv P tinv s''"
        "same_output (drop_frame stop s') s''"
      using less.hyps [of "drop_frame stop s'"] by auto
    moreover have "same_output s (drop_frame stop s')"
      using s'(3) by (simp add: drop_frame_def)
    ultimately show ?thesis by (blast intro: same_output_trans)
  qed
qed

section \<open>Output\<close>

lemma holds_frame_pos: "holds_frame buf n p \<Longrightarrow> 0 < n \<and> n \<le> length buf"
  by (auto simp: holds_frame_def packet_frame_def)

lemma holds_frame_written: "n = length (packet_frame p) \<Longrightarrow> holds_frame (packet_frame p @ rest) n p"
  by (simp add: holds_frame_def)

lemma conn_inv_parts:
  assumes "conn_inv P tinv s"
  shows "core_inv P tinv s" "tinv (transport s)" "buffers_inv P s" "tx_inv P s" "out_inv s"
    "rx_inv P s" "input_inv P s"
  using assms by (simp_all add: conn_inv_def core_inv_def)

lemma conn_inv_transport:
  "conn_inv P tinv s \<Longrightarrow> tinv t \<Longrightarrow> conn_inv P tinv (s\<lparr>transport := t\<rparr>)"
  by (simp add: conn_inv_def inv_defs)

lemma select_frame_inv:
  assumes "conn_inv P tinv s"
  shows "\<exists>b s'. select_frame s = Some (b, s') \<and> conn_inv P tinv s'"
proof (cases "out s = OutIdle")
  case idle: True
  show ?thesis
  proof (cases "ack_pending s")
    case (Some q)
    let ?p = "Ack (session (config s)) q"
    from assms have "length (packet_frame ?p) \<le> length (ack_frame s)"
      using ack_frame_fits by (simp add: conn_inv_def inv_defs)
    then obtain rest where enc: "encode_ack (session (config s)) q (ack_frame s) =
        Some (length (packet_frame ?p), packet_frame ?p @ rest)"
        "length (packet_frame ?p @ rest) = length (ack_frame s)"
      by (simp add: encode_ack_eq)
    have "ucast q < rx_next s"
      using assms Some by (simp add: conn_inv_def inv_defs word_less_nat_alt)
    then show ?thesis
      using assms idle Some enc holds_frame_written [OF refl, of ?p rest]
      by (fastforce simp: select_frame_def conn_inv_def inv_defs dest: holds_frame_pos)
  next
    case None
    with assms idle show ?thesis
      by (auto simp: select_frame_def conn_inv_def inv_defs dest: holds_frame_pos)
  qed
next
  case False
  with assms show ?thesis by (auto simp: select_frame_def intro: exI [of _ True])
qed

text \<open>The part of a frame still to be written is not empty.\<close>

lemma pending_slice:
  assumes "conn_inv P tinv s" "out s = Writing fr offset"
    and "n = (case fr of AckFrame \<Rightarrow> ack_len s | DataFrame \<Rightarrow> tx_len s)"
    and "buf = (case fr of AckFrame \<Rightarrow> ack_frame s | DataFrame \<Rightarrow> tx_frame s)"
  shows "offset < n" "n \<le> length buf" "slice offset n buf = Some (take (n - offset) (drop offset buf))"
proof -
  have "offset < n \<and> n \<le> length buf"
    using assms by (cases fr) (auto simp: conn_inv_def inv_defs dest: holds_frame_pos)
  then show "offset < n" "n \<le> length buf"
      "slice offset n buf = Some (take (n - offset) (drop offset buf))"
    by (simp_all add: slice_def)
qed

lemma conn_inv_advance:
  assumes "conn_inv P tinv s" "out s = Writing fr offset"
    and "n = (case fr of AckFrame \<Rightarrow> ack_len s | DataFrame \<Rightarrow> tx_len s)" "offset' \<le> n"
  shows "conn_inv P tinv (s\<lparr>out := (if offset' = n then Flushing fr else Writing fr offset')\<rparr>)"
  using assms by (cases fr) (auto simp: conn_inv_def inv_defs)

lemma conn_inv_fail: "conn_inv P tinv s \<Longrightarrow> conn_inv P tinv (fail e s)"
  by (auto simp: fail_def Let_def conn_inv_def inv_defs split: health.splits)

lemma conn_inv_woken: "conn_inv P tinv s \<Longrightarrow> conn_inv P tinv (s\<lparr>woken := w\<rparr>)"
  by (simp add: conn_inv_def inv_defs)

lemma conn_inv_waiters: "conn_inv P tinv s \<Longrightarrow> conn_inv P tinv (s\<lparr>waiters := w\<rparr>)"
  by (simp add: conn_inv_def inv_defs)

lemma conn_inv_health: "conn_inv P tinv s \<Longrightarrow> conn_inv P tinv (s\<lparr>health := h\<rparr>)"
  by (simp add: conn_inv_def inv_defs)

lemma conn_inv_flushed:
  assumes "conn_inv P tinv s" "out s = Flushing fr"
  shows "conn_inv P tinv
    ((if fr = DataFrame \<and> tx s = TxSending
      then s\<lparr>tx := TxWaiting, final_input := None, timer := c, tx_deadline := d\<rparr> else s)
     \<lparr>out := OutIdle\<rparr>)"
  using assms by (cases fr) (auto simp: conn_inv_def inv_defs)

lemma conn_inv_timer:
  assumes "conn_inv P tinv s"
  shows "tx s = TxWaiting \<Longrightarrow> conn_inv P tinv (s\<lparr>timer := c, final_input := f\<rparr>)"
    and "conn_inv P tinv (s\<lparr>timer := c\<rparr>)" and "conn_inv P tinv (s\<lparr>final_input := None\<rparr>)"
    and "tx s = TxWaiting \<Longrightarrow> r \<le> max_retries (config s) \<Longrightarrow>
      conn_inv P tinv (s\<lparr>final_input := None, tx_retries := r, tx := TxQueued\<rparr>)"
  using assms by (auto simp: conn_inv_def inv_defs)

lemma add_checked_less:
  assumes "(a :: 'w::len word) < b"
  shows "add_checked a 1 = Some (a + 1)" "a + 1 \<le> b"
proof -
  have "unat a < unat b" using assms by (simp add: word_less_nat_alt)
  moreover have "unat b < 2 ^ LENGTH('w)" by simp
  ultimately have fits: "unat a + 1 < 2 ^ LENGTH('w)" by linarith
  then show "add_checked a 1 = Some (a + 1)" by (auto simp: add_checked_def)
  from assms show "a + 1 \<le> b" by (rule inc_le)
qed

text \<open>
  What \<open>poll_input\<close> does: after the read the bytes are in the buffer; if some were read, they are
  processed.
\<close>

definition after_read :: "'t \<Rightarrow> u8 list \<Rightarrow> ('t, 'c, 'e) reliable \<Rightarrow> ('t, 'c, 'e) reliable" where
  "after_read t free s = s\<lparr>transport := t, rx_buf := take (rx_len s) (rx_buf s) @ free\<rparr>"

definition taking_in :: "nat \<Rightarrow> ('t, 'c, 'e) reliable \<Rightarrow> ('t, 'c, 'e) reliable" where
  "taking_in k s = s\<lparr>rx_len := rx_len s + k, final_input := map_option (\<lambda>left. left - k) (final_input s)\<rparr>"

definition input_outcome ::
  "('t, 'c, 'e) params \<Rightarrow> ('e + nat) poll \<Rightarrow> nat \<Rightarrow> nat \<Rightarrow> ('t, 'c, 'e) reliable \<Rightarrow>
     (('e connection_error + work) \<times> nat \<times> ('t, 'c, 'e) reliable) option" where
  "input_outcome P r room b s =
     (case r of
        Pending \<Rightarrow> Some (Inr Blocked, b, s)
      | Ready (Inl error) \<Rightarrow> Some (Inl (Transport error), b, s)
      | Ready (Inr n) \<Rightarrow>
          if n = 0 then Some (Inl UnexpectedEof, b, s)
          else Option.bind (process_input P (taking_in (min n room) s)) (\<lambda>s. Some (Inr Progress, b, s)))"

section \<open>A link that keeps the laws\<close>

locale reliable_link = transport_total "link P" tinv
  for P :: "('t, 'c, 'e) params" and tinv :: "'t \<Rightarrow> bool"
begin

lemma poll_writing_inv:
  assumes "conn_inv P tinv s" "out s = Writing fr offset"
  shows "\<exists>r s'. poll_writing P cx fr offset s = Some (r, s') \<and> conn_inv P tinv s'"
proof -
  define n where "n = (case fr of AckFrame \<Rightarrow> ack_len s | DataFrame \<Rightarrow> tx_len s)"
  define buf where "buf = (case fr of AckFrame \<Rightarrow> ack_frame s | DataFrame \<Rightarrow> tx_frame s)"
  define pending where "pending = take (n - offset) (drop offset buf)"
  note slice = pending_slice [OF assms n_def buf_def, folded pending_def]
  have t: "tinv (transport s)" using assms(1) by (rule conn_inv_parts)
  have ne: "pending \<noteq> []" using slice by (simp add: pending_def)
  obtain r t' where w: "t_poll_write (link P) cx pending (transport s) = Some (r, t')"
    using write_total [OF t ne, of cx] by auto
  let ?s = "s\<lparr>transport := t'\<rparr>"
  let ?next = "\<lambda>k. ?s\<lparr>out := (if offset + k = n then Flushing fr else Writing fr (offset + k))\<rparr>"
  have eq: "poll_writing P cx fr offset s =
    (case r of
       Pending \<Rightarrow> Some (Inr Blocked, ?s)
     | Ready (Inl error) \<Rightarrow> Some (Inl (Transport error), ?s)
     | Ready (Inr written) \<Rightarrow>
         if written = 0 then Some (Inl WriteZero, ?s)
         else Some (Inr Progress, ?next (min written (length pending))))"
    unfolding poll_writing_def Let_def n_def [symmetric] buf_def [symmetric] slice(3)
    using w by (simp add: Let_def)
  have inv: "conn_inv P tinv ?s"
    using assms(1) write_keeps [OF t ne w] by (rule conn_inv_transport)
  have "length pending = n - offset" using slice by (simp add: pending_def)
  then have "offset + min k (length pending) \<le> n" for k using slice(1) by linarith
  then have "conn_inv P tinv (?next (min k (length pending)))" for k
    using conn_inv_advance [OF inv, of fr offset n] assms(2) by (cases fr) (simp_all add: n_def)
  with inv show ?thesis unfolding eq by (auto split: poll.splits sum.splits)
qed

lemma poll_flushing_inv:
  assumes "conn_inv P tinv s" "out s = Flushing fr"
  shows "\<exists>r s'. poll_flushing P cx fr s = Some (r, s') \<and> conn_inv P tinv s'"
proof -
  have t: "tinv (transport s)" using assms(1) by (rule conn_inv_parts)
  obtain r t' where f: "t_poll_flush (link P) cx (transport s) = Some (r, t')"
    using flush_total [OF t, of cx] by auto
  have inv: "conn_inv P tinv (s\<lparr>transport := t'\<rparr>)"
    using assms(1) flush_keeps [OF t f] by (rule conn_inv_transport)
  obtain ticks c where c: "c_now (clock P) (timer s) = (ticks, c)" by fastforce
  show ?thesis
    using f inv assms(2) c conn_inv_flushed [OF inv, where fr = fr and c = c]
    by (auto simp: poll_flushing_def Let_def split: poll.splits sum.splits)
qed

lemma poll_output_inv:
  assumes "conn_inv P tinv s"
  shows "\<exists>r b' s'. poll_output P cx (b, s) = Some (r, b', s') \<and> conn_inv P tinv s'"
proof -
  obtain sel s1 where sel: "select_frame s = Some (sel, s1)" and inv: "conn_inv P tinv s1"
    using select_frame_inv [OF assms] by blast
  obtain sp b1 where "spend b = (sp, b1)" by fastforce
  then show ?thesis
    using sel inv poll_writing_inv [OF inv, of _ _ cx] poll_flushing_inv [OF inv, of _ cx]
    by (cases "out s1") (fastforce simp: poll_output_def)+
qed

lemma poll_input_eq:
  assumes "conn_inv P tinv s" "spend b = (sp, b1)"
  obtains r free t where
    "t_poll_read (link P) cx (drop (rx_len s) (rx_buf s)) (transport s) = Some (r, free, t)"
    "tinv t" "rx_len s + length free = capacity P" "conn_inv P tinv (after_read t free s)"
    "poll_input P cx (b, s) =
      (if \<not> sp then Some (Inr Yield, b1, s)
       else input_outcome P r (length free) b1 (after_read t free s))"
proof -
  have buf: "length (rx_buf s) = capacity P" "rx_len s < capacity P"
    using assms(1) by (simp_all add: conn_inv_def inv_defs)
  let ?free = "drop (rx_len s) (rx_buf s)"
  have free: "slice (rx_len s) (length (rx_buf s)) (rx_buf s) = Some ?free"
    using buf by (simp add: slice_def)
  have t: "tinv (transport s)" using assms(1) by (rule conn_inv_parts)
  obtain r free' t' where rd: "t_poll_read (link P) cx ?free (transport s) = Some (r, free', t')"
    using read_total [OF t, of cx ?free] by auto
  then have t': "tinv t'" "length free' = length ?free" using read_keeps [OF t] by auto
  have "conn_inv P tinv (after_read t' free' s)"
    using assms(1) t' buf by (auto simp: after_read_def conn_inv_def inv_defs)
  moreover have "rx_len s + length free' = capacity P" using t'(2) buf by simp
  ultimately show thesis
    using assms(2) rd free t'(1)
    by (intro that [OF rd]) (auto simp: poll_input_def after_read_def taking_in_def input_outcome_def Let_def
        split: poll.split sum.split)
qed

text \<open>The bytes read leave the buffer within its bounds.\<close>

lemma taking_in_core:
  assumes "conn_inv P tinv (after_read t free s)" "rx_len s + length free = capacity P" "k \<le> length free"
  shows "core_inv P tinv (taking_in k (after_read t free s))" "rx_len (taking_in k (after_read t free s)) \<le> capacity P"
  using assms by (auto simp: taking_in_def after_read_def conn_inv_def inv_defs)

lemma poll_input_inv:
  assumes "conn_inv P tinv s"
  shows "\<exists>r b' s'. poll_input P cx (b, s) = Some (r, b', s') \<and> conn_inv P tinv s'"
proof -
  obtain sp b1 where "spend b = (sp, b1)" by fastforce
  from poll_input_eq [OF assms this, of cx] obtain r free t where
    t: "rx_len s + length free = capacity P" "conn_inv P tinv (after_read t free s)" and
    eq: "poll_input P cx (b, s) =
      (if \<not> sp then Some (Inr Yield, b1, s)
       else input_outcome P r (length free) b1 (after_read t free s))" .
  have "\<exists>s'. process_input P (taking_in (min n (length free)) (after_read t free s)) = Some s' \<and> conn_inv P tinv s'" for n
    using process_input_inv [OF taking_in_core [OF t(2,1), of "min n (length free)"]] by auto
  then have "\<exists>r b' s'. Option.bind (process_input P (taking_in (min n (length free)) (after_read t free s)))
      (\<lambda>s. Some (Inr Progress, b1, s)) = Some (r, b', s') \<and> conn_inv P tinv s'" for n
    by (metis bind.bind_lunit)
  then show ?thesis unfolding eq input_outcome_def using t(2) assms by (auto split: poll.split sum.split)
qed

lemma poll_timer_inv:
  assumes "conn_inv P tinv s"
  shows "\<exists>r b' s'. poll_timer P cx i (b, s) = Some (r, b', s') \<and> conn_inv P tinv s'"
proof (cases "tx s = TxWaiting")
  case True
  obtain p c where "c_poll_deadline (clock P) cx (tx_deadline s) (timer s) = (p, c)" by fastforce
  then show ?thesis
    using True conn_inv_timer [OF assms] add_checked_less [of "tx_retries s" "max_retries (config s)"]
      assms
    by (auto simp: poll_timer_def Let_def not_le split: option.splits)
next
  case False
  with assms show ?thesis by (simp add: poll_timer_def)
qed

lemma step_inv:
  assumes "conn_inv P tinv s"
  shows "\<exists>r b' s'. step P cx (b, s) = Some (r, b', s') \<and> conn_inv P tinv s'"
proof -
  obtain r1 b1 s1 where o: "poll_output P cx (b, s) = Some (r1, b1, s1)" "conn_inv P tinv s1"
    using poll_output_inv [OF assms] by blast
  obtain r2 b2 s2 where i: "poll_input P cx (b1, s1) = Some (r2, b2, s2)" "conn_inv P tinv s2"
    using poll_input_inv [OF o(2)] by blast
  show ?thesis
  proof (cases r1; cases r2)
    fix w1 w2
    assume "r1 = Inr w1" "r2 = Inr w2"
    moreover obtain r3 b3 s3 where "poll_timer P cx w2 (b2, s2) = Some (r3, b3, s3)" "conn_inv P tinv s3"
      using poll_timer_inv [OF i(2)] by blast
    ultimately show ?thesis using o i by (cases r3) (auto simp: step_def)
  qed (use o i in \<open>auto simp: step_def\<close>)
qed

lemma drive_loop_inv:
  "conn_inv P tinv s \<Longrightarrow>
     \<exists>w b' s'. drive_loop P cx (b, s) = Some (w, b', s') \<and> conn_inv P tinv s'"
proof (induction b arbitrary: s rule: less_induct)
  case (less b)
  obtain r b1 s1 where st: "step P cx (b, s) = Some (r, b1, s1)" "conn_inv P tinv s1"
    using step_inv [OF less.prems] by blast
  show ?case
  proof (cases "r = Inr Progress")
    case True
    with st step_budget(2) [OF st(1)] less.IH show ?thesis
      by (subst drive_loop.simps) simp
  next
    case False
    with st show ?thesis
      by (subst drive_loop.simps)
        (auto simp: conn_inv_fail conn_inv_woken split: sum.splits work.splits)
  qed
qed

lemma drive_inv:
  "conn_inv P tinv s \<Longrightarrow> \<exists>w b' s'. drive P cx (b, s) = Some (w, b', s') \<and> conn_inv P tinv s'"
  using drive_loop_inv [of s cx b] by (auto simp: drive_def)

end

end
