(* ===== verification/Connection_Polls.thy ===== *)
theory Connection_Polls
  imports Connection_Inv
begin

text \<open>
  The operations of the application keep the invariant and do not panic, on every link that keeps
  the laws of \<open>Transport\<close>: a connection over such a link is such a link itself.
\<close>

section \<open>Waiters and failure\<close>

lemma wake_inv: "conn_inv P tinv s \<Longrightarrow> conn_inv P tinv (wake op s)"
  by (auto simp: wake_def conn_inv_def inv_defs split: option.splits)

lemma fold_wake_inv:
  "conn_inv P tinv s \<Longrightarrow>
     conn_inv P tinv (fold (\<lambda>op s. if p op s then s else if q op s then wake op s else s) ops s)"
  by (induction ops arbitrary: s) (auto simp: wake_inv)

lemma notify_inv: "conn_inv P tinv s \<Longrightarrow> conn_inv P tinv (notify op c s)"
  unfolding notify_def Let_def by (rule fold_wake_inv)

lemma finish_inv: "conn_inv P tinv s \<Longrightarrow> conn_inv P tinv (snd (finish op cx p s))"
  by (simp add: finish_def Let_def notify_inv conn_inv_waiters)

lemma fst_finish [simp]: "fst (finish op cx p s) = p"
  by (simp add: finish_def Let_def)

lemma finish_ok:
  assumes "conn_inv P tinv s"
  obtains s' where "finish op cx p s = (p, s')" "conn_inv P tinv s'"
  using that [of "snd (finish op cx p s)"] finish_inv [OF assms, of op cx p]
  by (simp add: prod_eq_iff)

lemma failure_inv: "conn_inv P tinv s \<Longrightarrow> conn_inv P tinv (snd (failure s))"
  by (auto simp: failure_def conn_inv_health split: health.splits)

lemma failure_None: "fst (failure s) = None \<Longrightarrow> health s = HealthOk \<and> snd (failure s) = s"
  by (auto simp: failure_def split: health.splits)

lemma fail_unhealthy: "health (fail e s) \<noteq> HealthOk"
  by (auto simp: fail_def Let_def split: health.splits)

lemma cancel_pending_inv:
  assumes "conn_inv P tinv s"
  shows "conn_inv P tinv (cancel_pending operation s)"
proof -
  have "conn_inv P tinv (fold (\<lambda>op s. if op \<noteq> o' then wake op s else s) ops s)"
    if "conn_inv P tinv s" for o' ops and s :: "('a, 'b, 'c) reliable"
    using that by (induction ops arbitrary: s) (auto simp: wake_inv)
  then show ?thesis
    using assms by (simp add: cancel_pending_def Let_def conn_inv_waiters)
qed

section \<open>Accepting a packet\<close>

lemma unat_u32_max: "unat (- 1 :: u32) = 4294967295"
  by (simp add: unsigned_minus_1_eq_mask mask_eq_exp_minus_1)

definition queued ::
  "nat \<times> u8 list \<times> u8 list \<Rightarrow> ('t, 'c, 'e) reliable \<Rightarrow> ('t, 'c, 'e) reliable" where
  "queued enc s = (case enc of (n, scr, fr) \<Rightarrow>
     s\<lparr>scratch := scr, tx_frame := fr, tx_len := n, tx_next := tx_next s + 1, tx_retries := 0,
       tx := TxQueued\<rparr>)"

lemma queue_data:
  assumes "conn_inv P tinv s" "write_ready s" "\<not> tx_next s > ucast (- 1 :: u32)"
    and "payload \<noteq> []" "length payload \<le> MAX_PAYLOAD P"
  shows "\<exists>enc. encode_data (session (config s)) (ucast (tx_next s)) payload (scratch s) (tx_frame s)
      = Some enc \<and>
    add_checked (tx_next s) 1 = Some (tx_next s + 1) \<and> conn_inv P tinv (queued enc s)"
proof -
  let ?p = "Data (session (config s)) (ucast (tx_next s)) payload"
  from assms(4,5) have fits: "length (packet_frame ?p) \<le> capacity P"
      "OVERHEAD + length payload \<le> capacity P"
    by (auto intro!: packet_frame_data_fits simp: MAX_PAYLOAD_def)
  have len: "length (tx_frame s) = capacity P" "length (scratch s) = capacity P"
    using assms(1) by (simp_all add: conn_inv_def inv_defs)
  let ?fr = "packet_frame ?p @ drop (length (packet_frame ?p)) (tx_frame s)"
  let ?scr = "packet_bytes ?p @ drop (OVERHEAD + length payload) (scratch s)"
  let ?n = "length (packet_frame ?p)"
  have enc: "encode_data (session (config s)) (ucast (tx_next s)) payload (scratch s) (tx_frame s) =
      Some (?n, ?scr, ?fr)"
    using fits len by (simp add: encode_data_eq)
  have next_le: "unat (tx_next s) \<le> 4294967295"
    using assms(3) by (simp add: not_less word_le_nat_alt unat_u32_max)
  then have next_seq: "add_checked (tx_next s) 1 = Some (tx_next s + 1)"
      "unat (tx_next s + 1) = unat (tx_next s) + 1"
    using add_checked_u64 [of "tx_next s"] by auto
  then have pos: "0 < tx_next s + 1" by (simp add: word_less_nat_alt)
  have "holds_frame ?fr ?n ?p" by (simp add: holds_frame_def)
  then have "tx_frame_ok P (queued (?n, ?scr, ?fr) s)"
    using assms(4,5) pos by (auto simp: tx_frame_ok_def queued_def)
  moreover have "length ?fr = capacity P" "length ?scr = capacity P"
    using fits len by (simp_all add: length_packet_bytes)
  ultimately have "conn_inv P tinv (queued (?n, ?scr, ?fr) s)"
    using assms(1,2) next_le next_seq(2)
    by (auto simp: queued_def conn_inv_def core_inv_def buffers_inv_def tx_inv_def out_inv_def
        rx_inv_def input_inv_def ack_frame_ok_def data_out_busy_eq write_ready_def)
  with enc next_seq(1) show ?thesis by blast
qed

context reliable_link
begin

lemma queue_packet_inv:
  assumes "conn_inv P tinv s" "buf \<noteq> []"
  shows "\<exists>r s'. queue_packet P cx buf s = Some (r, s') \<and> conn_inv P tinv s' \<and>
    (\<forall>n. r = Ready (Inr n) \<longrightarrow> n \<le> length buf)"
proof -
  obtain w b s1 where d: "drive P cx (new_budget, s) = Some (w, b, s1)" and s1: "conn_inv P tinv s1"
    using drive_inv [OF assms(1)] by blast
  define s2 where "s2 = (if write_ready s1 \<and> tx_next s1 > ucast (- 1 :: u32)
      then fail SequenceExhausted s1 else s1)"
  have s2: "conn_inv P tinv s2" using s1 by (simp add: s2_def conn_inv_fail)
  obtain err s3 where f: "failure s2 = (err, s3)" by fastforce
  show ?thesis
  proof (cases err)
    case (Some e)
    then show ?thesis
      using d f failure_inv [OF s2] by (auto simp: queue_packet_def Let_def s2_def [symmetric])
  next
    case None
    with f failure_None [of s2] have ok: "health s2 = HealthOk" "s3 = s2" by auto
    then have s2_eq: "s2 = s1" using fail_unhealthy [of SequenceExhausted s1] by (auto simp: s2_def)
    show ?thesis
    proof (cases "write_ready s1")
      case False
      then show ?thesis
        using d f None ok(2) s2 unfolding s2_eq by (simp add: queue_packet_def Let_def)
    next
      case True
      have seq: "\<not> tx_next s1 > ucast (- 1 :: u32)"
        using ok(1) True fail_unhealthy [of SequenceExhausted s1] by (auto simp: s2_def)
      let ?n = "min (length buf) (MAX_PAYLOAD P)"
      have "buffers_inv P s1" using s1 by (rule conn_inv_parts)
      then have payload: "take ?n buf \<noteq> []" "length (take ?n buf) \<le> MAX_PAYLOAD P"
        using assms(2) by (auto simp: buffers_inv_def)
      obtain enc where enc: "encode_data (session (config s1)) (ucast (tx_next s1)) (take ?n buf)
          (scratch s1) (tx_frame s1) = Some enc" "add_checked (tx_next s1) 1 = Some (tx_next s1 + 1)"
          "conn_inv P tinv (queued enc s1)"
        using queue_data [OF s1 True seq payload] by blast
      have sl: "slice 0 ?n buf = Some (take ?n buf)" by (simp add: slice_def)
      obtain w' b' s' where d': "drive P cx (b, queued enc s1) = Some (w', b', s')" "conn_inv P tinv s'"
        using drive_inv [OF enc(3)] by blast
      have eq: "queue_packet P cx buf s =
        (if w \<noteq> Yield then Some (Ready (Inr ?n), s') else Some (Ready (Inr ?n), queued enc s1))"
        using d f None ok s2_eq True seq sl enc d'(1)
        by (cases enc) (simp add: queue_packet_def Let_def queued_def)
      show ?thesis unfolding eq using d'(2) enc(3) by auto
    qed
  qed
qed

lemma poll_write_inv:
  assumes "conn_inv P tinv s"
  shows "\<exists>r s'. poll_write P cx buf s = Some (r, s') \<and> conn_inv P tinv s' \<and>
    (\<forall>n. r = Ready (Inr n) \<longrightarrow> n \<le> length buf)"
proof (cases "buf = []")
  case False
  then obtain r s' where "queue_packet P cx buf s = Some (r, s')" "conn_inv P tinv s'"
      "\<forall>n. r = Ready (Inr n) \<longrightarrow> n \<le> length buf"
    using queue_packet_inv [OF assms] by blast
  with False finish_inv [of P tinv s' OpWrite cx r] show ?thesis
    by (cases "finish OpWrite cx r s'") (auto simp: poll_write_def dest: arg_cong [of _ _ fst])
qed (use assms in \<open>simp add: poll_write_def\<close>)

lemma poll_flush_inv:
  assumes "conn_inv P tinv s"
  shows "\<exists>r s'. poll_flush P cx s = Some (r, s') \<and> conn_inv P tinv s'"
proof -
  obtain w b s1 where "drive P cx (new_budget, s) = Some (w, b, s1)" "conn_inv P tinv s1"
    using drive_inv [OF assms] by blast
  moreover obtain e s2 where "failure s1 = (e, s2)" by fastforce
  moreover from calculation failure_inv [of P tinv s1] have "conn_inv P tinv s2" by simp
  from finish_ok [OF this, of OpFlush cx "case e of Some e \<Rightarrow> Ready (Inl e) | None \<Rightarrow> if flush_ready s2 then Ready (Inr ()) else Pending"]
  obtain s' where "finish OpFlush cx (case e of Some e \<Rightarrow> Ready (Inl e) | None \<Rightarrow> if flush_ready s2 then Ready (Inr ()) else Pending) s2 = ((case e of Some e \<Rightarrow> Ready (Inl e) | None \<Rightarrow> if flush_ready s2 then Ready (Inr ()) else Pending), s')" "conn_inv P tinv s'" .
  ultimately show ?thesis
    by (simp add: poll_flush_def Let_def)
qed

lemma poll_progress_inv:
  assumes "conn_inv P tinv s"
  shows "\<exists>r s'. poll_progress P cx s = Some (r, s') \<and> conn_inv P tinv s'"
proof -
  obtain w b s1 where "drive P cx (new_budget, s) = Some (w, b, s1)" "conn_inv P tinv s1"
    using drive_inv [OF assms] by blast
  moreover obtain e s2 where "failure s1 = (e, s2)" by fastforce
  moreover from calculation failure_inv [of P tinv s1] have "conn_inv P tinv s2" by simp
  from finish_ok [OF this, of OpProgress cx "case e of Some e \<Rightarrow> Ready e | None \<Rightarrow> Pending"]
  obtain s' where "finish OpProgress cx (case e of Some e \<Rightarrow> Ready e | None \<Rightarrow> Pending) s2 = ((case e of Some e \<Rightarrow> Ready e | None \<Rightarrow> Pending), s')" "conn_inv P tinv s'" .
  ultimately show ?thesis
    by (simp add: poll_progress_def Let_def)
qed

lemma poll_read_inv:
  assumes "conn_inv P tinv s"
  shows "\<exists>r buf' s'. poll_read P cx buf s = Some (r, buf', s') \<and> conn_inv P tinv s' \<and>
    length buf' = length buf \<and> (\<forall>n. r = Ready (Inr n) \<longrightarrow> n \<le> length buf)"
proof (cases "buf = []")
  case False
  obtain w b s1 where d: "drive P cx (new_budget, s) = Some (w, b, s1)" and s1: "conn_inv P tinv s1"
    using drive_inv [OF assms] by blast
  show ?thesis
  proof (cases "rx_start s1 < rx_end s1")
    case True
    let ?n = "min (length buf) (rx_end s1 - rx_start s1)"
    let ?s = "s1\<lparr>rx_start := rx_start s1 + ?n\<rparr>"
    from s1 capacity_bounds(2) [of P s1] have "rx_end s1 \<le> length (rx_payload s1)"
      by (simp add: conn_inv_def inv_defs)
    with True have sl: "slice (rx_start s1) (rx_start s1 + ?n) (rx_payload s1) =
        Some (take ?n (drop (rx_start s1) (rx_payload s1)))"
      using min.cobounded2 [of "length buf" "rx_end s1 - rx_start s1"] unfolding slice_def by auto
    obtain buf' where cp: "copy_from_slice 0 ?n (take ?n (drop (rx_start s1) (rx_payload s1))) buf
        = Some buf'" "length buf' = length buf"
      using True \<open>rx_end s1 \<le> length (rx_payload s1)\<close> by (auto simp: copy_from_slice_def)
    have "conn_inv P tinv ?s" using s1 True by (auto simp: conn_inv_def inv_defs)
    then obtain s' where "finish OpRead cx (Ready (Inr ?n) :: ('e connection_error + nat) poll) ?s =
        (Ready (Inr ?n), s')" "conn_inv P tinv s'"
      by (rule finish_ok)
    with False d True sl cp show ?thesis
      by (simp add: poll_read_def Let_def)
  next
    case no: False
    obtain e s2 where f: "failure s1 = (e, s2)" by fastforce
    let ?p = "(case e of Some e \<Rightarrow> Ready (Inl e) | None \<Rightarrow> Pending) :: ('e connection_error + nat) poll"
    have "conn_inv P tinv s2" using failure_inv [OF s1] f by simp
    then obtain s' where fin: "finish OpRead cx ?p s2 = (?p, s')" and s': "conn_inv P tinv s'"
      by (rule finish_ok)
    have "poll_read P cx buf s = Some (?p, buf, s')"
      using False no d f fin by (cases e) (simp_all add: poll_read_def Let_def)
    with s' show ?thesis by (auto split: option.splits)
  qed
qed (use assms in \<open>simp add: poll_read_def\<close>)

end

text \<open>So a connection can be the link of another one.\<close>

sublocale reliable_link \<subseteq> stacked: transport_total "reliable_ops P" "conn_inv P tinv"
proof unfold_locales
  fix s cx
  assume inv: "conn_inv P tinv s"
  show "t_poll_read (reliable_ops P) cx buf s \<noteq> None"
    and "t_poll_read (reliable_ops P) cx buf s = Some (r, buf', s') \<Longrightarrow> conn_inv P tinv s' \<and> length buf' = length buf"
    for buf r buf' s'
    using poll_read_inv [OF inv, of cx buf] by (auto simp: reliable_ops_def)
  show "t_poll_write (reliable_ops P) cx buf s \<noteq> None"
    and "t_poll_write (reliable_ops P) cx buf s = Some (r, s') \<Longrightarrow> conn_inv P tinv s'" for buf r s'
    using poll_write_inv [OF inv, of cx buf] by (auto simp: reliable_ops_def)
  show "t_poll_flush (reliable_ops P) cx s \<noteq> None"
    and "t_poll_flush (reliable_ops P) cx s = Some (f, s') \<Longrightarrow> conn_inv P tinv s'" for f s'
    using poll_flush_inv [OF inv, of cx] by (auto simp: reliable_ops_def)
qed

section \<open>Received packets\<close>

text \<open>What \<open>process_packet\<close> does, with the sequence numbers read as natural numbers\<close>

lemma process_packet_exact:
  assumes "conn_inv P tinv s"
  shows "process_packet P p s = Some (case p of
        Ack sess q \<Rightarrow>
          if sess = session (config s) \<and> tx s \<noteq> TxIdle \<and> unat q + 1 = unat (tx_next s)
          then s\<lparr>tx := TxIdle, tx_retries := 0, final_input := None\<rparr> else s
      | Data sess q payload \<Rightarrow>
          if sess = session (config s) \<and> length payload \<le> MAX_PAYLOAD P then
            if unat q = unat (rx_next s) \<and> rx_start s = rx_end s
            then s\<lparr>rx_payload := payload @ drop (length payload) (rx_payload s), rx_start := 0,
                   rx_end := length payload, rx_next := rx_next s + 1, ack_pending := Some q\<rparr>
            else if unat q + 1 = unat (rx_next s) \<and> ack_pending s = None
            then s\<lparr>ack_pending := Some q\<rparr> else s
          else s)"
proof (cases p)
  case (Ack sess q)
  have "unat (ucast q + 1 :: u64) = unat q + 1"
    using add_checked_u64 [of "ucast q"] unat_u32_less [of q] by simp
  then have "ucast q + 1 = tx_next s \<longleftrightarrow> unat q + 1 = unat (tx_next s)"
    by (metis word_unat_eq_iff)
  with Ack show ?thesis
    using add_checked_u64 [of "ucast q"] unat_u32_less [of q] by (auto simp: process_packet_def)
next
  case (Data sess q payload)
  note parts = conn_inv_parts(3) [OF assms]
  have next_eq: "ucast q = rx_next s \<longleftrightarrow> unat q = unat (rx_next s)"
    by (metis unat_ucast_u32 word_unat_eq_iff)
  have prev: "0 < rx_next s \<and> ucast q = rx_next s - 1 \<longleftrightarrow> unat q + 1 = unat (rx_next s)"
  proof (cases "rx_next s = 0")
    case False
    then have "unat (rx_next s - 1) = unat (rx_next s) - 1" "0 < unat (rx_next s)"
      by (simp_all add: unat_minus_one unat_gt_0)
    then have "ucast q = rx_next s - 1 \<longleftrightarrow> unat q = unat (rx_next s) - 1"
      by (metis unat_ucast_u32 word_unat_eq_iff)
    with False \<open>0 < unat (rx_next s)\<close> show ?thesis by (auto simp: word_neq_0_conv)
  qed simp
  have ne: "unat q + 1 = unat (rx_next s) \<Longrightarrow> \<not> unat q = unat (rx_next s)" by simp
  have len: "length payload \<le> length (rx_payload s)" if "length payload \<le> MAX_PAYLOAD P"
    using that parts capacity_bounds(2) [OF parts] by (simp add: buffers_inv_def)
  have nx: "add_checked (rx_next s) 1 = Some (rx_next s + 1)" if "unat q = unat (rx_next s)"
    using add_checked_u64 [of "rx_next s"] unat_u32_less [of q] that by simp
  show ?thesis
    using Data next_eq prev nx len ne
    by (cases "unat q = unat (rx_next s)") (auto simp: process_packet_def copy_from_slice_def not_le)
qed

text \<open>Only the state of the receiver matters, not the link.\<close>

lemma conn_inv_any: "conn_inv P tinv s \<Longrightarrow> conn_inv P (\<lambda>_. True) (s\<lparr>transport := t\<rparr>)"
  by (simp add: conn_inv_def inv_defs)

lemmas process_packet_any = process_packet_exact [OF conn_inv_any]

end
