(* ===== verification/Connection_Input.thy ===== *)
theory Connection_Input
  imports Connection_Polls
begin

text \<open>
  What the input of a connection means, byte by byte. \<open>process_input\<close> works on whatever a read has
  put in its buffer; here it is refined to an abstract receiver that takes one byte at a time and
  keeps only the bytes of the frame under way. So the way the link cuts the stream into reads makes
  no difference, and any frame is processed as soon as a delimiter has ended what came before it.
\<close>

section \<open>The abstract receiver\<close>

text \<open>The packet in the body of a frame, if it is one that fits the connection's buffers\<close>

definition frame_packet :: "nat \<Rightarrow> u8 list \<Rightarrow> packet option" where
  "frame_packet n body =
     (case unstuff body of
        (ys, ok) \<Rightarrow> if ok \<and> length ys \<le> n then Option.bind (parse ys) id else None)"

definition rx_frame ::
  "('t, 'c, 'e) params \<Rightarrow> u8 list \<Rightarrow> ('t, 'c, 'e) reliable \<Rightarrow> ('t, 'c, 'e) reliable option" where
  "rx_frame P body s =
     (case frame_packet (capacity P) body of
        Some p \<Rightarrow> process_packet P p s
      | None \<Rightarrow> Some s)"

text \<open>
  Its state: the bytes of the frame under way, whether the rest of an overlong frame is being
  discarded, and the connection without its input buffer.
\<close>

type_synonym ('t, 'c, 'e) rx_view = "u8 list \<times> bool \<times> ('t, 'c, 'e) reliable"

definition rx_core :: "('t, 'c, 'e) reliable \<Rightarrow> ('t, 'c, 'e) reliable" where
  "rx_core s = s\<lparr>rx_buf := [], rx_len := 0, rx_discarding := False, scratch := []\<rparr>"

definition rx_view :: "('t, 'c, 'e) reliable \<Rightarrow> ('t, 'c, 'e) rx_view" where
  "rx_view s = (take (rx_len s) (rx_buf s), rx_discarding s, rx_core s)"

definition rx_byte ::
  "('t, 'c, 'e) params \<Rightarrow> u8 \<Rightarrow> ('t, 'c, 'e) rx_view \<Rightarrow> ('t, 'c, 'e) rx_view option" where
  "rx_byte P b v =
     (case v of (part, discarding, s) \<Rightarrow>
        if b = 0 then
          if discarding \<or> part = [] then Some ([], False, s)
          else map_option (\<lambda>s. ([], False, s)) (rx_frame P part s)
        else if discarding \<or> length part + 1 = capacity P then Some ([], True, s)
        else Some (part @ [b], False, s))"

fun rx_bytes ::
  "('t, 'c, 'e) params \<Rightarrow> u8 list \<Rightarrow> ('t, 'c, 'e) rx_view \<Rightarrow> ('t, 'c, 'e) rx_view option" where
  "rx_bytes P [] v = Some v"
| "rx_bytes P (b # bs) v = Option.bind (rx_byte P b v) (rx_bytes P bs)"

lemma rx_bytes_append: "rx_bytes P (as @ bs) v = Option.bind (rx_bytes P as v) (rx_bytes P bs)"
  by (induction as arbitrary: v) (auto split: bind_split)

lemma rx_bytes_discarding: "0 \<notin> set bs \<Longrightarrow> rx_bytes P bs ([], True, s) = Some ([], True, s)"
  by (induction bs) (auto simp: rx_byte_def)

lemma rx_bytes_part:
  "0 \<notin> set bs \<Longrightarrow> length part + length bs < capacity P \<Longrightarrow>
     rx_bytes P bs (part, False, s) = Some (part @ bs, False, s)"
  by (induction bs arbitrary: part) (auto simp: rx_byte_def)

text \<open>A frame with its delimiter: nothing before it is under way.\<close>

lemma rx_bytes_frame:
  assumes "0 \<notin> set body" "length body < capacity P"
  shows "rx_bytes P (body @ [0]) ([], False, s) =
    (if body = [] then Some ([], False, s) else map_option (\<lambda>s. ([], False, s)) (rx_frame P body s))"
  using assms rx_bytes_part [of body "[]" P s] 
  by (cases "rx_frame P body s") (simp_all add: rx_bytes_append rx_byte_def)

lemma rx_bytes_overlong:
  assumes "0 \<notin> set bs" "length bs = capacity P" "0 < capacity P"
  shows "rx_bytes P bs ([], False, s) = Some ([], True, s)"
proof -
  obtain b bs' where "bs = bs' @ [b]" using assms(2,3) by (cases bs rule: rev_cases) auto
  with assms show ?thesis
    using rx_bytes_part [of bs' "[]" P s] by (auto simp: rx_bytes_append rx_byte_def)
qed

section \<open>The connection refines it\<close>

text \<open>A packet does not touch, and does not read, the input buffer and the scratch buffer.\<close>

lemma process_packet_core:
  "process_packet P p (rx_core s) = map_option rx_core (process_packet P p s)"
  by (auto simp: process_packet_def rx_core_def split: packet.split bind_split)

lemma rx_core_scratch [simp]: "rx_core (s\<lparr>scratch := a\<rparr>) = rx_core s"
  by (simp add: rx_core_def)

lemma rx_core_updates [simp]:
  "rx_core (s\<lparr>rx_discarding := d\<rparr>) = rx_core s"
  "rx_core (s\<lparr>rx_len := n\<rparr>) = rx_core s"
  "rx_core (s\<lparr>rx_buf := b\<rparr>) = rx_core s"
  by (simp_all add: rx_core_def)

lemma process_frame_core:
  assumes "slice 0 (stop + 1) (rx_buf s) = Some (body @ [0])" "0 \<notin> set body" "body \<noteq> []"
    and "length (scratch s) = capacity P"
  shows "map_option rx_core (process_frame P stop s) = rx_frame P body (rx_core s)"
proof -
  obtain ys ok where u: "unstuff body = (ys, ok)" by fastforce
  have dec: "decode_to_slice (body @ [0]) (scratch s) =
    (if capacity P < length ys then (Inl (Destination OutOfBounds), take (length (scratch s)) ys)
     else (if ok then Inr \<lparr>frame_len = length ys, frame_consumed = length body + 1\<rparr>
           else Inl (InvalidFrame \<lparr>progress_consumed = of_nat (length body + 1),
                       progress_written = of_nat (length ys), progress_frame_len = None\<rparr>),
           ys @ drop (length ys) (scratch s)))"
    using decode_delimited [OF assms(2,3), of 0 "[]" "scratch s"] u assms(4) by simp
  obtain r where "parse ys = Some r" using parse_total by blast
  with u dec assms(1,4) show ?thesis
    by (cases r) (auto simp: process_frame_def rx_frame_def frame_packet_def slice_def process_packet_core
        simp flip: process_packet_core [of P _ "s\<lparr>scratch := _\<rparr>", simplified])
qed

lemma position_split:
  assumes "position (\<lambda>byte. byte = 0) (xs :: u8 list) = Some stop"
  obtains body rest where "xs = body @ 0 # rest" "length body = stop" "0 \<notin> set body"
proof
  from position_Some [OF assms] have stop: "stop < length xs" "xs ! stop = 0"
      "0 \<notin> set (take stop xs)" by auto
  then show "xs = take stop xs @ 0 # drop (stop + 1) xs"
    by (metis Suc_eq_plus1 id_take_nth_drop)
  show "length (take stop xs) = stop" using stop by simp
  show "0 \<notin> set (take stop xs)" by (rule stop(3))
qed

lemma handle_frame_view:
  assumes "core_inv P tinv s" "handle_frame P stop s = Some s'" "rx_len s \<le> capacity P"
    and "take (rx_len s) (rx_buf s) = body @ 0 # rest" "0 \<notin> set body" "length body = stop"
  shows "rx_bytes P (body @ [0]) ([], rx_discarding s, rx_core s) = Some ([], False, rx_core s')"
proof (cases "rx_discarding s")
  case True
  with assms(2,5) show ?thesis
    by (auto simp: handle_frame_def rx_bytes_append rx_bytes_discarding rx_byte_def)
next
  case False
  from assms(1) have bufs: "length (rx_buf s) = capacity P" "length (scratch s) = capacity P"
    by (simp_all add: inv_defs)
  have "length (take (rx_len s) (rx_buf s)) = length body + 1 + length rest"
    by (simp add: assms(4))
  then have short: "stop + 1 \<le> rx_len s" using assms(3,6) bufs by simp
  have "take (stop + 1) (rx_buf s) = take (stop + 1) (take (rx_len s) (rx_buf s))"
    using short by (simp add: min_def)
  also have "\<dots> = body @ [0]" unfolding assms(4) using assms(6) by simp
  finally have "slice 0 (stop + 1) (rx_buf s) = Some (body @ [0])"
    using short assms(3) bufs by (simp add: slice_def)
  note frame = process_frame_core [OF this assms(5), of P]
  have "length body < capacity P" using short assms(3,6) by simp
  note eq = rx_bytes_frame [OF assms(5) this, of "rx_core s"]
  have d: "rx_discarding s = False" using False by simp
  show ?thesis
    unfolding d eq using frame bufs assms(2,6) False
    by (cases "body = []") (auto simp: handle_frame_def)
qed

lemma drop_frame_view:
  assumes "take (rx_len s) (rx_buf s) = body @ 0 # rest" "length body = stop"
    and "rx_len s \<le> length (rx_buf s)"
  shows "rx_view (drop_frame stop s) = (rest, rx_discarding s, rx_core s)"
proof -
  have len: "rx_len s = stop + 1 + length rest"
    using arg_cong [OF assms(1), of length] assms(2,3) by simp
  have "take (length rest) (drop (stop + 1) (rx_buf s)) = drop (stop + 1) (take (rx_len s) (rx_buf s))"
    by (simp add: len drop_take)
  also have "\<dots> = rest" unfolding assms(1) using assms(2) by simp
  finally show ?thesis by (simp add: rx_view_def drop_frame_def len)
qed

theorem process_input_refines:
  assumes "core_inv P tinv s" "rx_len s \<le> capacity P"
  shows "map_option rx_view (process_input P s) =
    rx_bytes P (take (rx_len s) (rx_buf s)) ([], rx_discarding s, rx_core s)"
  using assms
proof (induction "rx_len s" arbitrary: s rule: less_induct)
  case less
  from less.prems have buf: "rx_len s \<le> length (rx_buf s)" by (simp add: inv_defs)
  let ?bytes = "take (rx_len s) (rx_buf s)"
  show ?case
  proof (cases "position (\<lambda>byte. byte = 0) ?bytes")
    case None
    then have nz: "0 \<notin> set ?bytes" by (auto simp: position_None)
    have cap: "0 < capacity P" "length ?bytes = rx_len s"
      using less.prems(1) buf capacity_bounds(1) [of P s] by (simp_all add: core_inv_def)
    have "rx_bytes P ?bytes ([], rx_discarding s, rx_core s) =
      Some (if rx_discarding s \<or> rx_len s = capacity P then ([], True, rx_core s)
            else (?bytes, False, rx_core s))"
    proof (cases "rx_discarding s")
      case True
      then show ?thesis using rx_bytes_discarding [OF nz] by simp
    next
      case False
      then show ?thesis
        using rx_bytes_overlong [OF nz _ cap(1)] rx_bytes_part [OF nz, of "[]" P] cap(2) le_neq_implies_less [OF less.prems(2)]
        by (cases "rx_len s = capacity P") auto
    qed
    then show ?thesis
      using None by (simp add: process_input_unfold [OF buf] rx_view_def)
  next
    case (Some stop)
    obtain body rest where split: "?bytes = body @ 0 # rest" "length body = stop" "0 \<notin> set body"
      using position_split [OF Some] by blast
    from process_input_step [OF less.prems Some] obtain s' where
      s': "handle_frame P stop s = Some s'" "process_input P s = process_input P (drop_frame stop s')"
        "core_inv P tinv (drop_frame stop s')" "same_output s s'"
        "rx_len (drop_frame stop s') < rx_len s" .
    have stop: "stop < length (rx_buf s)"
      using arg_cong [OF split(1), of length] split(2) buf by simp
    from handle_frame_inv [OF less.prems(1) stop] s'(1)
    have same: "rx_buf s' = rx_buf s" "rx_len s' = rx_len s" "\<not> rx_discarding s'" by auto
    have view: "rx_view (drop_frame stop s') = (rest, False, rx_core s')"
      using drop_frame_view [of s' body rest stop] split same buf by simp
    have "rx_len (drop_frame stop s') \<le> capacity P" using s'(5) less.prems(2) by linarith
    from less.hyps [OF s'(5) s'(3) this]
    have "map_option rx_view (process_input P s) = rx_bytes P rest ([], False, rx_core s')"
      using view by (simp add: s'(2) rx_view_def)
    moreover have "rx_bytes P (body @ [0]) ([], rx_discarding s, rx_core s) = Some ([], False, rx_core s')"
      using handle_frame_view [OF less.prems(1) s'(1) less.prems(2) split(1,3,2)] .
    ultimately show ?thesis
      using rx_bytes_append [of P "body @ [0]" rest] by (simp add: split(1))
  qed
qed

section \<open>Consequences\<close>

text \<open>The bytes under way are those the abstract receiver has kept.\<close>

lemma input_inv_bytes:
  assumes "input_inv P s"
  shows "rx_bytes P (take (rx_len s) (rx_buf s)) ([], rx_discarding s, c) =
    Some (take (rx_len s) (rx_buf s), rx_discarding s, c)"
proof (cases "rx_discarding s")
  case True
  with assms show ?thesis by (simp add: input_inv_def)
next
  case False
  from assms have "length (take (rx_len s) (rx_buf s)) < capacity P" "0 \<notin> set (take (rx_len s) (rx_buf s))"
    by (simp_all add: input_inv_def min_less_iff_disj)
  with False show ?thesis
    using rx_bytes_part [of "take (rx_len s) (rx_buf s)" "[]" P c] by simp
qed

lemma input_inv_view:
  "input_inv P s \<Longrightarrow>
     rx_bytes P (take (rx_len s) (rx_buf s)) ([], rx_discarding s, rx_core s) = Some (rx_view s)"
  by (simp add: input_inv_bytes rx_view_def)

text \<open>
  A read of \<open>bs\<close> into the free part of the buffer, processed by the connection, is the abstract
  receiver fed with \<open>bs\<close>.
\<close>

definition received :: "u8 list \<Rightarrow> ('t, 'c, 'e) reliable \<Rightarrow> ('t, 'c, 'e) reliable" where
  "received bs s =
     s\<lparr>rx_buf := take (rx_len s) (rx_buf s) @ bs @ drop (rx_len s + length bs) (rx_buf s),
       rx_len := rx_len s + length bs\<rparr>"

lemma process_received:
  assumes "conn_inv P tinv s" "rx_len s + length bs \<le> capacity P"
  shows "map_option rx_view (process_input P (received bs s)) = rx_bytes P bs (rx_view s)"
    and "\<exists>s'. process_input P (received bs s) = Some s' \<and> conn_inv P tinv s' \<and> same_output s s'"
proof -
  let ?r = "received bs s"
  from assms have buf: "rx_len s + length bs \<le> length (rx_buf s)"
    by (simp add: conn_inv_def inv_defs)
  with assms have inv: "core_inv P tinv ?r"
    by (simp add: conn_inv_def inv_defs received_def)
  have len: "rx_len ?r \<le> capacity P" using assms(2) by (simp add: received_def)
  have bytes: "take (rx_len ?r) (rx_buf ?r) = take (rx_len s) (rx_buf s) @ bs"
    using buf by (cases bs) (auto simp: received_def min_def)
  have same: "rx_discarding ?r = rx_discarding s" "rx_core ?r = rx_core s"
    by (simp_all add: received_def rx_core_def)
  show "map_option rx_view (process_input P ?r) = rx_bytes P bs (rx_view s)"
    using process_input_refines [OF inv len] input_inv_view [of P s] assms(1)
    by (simp add: bytes same rx_bytes_append conn_inv_def)
  have "same_output s s' = same_output ?r s'" for s' by (simp add: same_output_def received_def)
  then show "\<exists>s'. process_input P ?r = Some s' \<and> conn_inv P tinv s' \<and> same_output s s'"
    using process_input_inv [OF inv len] by blast
qed

text \<open>A frame between delimiters, after anything\<close>

definition rx_flush :: "('t, 'c, 'e) params \<Rightarrow> ('t, 'c, 'e) rx_view \<Rightarrow> ('t, 'c, 'e) rx_view option" where
  "rx_flush P v = rx_byte P 0 v"

lemma frame_packet_frame:
  assumes "valid_packet p" "length (packet_bytes p) \<le> n"
  shows "frame_packet n (cobs (packet_bytes p)) = Some p"
  using assms by (simp add: frame_packet_def unstuff_cobs parse_packet_bytes)

lemma rx_flush_parts: "rx_flush P v = Some w \<Longrightarrow> \<exists>s. w = ([], False, s)"
  by (cases v) (auto simp: rx_flush_def rx_byte_def split: if_splits)

lemma rx_bytes_packet:
  assumes "valid_packet p" "length (packet_frame p) \<le> capacity P + 1" "rx_flush P v = Some ([], False, s)"
  shows "rx_bytes P (packet_frame p) v = map_option (\<lambda>s. ([], False, s)) (process_packet P p s)"
proof -
  let ?c = "cobs (packet_bytes p)"
  have c: "0 \<notin> set ?c" "?c \<noteq> []" "length ?c < capacity P"
    using assms(2) cobs_no_zero by (auto simp: packet_frame_def)
  then have "length (packet_bytes p) \<le> capacity P"
    using length_cobs_gt [of "packet_bytes p"] by linarith
  then have "rx_frame P ?c s = process_packet P p s"
    using assms(1) by (simp add: rx_frame_def frame_packet_frame)
  then show ?thesis
    using assms(3) rx_bytes_frame [OF c(1,3), of s] c(2)
    by (simp add: packet_frame_def rx_flush_def)
qed

section \<open>Sequences of reads\<close>

text \<open>Reads that each fit in the free part of the buffer, as \<open>poll_input\<close> makes them\<close>

fun receive_all ::
  "('t, 'c, 'e) params \<Rightarrow> u8 list list \<Rightarrow> ('t, 'c, 'e) reliable \<Rightarrow> ('t, 'c, 'e) reliable option" where
  "receive_all P [] s = Some s"
| "receive_all P (bs # bss) s =
     (if rx_len s + length bs \<le> capacity P
      then Option.bind (process_input P (received bs s)) (receive_all P bss) else None)"

lemma receive_all_view:
  "conn_inv P tinv s \<Longrightarrow> receive_all P bss s = Some s' \<Longrightarrow>
     rx_bytes P (concat bss) (rx_view s) = Some (rx_view s') \<and> conn_inv P tinv s' \<and> same_output s s'"
proof (induction bss arbitrary: s)
  case Nil
  then show ?case by simp
next
  case (Cons bs bss)
  from Cons.prems(2) have fits: "rx_len s + length bs \<le> capacity P" by (auto split: if_splits)
  from process_received [OF Cons.prems(1) fits] obtain s1 where
    s1: "process_input P (received bs s) = Some s1" "rx_bytes P bs (rx_view s) = Some (rx_view s1)"
      "conn_inv P tinv s1" "same_output s s1" by auto
  with Cons.prems(2) fits have "receive_all P bss s1 = Some s'" by simp
  from Cons.IH [OF s1(3) this] s1 show ?case
    by (auto simp: rx_bytes_append intro: same_output_trans)
qed

end
