(* ===== verification/Connection_Wakeups.thy ===== *)
theory Connection_Wakeups
  imports Connection_Input
begin

text \<open>
  Which waiters the connection keeps and which it wakes. Every poll ends in \<open>finish\<close>, so what
  \<open>finish\<close> leaves is what every poll leaves: a waiter stays stored only while its operation cannot
  complete.
\<close>

section \<open>Waking a group of waiters\<close>

text \<open>The condition under which a stored waiter is due\<close>

definition op_ready :: "op \<Rightarrow> ('t, 'c, 'e) reliable \<Rightarrow> bool" where
  "op_ready op s \<longleftrightarrow>
     (case op of
        OpRead \<Rightarrow> rx_start s < rx_end s
      | OpWrite \<Rightarrow> tx s = TxIdle \<and> (\<forall>k. out s \<noteq> Writing DataFrame k) \<and> out s \<noteq> Flushing DataFrame
      | OpFlush \<Rightarrow> tx s = TxIdle \<and> out s = OutIdle \<and> ack_pending s = None
      | OpProgress \<Rightarrow> False)"

lemma op_ready_alt:
  "op_ready op s \<longleftrightarrow>
     (case op of
        OpRead \<Rightarrow> rx_start s < rx_end s
      | OpWrite \<Rightarrow> write_ready s
      | OpFlush \<Rightarrow> flush_ready s
      | OpProgress \<Rightarrow> False)"
  by (auto simp: op_ready_def write_ready_def flush_ready_def data_out_busy_def split: op.split out.split frame.split)

definition set_waiters ::
  "waiters \<Rightarrow> waker list \<Rightarrow> ('t, 'c, 'e) reliable \<Rightarrow> ('t, 'c, 'e) reliable" where
  "set_waiters w new s = s\<lparr>waiters := w, woken := woken s @ new\<rparr>"

lemma set_waiters_fields [simp]:
  "waiters (set_waiters w new s) = w" "woken (set_waiters w new s) = woken s @ new"
  "health (set_waiters w new s) = health s" "rx_start (set_waiters w new s) = rx_start s"
  "rx_end (set_waiters w new s) = rx_end s" "transport (set_waiters w new s) = transport s"
  "timer (set_waiters w new s) = timer s" "tx_next (set_waiters w new s) = tx_next s"
  "set_waiters w' new' (set_waiters w new s) = set_waiters w' (new @ new') s"
  "set_waiters (waiters s) [] s = s"
  by (simp_all add: set_waiters_def)

lemma set_waiters_conditions [simp]:
  "op_ready op (set_waiters w new s) = op_ready op s"
  "is_healthy (set_waiters w new s) = is_healthy s"
  "write_ready (set_waiters w new s) = write_ready s"
  "flush_ready (set_waiters w new s) = flush_ready s"
  by (simp_all add: set_waiters_def op_ready_alt is_healthy_def write_ready_def data_out_busy_def
      flush_ready_def split: op.split)

definition stored :: "waiters \<Rightarrow> op list \<Rightarrow> waker list" where
  "stored w ops = List.map_filter w ops"

lemma stored_simps [simp]:
  "stored w [] = []"
  "stored w (op # ops) = (case w op of None \<Rightarrow> stored w ops | Some x \<Rightarrow> x # stored w ops)"
  by (simp_all add: stored_def List.map_filter_simps split: option.split)

lemma stored_cong: "(\<And>op. op \<in> set ops \<Longrightarrow> w op = w' op) \<Longrightarrow> stored w ops = stored w' ops"
  by (induction ops) (auto split: option.split)

lemma wake_eq: "wake op s = set_waiters ((waiters s)(op := None)) (stored (waiters s) [op]) s"
  by (auto simp: wake_def set_waiters_def fun_upd_idem split: option.split)

lemma fold_wake:
  assumes "distinct ops" "\<And>op w new s'. due op (set_waiters w new s') = due op s'"
  shows "fold (\<lambda>op s. if due op s then wake op s else s) ops s =
    set_waiters (\<lambda>op. if op \<in> set ops \<and> due op s then None else waiters s op)
      (stored (waiters s) (filter (\<lambda>op. due op s) ops)) s"
  using assms(1)
proof (induction ops arbitrary: s)
  case Nil
  then show ?case by simp
next
  case (Cons op ops)
  show ?case
  proof (cases "due op s")
    case True
    let ?w = "(waiters s)(op := None)"
    have "stored ?w (filter (\<lambda>op. due op s) ops) = stored (waiters s) (filter (\<lambda>op. due op s) ops)"
      using Cons.prems by (intro stored_cong) auto
    moreover have "(\<lambda>o'. if o' \<in> set ops \<and> due o' s then None else ?w o') =
        (\<lambda>o'. if o' \<in> set (op # ops) \<and> due o' s then None else waiters s o')"
      using True by auto
    ultimately show ?thesis
      using True Cons by (simp add: wake_eq assms(2) cong: if_cong split: option.split)
  next
    case False
    then have "(\<lambda>o'. if o' \<in> set ops \<and> due o' s then None else waiters s o') =
        (\<lambda>o'. if o' \<in> set (op # ops) \<and> due o' s then None else waiters s o')"
      by auto
    with False Cons show ?thesis by simp
  qed
qed

lemma OPS_all [simp]: "distinct OPS" "op \<in> set OPS"
  by (cases op; simp add: OPS_def)+

section \<open>\<open>finish\<close> and \<open>cancel_pending\<close>\<close>

definition due_after :: "op \<Rightarrow> bool \<Rightarrow> ('t, 'c, 'e) reliable \<Rightarrow> op \<Rightarrow> bool" where
  "due_after finished completed s op \<longleftrightarrow>
     op \<noteq> finished \<and> (completed \<or> \<not> is_healthy s \<or> op_ready op s)"

lemma notify_eq:
  "notify finished completed s =
     set_waiters (\<lambda>op. if due_after finished completed s op then None else waiters s op)
       (stored (waiters s) (filter (due_after finished completed s) OPS)) s"
proof -
  let ?due = "\<lambda>op s'. op \<noteq> finished \<and> ((completed \<or> \<not> is_healthy s) \<or> op_ready op s')"
  have "notify finished completed s = fold (\<lambda>op s. if ?due op s then wake op s else s) OPS s"
    unfolding notify_def Let_def op_ready_alt
    by (intro arg_cong [of _ _ "\<lambda>f. fold f OPS s"] ext) (simp split: if_split)
  also have "\<dots> = set_waiters (\<lambda>op. if op \<in> set OPS \<and> ?due op s then None else waiters s op)
      (stored (waiters s) (filter (\<lambda>op. ?due op s) OPS)) s"
    by (intro fold_wake) simp_all
  finally show ?thesis by (simp add: due_after_def [abs_def])
qed

lemma register_eq: "register op cx w = w(op := Some cx)"
  by (auto simp: register_def will_wake_eq split: option.split)

definition finish_waiters ::
  "op \<Rightarrow> waker \<Rightarrow> bool \<Rightarrow> ('t, 'c, 'e) reliable \<Rightarrow> waiters" where
  "finish_waiters finished cx completed s =
     (\<lambda>op. if op = finished then (if completed then None else Some cx)
           else if due_after finished completed s op then None else waiters s op)"

lemma finish_eq:
  "finish op cx p s =
     (p, set_waiters (finish_waiters op cx (is_ready p) s)
           (stored (waiters s) (filter (due_after op (is_ready p) s) OPS)) s)"
proof -
  let ?w = "if is_ready p then clear_waiter op (waiters s) else register op cx (waiters s)"
  let ?s = "s\<lparr>waiters := ?w\<rparr>"
  have s: "?s = set_waiters ?w [] s" by (simp add: set_waiters_def)
  have due: "due_after op (is_ready p) ?s = due_after op (is_ready p) s"
    unfolding s by (simp add: due_after_def fun_eq_iff)
  have "stored ?w (filter (due_after op (is_ready p) s) OPS) =
      stored (waiters s) (filter (due_after op (is_ready p) s) OPS)"
    by (rule stored_cong) (auto simp: due_after_def clear_waiter_def register_eq)
  moreover have "(\<lambda>o'. if due_after op (is_ready p) s o' then None else ?w o') =
      finish_waiters op cx (is_ready p) s"
    by (auto simp: finish_waiters_def due_after_def clear_waiter_def register_eq fun_eq_iff)
  ultimately have "notify op (is_ready p) ?s =
      set_waiters (finish_waiters op cx (is_ready p) s)
        (stored (waiters s) (filter (due_after op (is_ready p) s) OPS)) s"
    unfolding notify_eq due by (simp add: s cong: if_cong)
  then show ?thesis by (simp add: finish_def Let_def)
qed

lemma cancel_pending_eq:
  "cancel_pending operation s =
     set_waiters no_waiters
       (stored (waiters s) (filter (\<lambda>op. op \<noteq> canceled_op operation) OPS)) s"
proof -
  let ?c = "canceled_op operation"
  let ?s = "set_waiters (clear_waiter ?c (waiters s)) [] s"
  have "cancel_pending operation s = fold (\<lambda>op s. if op \<noteq> ?c then wake op s else s) OPS ?s"
    by (simp add: cancel_pending_def Let_def set_waiters_def)
  also have "\<dots> = set_waiters
      (\<lambda>op. if op \<in> set OPS \<and> op \<noteq> ?c then None else waiters ?s op)
      (stored (waiters ?s) (filter (\<lambda>op. op \<noteq> ?c) OPS)) ?s"
    by (rule fold_wake) simp_all
  also have "(\<lambda>op. if op \<in> set OPS \<and> op \<noteq> ?c then None else waiters ?s op) = no_waiters"
    by (auto simp: no_waiters_def clear_waiter_def)
  also have "stored (waiters ?s) (filter (\<lambda>op. op \<noteq> ?c) OPS) =
      stored (waiters s) (filter (\<lambda>op. op \<noteq> ?c) OPS)"
    by (rule stored_cong) (simp add: clear_waiter_def)
  finally show ?thesis by simp
qed

end
