(* ===== verification/Connection_Failure.thy ===== *)
theory Connection_Failure
  imports Connection_Wakeups
begin

text \<open>
  How a connection fails: that an error is reported once, and that a failed connection stays failed
  and leaves its link alone.
\<close>

section \<open>Health along the engine\<close>

lemma process_input_same_output: "process_input P s = Some s' \<Longrightarrow> same_output s s'"
proof (induction P s rule: process_input.induct)
  case (1 P s)
  from "1.prems" obtain received where r: "slice 0 (rx_len s) (rx_buf s) = Some received"
    by (subst (asm) process_input.simps) (auto elim!: bind_SomeE)
  show ?case
  proof (cases "position (\<lambda>byte. byte = 0) received")
    case None
    with "1.prems" r show ?thesis by (subst (asm) process_input.simps) (auto split: if_splits)
  next
    case (Some stop)
    with "1.prems" r obtain s1 buf n where
      h: "handle_frame P stop s = Some s1" "copy_within (stop + 1) (rx_len s1) 0 (rx_buf s1) = Some buf"
        "sub_checked (rx_len s1) (stop + 1) = Some n"
      and rest: "process_input P (s1\<lparr>rx_buf := buf, rx_len := n\<rparr>) = Some s'"
      by (subst (asm) process_input.simps) (auto elim!: bind_SomeE)
    have "same_output s s1"
      using h(1) by (auto simp: handle_frame_def split: if_splits dest: process_frame_same_output)
    moreover have "same_output (s1\<lparr>rx_buf := buf, rx_len := n\<rparr>) s'"
      using "1.IH" [OF r Some h rest] .
    then have "same_output s1 s'" by (simp add: same_output_def)
    ultimately show ?thesis by (rule same_output_trans)
  qed
qed

lemma select_frame_health: "select_frame s = Some (b, s') \<Longrightarrow> health s' = health s"
  by (auto simp: select_frame_def elim!: bind_SomeE split: if_splits option.splits)

lemma poll_writing_health:
  "poll_writing P cx fr offset s = Some (r, s') \<Longrightarrow> health s' = health s \<and> r \<noteq> Inl Failed"
  by (auto simp: poll_writing_def Let_def elim!: bind_SomeE split: poll.splits sum.splits if_splits)

lemma poll_flushing_health:
  "poll_flushing P cx fr s = Some (r, s') \<Longrightarrow> health s' = health s \<and> r \<noteq> Inl Failed"
  by (auto simp: poll_flushing_def Let_def elim!: bind_SomeE
      split: poll.splits sum.splits if_splits prod.splits)

lemma poll_output_health:
  "poll_output P cx (b, s) = Some (r, b', s') \<Longrightarrow> health s' = health s \<and> r \<noteq> Inl Failed"
  by (auto simp: poll_output_def Let_def elim!: bind_SomeE
      dest!: select_frame_health poll_writing_health poll_flushing_health
      split: if_splits out.splits prod.splits)

lemma poll_input_health:
  "poll_input P cx (b, s) = Some (r, b', s') \<Longrightarrow> health s' = health s \<and> r \<noteq> Inl Failed"
  by (auto simp: poll_input_def Let_def same_output_def elim!: bind_SomeE
      dest!: process_input_same_output split: if_splits poll.splits sum.splits prod.splits)

lemma poll_timer_health:
  "poll_timer P cx i (b, s) = Some (r, b', s') \<Longrightarrow> health s' = health s \<and> r \<noteq> Inl Failed"
  by (auto simp: poll_timer_def Let_def elim!: bind_SomeE split: if_splits option.splits prod.splits)

lemma step_health:
  "step P cx (b, s) = Some (r, b', s') \<Longrightarrow> health s' = health s \<and> r \<noteq> Inl Failed"
  unfolding step_def
  by (auto elim!: try_bind_SomeE dest!: poll_output_health poll_input_health poll_timer_health)

lemma drive_unhealthy [simp]: "\<not> is_healthy s \<Longrightarrow> drive P cx (b, s) = Some (Blocked, b, s)"
  by (simp add: drive_def)

lemma is_healthy_iff: "is_healthy s \<longleftrightarrow> health s = HealthOk"
  by (auto simp: is_healthy_def split: health.split)

section \<open>What a poll reports\<close>

lemma failure_cases:
  assumes "failure s = (err, s')"
  obtains (ok) "health s = HealthOk" "err = None" "s' = s"
  | (first) e where "health s = HealthFailed e" "err = Some e" "s' = s\<lparr>health := HealthReported\<rparr>"
  | (again) "health s = HealthReported" "err = Some Failed" "s' = s"
  using assms by (cases "health s") (auto simp: failure_def)

text \<open>A write is pending only in a healthy connection with a packet under way.\<close>

lemma queue_packet_pending:
  assumes "queue_packet P cx buf s = Some (Pending, s')"
  shows "is_healthy s' \<and> \<not> write_ready s'"
  using assms
  by (auto simp: queue_packet_def Let_def is_healthy_iff elim!: bind_SomeE elim: failure_cases
      split: prod.splits option.splits if_splits)

section \<open>The error of a poll\<close>

text \<open>The error a result carries\<close>

definition poll_error :: "('e + 'a) poll \<Rightarrow> 'e option" where
  "poll_error p = (case p of Ready (Inl e) \<Rightarrow> Some e | _ \<Rightarrow> None)"

lemma poll_error_simps [simp]:
  "poll_error Pending = None" "poll_error (Ready (Inl e)) = Some e" "poll_error (Ready (Inr x)) = None"
  by (simp_all add: poll_error_def)

lemma poll_error_Some: "poll_error p = Some e \<longleftrightarrow> p = Ready (Inl e)"
  by (auto simp: poll_error_def split: poll.split sum.split)

section \<open>Reading and the failed connection\<close>

text \<open>A read with payload left, after the connection has been driven\<close>

lemma poll_read_data:
  fixes P :: "('t, 'c, 'e) params"
  assumes "drive P cx (new_budget, s) = Some (w, b, s1)" "rx_start s1 < rx_end s1"
    and "buffers_inv P s1" "rx_inv P s1" "buf \<noteq> []"
    and "n = min (length buf) (rx_end s1 - rx_start s1)"
  shows "poll_read P cx buf s =
    Some (Ready (Inr n), take n (drop (rx_start s1) (rx_payload s1)) @ drop n buf,
      snd (finish OpRead cx (Ready (Inr n) :: ('e connection_error + nat) poll)
        (s1\<lparr>rx_start := rx_start s1 + n\<rparr>)))"
proof -
  have le: "rx_end s1 \<le> length (rx_payload s1)"
    using assms(3,4) capacity_bounds(2) [of P s1] by (simp add: inv_defs)
  have n: "rx_start s1 + n \<le> rx_end s1" "n \<le> length buf" using assms(2,6) by auto
  have "slice (rx_start s1) (rx_start s1 + n) (rx_payload s1) =
      Some (take n (drop (rx_start s1) (rx_payload s1)))"
    using n le by (simp add: slice_def)
  moreover have "copy_from_slice 0 n (take n (drop (rx_start s1) (rx_payload s1))) buf =
      Some (take n (drop (rx_start s1) (rx_payload s1)) @ drop n buf)"
    using n le by (simp add: copy_from_slice_def)
  ultimately show ?thesis
    using assms(1,2,5) by (simp add: poll_read_def Let_def finish_eq flip: assms(6))
qed

definition reported :: "waiters \<Rightarrow> waker list \<Rightarrow> ('t, 'c, 'e) reliable \<Rightarrow> ('t, 'c, 'e) reliable" where
  "reported w new s = s\<lparr>health := HealthReported, waiters := w, woken := woken s @ new\<rparr>"

definition pending_error :: "('t, 'c, 'e) reliable \<Rightarrow> 'e connection_error option" where
  "pending_error s =
     (case health s of
        HealthOk \<Rightarrow> None
      | HealthFailed e \<Rightarrow> Some e
      | HealthReported \<Rightarrow> Some Failed)"

lemma pending_error_failure:
  "pending_error s = Some e \<Longrightarrow> failure s = (Some e, s\<lparr>health := HealthReported\<rparr>) \<and> \<not> is_healthy s"
  by (auto simp: pending_error_def failure_def is_healthy_def split: health.splits)

lemma finish_reported:
  fixes s :: "('t, 'c, 'e) reliable"
  shows "finish op cx (Ready x) (s\<lparr>health := HealthReported\<rparr>) =
     (Ready x, reported no_waiters (stored (waiters s) (filter (\<lambda>o'. o' \<noteq> op) OPS)) s)"
proof -
  have due: "due_after op True t = (\<lambda>o'. o' \<noteq> op)" for t :: "('t, 'c, 'e) reliable"
    by (simp add: due_after_def fun_eq_iff)
  have "finish_waiters op cx True t = no_waiters" for t :: "('t, 'c, 'e) reliable"
    by (simp add: finish_waiters_def due no_waiters_def fun_eq_iff)
  then show ?thesis by (simp add: finish_eq due reported_def set_waiters_def)
qed

lemma fail_unhealthy_ready:
  "tx_inv P s \<Longrightarrow> write_ready s \<Longrightarrow> pending_error s = Some e \<Longrightarrow> fail x s = s"
  by (cases "final_input s") (auto simp: fail_def tx_inv_def write_ready_def pending_error_def
      split: health.splits)

lemma failed_polls:
  assumes "pending_error s = Some e"
  shows "poll_flush P cx s = Some (Ready (Inl e),
      reported no_waiters (stored (waiters s) (filter (\<lambda>o'. o' \<noteq> OpFlush) OPS)) s)"
    and "poll_progress P cx s = Some (Ready e,
      reported no_waiters (stored (waiters s) (filter (\<lambda>o'. o' \<noteq> OpProgress) OPS)) s)"
    and "buf \<noteq> [] \<Longrightarrow> tx_inv P s \<Longrightarrow> poll_write P cx buf s = Some (Ready (Inl e),
      reported no_waiters (stored (waiters s) (filter (\<lambda>o'. o' \<noteq> OpWrite) OPS)) s)"
    and "buf \<noteq> [] \<Longrightarrow> \<not> rx_start s < rx_end s \<Longrightarrow> poll_read P cx buf s = Some (Ready (Inl e), buf,
      reported no_waiters (stored (waiters s) (filter (\<lambda>o'. o' \<noteq> OpRead) OPS)) s)"
  using pending_error_failure [OF assms] fail_unhealthy_ready [OF _ _ assms, of P]
  by (auto simp: poll_flush_def poll_progress_def poll_write_def queue_packet_def poll_read_def
      Let_def finish_reported)

end
