(* ===== verification/Registration.thy ===== *)
theory Registration
  imports Connection_Failure
begin

text \<open>
  Why a pending poll is polled again: when an operation is pending, the connection has woken the
  caller itself (its budget was spent), or each of its sources of progress (output, input, deadline)
  has been asked with the caller's waker and answered \<open>Pending\<close>. The loop of \<open>drive\<close> is seen as the
  closure of a transition relation followed by the step that ends it.
\<close>

section \<open>The loop as a closure\<close>

definition progress_step ::
  "('t, 'c, 'e) params \<Rightarrow> waker \<Rightarrow> nat \<times> ('t, 'c, 'e) reliable \<Rightarrow> nat \<times> ('t, 'c, 'e) reliable \<Rightarrow> bool" where
  "progress_step P cx bs bs' \<longleftrightarrow> step P cx bs = Some (Inr Progress, bs')"

definition last_step ::
  "waker \<Rightarrow> 'e connection_error + work \<Rightarrow> nat \<times> ('t, 'c, 'e) reliable \<Rightarrow>
     work \<times> nat \<times> ('t, 'c, 'e) reliable \<Rightarrow> bool" where
  "last_step cx r bs end \<longleftrightarrow>
     (case r of
        Inl e \<Rightarrow> end = (Blocked, fst bs, fail e (snd bs))
      | Inr Blocked \<Rightarrow> end = (Blocked, bs)
      | Inr Yield \<Rightarrow> end = (Yield, fst bs, (snd bs)\<lparr>woken := woken (snd bs) @ [cx]\<rparr>)
      | Inr Progress \<Rightarrow> False)"

lemma drive_loop_steps:
  "drive_loop P cx bs = Some end \<Longrightarrow>
     \<exists>bs0 r bs1. (progress_step P cx)\<^sup>*\<^sup>* bs bs0 \<and> step P cx bs0 = Some (r, bs1) \<and> last_step cx r bs1 end"
proof (induction P cx bs rule: drive_loop.induct)
  case (1 P cx bs)
  from "1.prems" obtain r bs1 where st: "step P cx bs = Some (r, bs1)"
    by (subst (asm) drive_loop.simps) (auto elim!: bind_SomeE)
  show ?case
  proof (cases "r = Inr Progress")
    case True
    with "1.prems" st have "drive_loop P cx bs1 = Some end"
      by (subst (asm) drive_loop.simps) simp
    with "1.IH" [OF st refl] True obtain bs0 r' bs' where
      "(progress_step P cx)\<^sup>*\<^sup>* bs1 bs0" "step P cx bs0 = Some (r', bs')" "last_step cx r' bs' end"
      by blast
    moreover have "progress_step P cx bs bs1" using st True by (simp add: progress_step_def)
    ultimately show ?thesis by (meson converse_rtranclp_into_rtranclp)
  next
    case False
    with "1.prems" st have "last_step cx r bs1 end"
      by (subst (asm) drive_loop.simps) (auto simp: last_step_def split: sum.splits work.splits)
    with st show ?thesis by blast
  qed
qed

text \<open>A property kept by every step holds where the last step begins and after it.\<close>

lemma steps_keep:
  assumes "(progress_step P cx)\<^sup>*\<^sup>* bs bs'" "I (snd bs)"
    and "\<And>b s r b' s'. I s \<Longrightarrow> step P cx (b, s) = Some (r, b', s') \<Longrightarrow> I s'"
  shows "I (snd bs')"
  using assms(1,2)
proof (induction rule: rtranclp_induct)
  case (step bs1 bs2)
  then have "step P cx (fst bs1, snd bs1) = Some (Inr Progress, fst bs2, snd bs2)" "I (snd bs1)"
    by (simp_all add: progress_step_def)
  with assms(3) show ?case by blast
qed simp

text \<open>The engine wakes the caller only where the loop yields.\<close>

lemma select_frame_woken: "select_frame s = Some (b, s') \<Longrightarrow> woken s' = woken s"
  by (auto simp: select_frame_def elim!: bind_SomeE split: if_splits option.splits)

lemma poll_output_woken: "poll_output P cx (b, s) = Some (r, b', s') \<Longrightarrow> woken s' = woken s"
  by (auto simp: poll_output_def poll_writing_def poll_flushing_def Let_def elim!: bind_SomeE
      dest!: select_frame_woken split: if_splits out.splits prod.splits poll.splits sum.splits)

lemma poll_input_woken: "poll_input P cx (b, s) = Some (r, b', s') \<Longrightarrow> woken s' = woken s"
  by (auto simp: poll_input_def Let_def same_output_def elim!: bind_SomeE
      dest!: process_input_same_output split: if_splits poll.splits sum.splits prod.splits)

lemma poll_timer_woken: "poll_timer P cx i (b, s) = Some (r, b', s') \<Longrightarrow> woken s' = woken s"
  by (auto simp: poll_timer_def Let_def elim!: bind_SomeE split: if_splits option.splits prod.splits)

lemma step_woken: "step P cx (b, s) = Some (r, b', s') \<Longrightarrow> woken s' = woken s"
  unfolding step_def
  by (auto elim!: try_bind_SomeE dest!: poll_output_woken poll_input_woken poll_timer_woken)

section \<open>What a blocked step has registered\<close>

text \<open>
  \<open>t\<close> and \<open>t'\<close> are the link before and after the call; the frame under way determines which bytes
  are offered, if there is one.
\<close>

definition waits_output ::
  "('t, 'c, 'e) params \<Rightarrow> waker \<Rightarrow> 't \<Rightarrow> 't \<Rightarrow> ('t, 'c, 'e) reliable \<Rightarrow> bool" where
  "waits_output P cx t t' s \<longleftrightarrow>
     (case out s of
        OutIdle \<Rightarrow> ack_pending s = None \<and> tx s \<noteq> TxQueued \<and> t' = t
      | Writing fr k \<Rightarrow>
          t_poll_write (link P) cx
            (case fr of
               AckFrame \<Rightarrow> take (ack_len s - k) (drop k (ack_frame s))
             | DataFrame \<Rightarrow> take (tx_len s - k) (drop k (tx_frame s))) t = Some (Pending, t')
      | Flushing _ \<Rightarrow> t_poll_flush (link P) cx t = Some (Pending, t'))"

definition waits_input ::
  "('t, 'c, 'e) params \<Rightarrow> waker \<Rightarrow> 't \<Rightarrow> 't \<Rightarrow> ('t, 'c, 'e) reliable \<Rightarrow> bool" where
  "waits_input P cx t t' s \<longleftrightarrow>
     rx_len s < capacity P \<and>
     (\<exists>free free'. length free = capacity P - rx_len s \<and>
        t_poll_read (link P) cx free t = Some (Pending, free', t'))"

definition waits_deadline ::
  "('t, 'c, 'e) params \<Rightarrow> waker \<Rightarrow> ('t, 'c, 'e) reliable \<Rightarrow> bool" where
  "waits_deadline P cx s \<longleftrightarrow>
     (tx s = TxWaiting \<longrightarrow>
        final_input s = None \<and>
        (\<exists>c. c_poll_deadline (clock P) cx (tx_deadline s) c = (Pending, timer s)))"

definition registered ::
  "('t, 'c, 'e) params \<Rightarrow> waker \<Rightarrow> ('t, 'c, 'e) reliable \<Rightarrow> bool" where
  "registered P cx s \<longleftrightarrow>
     (\<exists>t t'. waits_output P cx t t' s \<and> waits_input P cx t' (transport s) s) \<and> waits_deadline P cx s"

lemma registered_set_waiters [simp]: "registered P cx (set_waiters w new s) = registered P cx s"
  by (simp add: registered_def waits_output_def waits_input_def waits_deadline_def set_waiters_def
      cong: out.case_cong frame.case_cong)

lemma is_pending_iff: "is_pending (r :: unit poll) \<longleftrightarrow> r = Pending"
  by (cases r) simp_all

lemma slice_eq: "slice a b xs = Some ys \<Longrightarrow> ys = take (b - a) (drop a xs)"
  by (simp add: slice_def split: if_splits)

lemma select_frame_sent:
  "select_frame s = Some (sel, s') \<Longrightarrow>
     if sel then out s' \<noteq> OutIdle else s' = s \<and> out s = OutIdle \<and> ack_pending s = None \<and> tx s \<noteq> TxQueued"
  by (auto simp: select_frame_def elim!: bind_SomeE split: if_splits option.splits)

lemma poll_output_blocked:
  assumes "poll_output P cx (b, s) = Some (Inr Blocked, b', s')"
  shows "\<exists>t. waits_output P cx t (transport s') s'"
proof -
  from assms obtain sel s1 where sel: "select_frame s = Some (sel, s1)"
    by (auto simp: poll_output_def elim!: bind_SomeE)
  show ?thesis
    using assms sel select_frame_sent [OF sel]
    by (cases "out s1"; auto simp: poll_output_def poll_writing_def poll_flushing_def Let_def waits_output_def
        elim!: bind_SomeE dest!: slice_eq
        split: if_splits prod.splits poll.splits sum.splits frame.splits; blast)
qed

lemma poll_timer_blocked:
  assumes "poll_timer P cx Blocked (b, s) = Some (Inr Blocked, b', s')"
  shows "waits_deadline P cx s' \<and> (\<exists>c. s' = s\<lparr>timer := c\<rparr>)"
  using assms
  by (auto simp: poll_timer_def waits_deadline_def Let_def is_pending_iff elim!: bind_SomeE
      split: if_splits option.splits prod.splits) (metis reliable.surjective reliable.update_convs(2))+

lemma max_Blocked: "max (a :: work) b = Blocked \<longleftrightarrow> a = Blocked \<and> b = Blocked"
  by (cases a; cases b) (auto simp: max_def less_eq_work_def)

text \<open>What a pending poll leaves: the caller has been woken during the poll, or is registered.\<close>

definition wakes_again ::
  "('t, 'c, 'e) params \<Rightarrow> waker \<Rightarrow> ('t, 'c, 'e) reliable \<Rightarrow> ('t, 'c, 'e) reliable \<Rightarrow> bool" where
  "wakes_again P cx s s' \<longleftrightarrow>
     cx \<in> set (drop (length (woken s)) (woken s')) \<or> registered P cx s'"

context reliable_link
begin

lemma poll_input_blocked:
  assumes "conn_inv P tinv s" "poll_input P cx (b, s) = Some (Inr Blocked, b', s')"
  shows "waits_input P cx (transport s) (transport s') s'"
    and "\<exists>t buf. s' = s\<lparr>transport := t, rx_buf := buf\<rparr>"
proof -
  from assms(2) obtain free free' t where
    free: "slice (rx_len s) (length (rx_buf s)) (rx_buf s) = Some free"
    and read: "t_poll_read (link P) cx free (transport s) = Some (Pending, free', t)"
    and s': "s' = s\<lparr>transport := t, rx_buf := take (rx_len s) (rx_buf s) @ free'\<rparr>"
    by (auto simp: poll_input_def Let_def elim!: bind_SomeE
        split: if_splits prod.splits poll.splits sum.splits)
  have "length (rx_buf s) = capacity P" "rx_len s < capacity P"
    using conn_inv_parts(3,7) [OF assms(1)] by (simp_all add: buffers_inv_def input_inv_def)
  then show "waits_input P cx (transport s) (transport s') s'"
    unfolding waits_input_def using slice_eq [OF free] read s'
    by (intro conjI exI [of _ free] exI [of _ free']) simp_all
  show "\<exists>t buf. s' = s\<lparr>transport := t, rx_buf := buf\<rparr>" using s' by blast
qed

lemma step_blocked:
  assumes "conn_inv P tinv s" "step P cx (b, s) = Some (Inr Blocked, b', s')"
  shows "registered P cx s'"
proof -
  from assms(2) obtain b1 s1 b2 s2 where
    o: "poll_output P cx (b, s) = Some (Inr Blocked, b1, s1)"
    and i: "poll_input P cx (b1, s1) = Some (Inr Blocked, b2, s2)"
    and t: "poll_timer P cx Blocked (b2, s2) = Some (Inr Blocked, b', s')"
    unfolding step_def by (auto simp: max_Blocked elim!: try_bind_SomeE dest!: sym [of Blocked])
  have "conn_inv P tinv s1" using poll_output_inv [OF assms(1), of cx b] o by auto
  note input = poll_input_blocked [OF this i]
  obtain c where c: "s' = s2\<lparr>timer := c\<rparr>" "waits_deadline P cx s'" using poll_timer_blocked [OF t] by blast
  obtain t buf where s2: "s2 = s1\<lparr>transport := t, rx_buf := buf\<rparr>" using input(2) by blast
  obtain t0 where "waits_output P cx t0 (transport s1) s1" using poll_output_blocked [OF o] by blast
  then have "waits_output P cx t0 (transport s1) s'"
    by (simp add: waits_output_def c(1) s2 cong: out.case_cong frame.case_cong)
  moreover have "waits_input P cx (transport s1) (transport s') s'"
    using input(1) by (simp add: waits_input_def c(1))
  ultimately show ?thesis using c(2) by (auto simp: registered_def)
qed

lemma step_keeps_inv:
  "step P cx (b, s) = Some (r, b', s') \<Longrightarrow> conn_inv P tinv s \<Longrightarrow> conn_inv P tinv s'"
  using step_inv [of s cx b] by auto

text \<open>A healthy connection after \<open>drive\<close>\<close>

lemma drive_registered:
  assumes "conn_inv P tinv s" "drive P cx (b, s) = Some (w, b', s')" "health s' = HealthOk"
  shows "if w = Yield then woken s' = woken s @ [cx] else woken s' = woken s \<and> registered P cx s'"
proof -
  have "is_healthy s" using assms(2,3) by (cases "is_healthy s") (auto simp: is_healthy_iff)
  with assms(2) have "drive_loop P cx (b, s) = Some (w, b', s')" by (simp add: drive_def)
  from drive_loop_steps [OF this] obtain b0 s0 r b1 s1 where
    steps: "(progress_step P cx)\<^sup>*\<^sup>* (b, s) (b0, s0)" "step P cx (b0, s0) = Some (r, b1, s1)"
      "last_step cx r (b1, s1) (w, b', s')"
    by auto
  have inv: "conn_inv P tinv (snd (b0, s0))"
    by (rule steps_keep [OF steps(1)]) (use assms(1) in \<open>auto dest: step_keeps_inv\<close>)
  have "woken (snd (b0, s0)) = woken s"
    by (rule steps_keep [OF steps(1)]) (auto dest: step_woken)
  then have woken: "woken s1 = woken s" using step_woken [OF steps(2)] by simp
  show ?thesis
    using steps(3) woken step_blocked [OF inv [simplified], of cx b0 b1 s1] steps(2) assms(3) fail_unhealthy [of _ s1]
    by (auto simp: last_step_def split: sum.splits work.splits)
qed

lemma finish_wakes_again:
  assumes "conn_inv P tinv s" "drive P cx (b, s) = Some (w, b', s1)" "failure s1 = (None, s2)"
    and "finish op cx p s2 = (p', s')"
  shows "wakes_again P cx s s'"
proof -
  from assms(3) have s2: "s2 = s1" "health s1 = HealthOk" by (auto elim: failure_cases)
  from assms(4) obtain ws new where s': "s' = set_waiters ws new s1"
    by (auto simp: finish_eq s2(1))
  show ?thesis
    using drive_registered [OF assms(1,2) s2(2)]
    by (auto simp: wakes_again_def s' split: if_splits)
qed

lemma poll_read_wakes_again:
  assumes "conn_inv P tinv s" "poll_read P cx buf s = Some (Pending, buf', s')"
  shows "wakes_again P cx s s'"
proof -
  have "buf \<noteq> []" using assms(2) by (auto simp: poll_read_def)
  with assms(2) obtain w b s1 where d: "drive P cx (new_budget, s) = Some (w, b, s1)"
    by (auto simp: poll_read_def elim!: bind_SomeE)
  obtain e s2 where f: "failure s1 = (e, s2)" by fastforce
  with assms(2) d \<open>buf \<noteq> []\<close> have "e = None" "finish OpRead cx (Pending :: ('e connection_error + nat) poll) s2 = (Pending, s')"
    by (auto simp: poll_read_def Let_def finish_eq elim!: bind_SomeE split: if_splits option.splits)
  with finish_wakes_again [OF assms(1) d] f show ?thesis by blast
qed

lemma poll_write_wakes_again:
  assumes "conn_inv P tinv s" "poll_write P cx buf s = Some (Pending, s')"
  shows "wakes_again P cx s s'"
proof -
  have "buf \<noteq> []" using assms(2) by (auto simp: poll_write_def)
  with assms(2) obtain q where q: "queue_packet P cx buf s = Some (Pending, q)"
      "finish OpWrite cx (Pending :: ('e connection_error + nat) poll) q = (Pending, s')"
    by (auto simp: poll_write_def finish_eq elim!: bind_SomeE)
  from q(1) obtain w b s1 where d: "drive P cx (new_budget, s) = Some (w, b, s1)"
    by (auto simp: queue_packet_def elim!: bind_SomeE)
  obtain e s2 where f: "failure s1 = (e, s2)" by fastforce
  with q(1) d have "e = None" "q = s2"
    by (auto simp: queue_packet_def Let_def elim!: bind_SomeE split: if_splits option.splits prod.splits)
  with finish_wakes_again [OF assms(1) d] f q(2) show ?thesis by blast
qed

lemma poll_flush_wakes_again:
  assumes "conn_inv P tinv s" "poll_flush P cx s = Some (Pending, s')"
  shows "wakes_again P cx s s'"
proof -
  from assms(2) obtain w b s1 where d: "drive P cx (new_budget, s) = Some (w, b, s1)"
    by (auto simp: poll_flush_def elim!: bind_SomeE)
  obtain e s2 where f: "failure s1 = (e, s2)" by fastforce
  with assms(2) d have "e = None" "finish OpFlush cx (Pending :: ('e connection_error + unit) poll) s2 = (Pending, s')"
    by (auto simp: poll_flush_def Let_def finish_eq split: if_splits option.splits)
  with finish_wakes_again [OF assms(1) d] f show ?thesis by blast
qed

lemma poll_progress_wakes_again:
  assumes "conn_inv P tinv s" "poll_progress P cx s = Some (Pending, s')"
  shows "wakes_again P cx s s'"
proof -
  from assms(2) obtain w b s1 where d: "drive P cx (new_budget, s) = Some (w, b, s1)"
    by (auto simp: poll_progress_def elim!: bind_SomeE)
  obtain e s2 where f: "failure s1 = (e, s2)" by fastforce
  with assms(2) d have "e = None" "finish OpProgress cx (Pending :: 'e connection_error poll) s2 = (Pending, s')"
    by (auto simp: poll_progress_def Let_def finish_eq split: option.splits)
  with finish_wakes_again [OF assms(1) d] f show ?thesis by blast
qed

end

end
