(* ===== verification/Sequence.thy ===== *)
theory Sequence
  imports Registration
begin

text \<open>
  The sequence numbers of a connection: only an accepted write takes one, each takes the next, and
  once all are used no write is accepted. The three outcomes of \<open>queue_packet\<close> as a case rule.
\<close>

section \<open>The outcomes of a write\<close>

definition seq_check :: "('t, 'c, 'e) reliable \<Rightarrow> ('t, 'c, 'e) reliable" where
  "seq_check s =
     (if write_ready s \<and> tx_next s > ucast (- 1 :: u32) then fail SequenceExhausted s else s)"

lemma seq_check_healthy:
  "health (seq_check s) = HealthOk \<Longrightarrow>
     seq_check s = s \<and> (write_ready s \<longrightarrow> \<not> tx_next s > ucast (- 1 :: u32))"
  by (auto simp: seq_check_def fail_unhealthy split: if_splits)

lemma add_checked_Some: "add_checked a b = Some c \<Longrightarrow> c = a + b"
  by (simp add: add_checked_def split: if_splits)

lemma queue_packet_cases [consumes 1, case_names error busy accept]:
  fixes P :: "('t, 'c, 'e) params"
  assumes "queue_packet P cx buf s = Some (r, s')"
  obtains (error) w b s1 e where "drive P cx (new_budget, s) = Some (w, b, s1)"
      "failure (seq_check s1) = (Some e, s')" "r = Ready (Inl e)"
  | (busy) w b where "drive P cx (new_budget, s) = Some (w, b, s')" "health s' = HealthOk"
      "\<not> write_ready s'" "r = Pending"
  | (accept) w b s1 enc where "drive P cx (new_budget, s) = Some (w, b, s1)" "health s1 = HealthOk"
      "write_ready s1" "\<not> tx_next s1 > ucast (- 1 :: u32)"
      "encode_data (session (config s1)) (ucast (tx_next s1)) (take (min (length buf) (MAX_PAYLOAD P)) buf)
         (scratch s1) (tx_frame s1) = Some enc"
      "r = Ready (Inr (min (length buf) (MAX_PAYLOAD P)))"
      "if w = Yield then s' = queued enc s1
       else \<exists>w' b'. drive P cx (b, queued enc s1) = Some (w', b', s')"
proof -
  from assms obtain w b s1 where d: "drive P cx (new_budget, s) = Some (w, b, s1)"
    by (auto simp: queue_packet_def elim!: bind_SomeE)
  obtain err s2 where f: "failure (seq_check s1) = (err, s2)" by fastforce
  note q = assms [unfolded queue_packet_def]
  show thesis
  proof (cases err)
    case (Some e)
    with assms d f show thesis
      by (intro error [OF d, of e]) (auto simp: queue_packet_def Let_def seq_check_def [symmetric])
  next
    case None
    with f have "health (seq_check s1) = HealthOk" "s2 = seq_check s1" by (auto elim: failure_cases)
    with seq_check_healthy [of s1] have s1: "health s1 = HealthOk" "s2 = s1" "seq_check s1 = s1"
        "write_ready s1 \<longrightarrow> \<not> tx_next s1 > ucast (- 1 :: u32)" by auto
    show thesis
    proof (cases "write_ready s1")
      case False
      with assms d f None s1 show thesis
        by (intro busy [of w b]) (auto simp: queue_packet_def Let_def)
    next
      case True
      let ?n = "min (length buf) (MAX_PAYLOAD P)"
      have sl: "slice 0 ?n buf = Some (take ?n buf)" by (simp add: slice_def)
      from assms d f None s1 True sl obtain enc where
        "encode_data (session (config s1)) (ucast (tx_next s1)) (take ?n buf) (scratch s1) (tx_frame s1)
           = Some enc" "r = Ready (Inr ?n)"
        "if w = Yield then s' = queued enc s1
         else \<exists>w' b'. drive P cx (b, queued enc s1) = Some (w', b', s')"
        by (auto simp: queue_packet_def Let_def queued_def elim!: bind_SomeE dest!: add_checked_Some
            split: if_splits)
      then show thesis using accept [OF d s1(1) True] s1(4) True by blast
    qed
  qed
qed

section \<open>Sequence numbers along the engine\<close>

text \<open>What the engine may report of its own\<close>

definition engine_result :: "'e connection_error + work \<Rightarrow> bool" where
  "engine_result r \<longleftrightarrow> r \<noteq> Inl SequenceExhausted"

lemma select_frame_tx_next: "select_frame s = Some (b, s') \<Longrightarrow> tx_next s' = tx_next s"
  by (auto simp: select_frame_def elim!: bind_SomeE split: if_splits option.splits)

lemma poll_output_tx_next:
  "poll_output P cx (b, s) = Some (r, b', s') \<Longrightarrow> tx_next s' = tx_next s \<and> engine_result r"
  by (auto simp: poll_output_def poll_writing_def poll_flushing_def engine_result_def Let_def
      elim!: bind_SomeE dest!: select_frame_tx_next
      split: if_splits out.splits prod.splits poll.splits sum.splits)

lemma poll_input_tx_next:
  "poll_input P cx (b, s) = Some (r, b', s') \<Longrightarrow> tx_next s' = tx_next s \<and> engine_result r"
  by (auto simp: poll_input_def Let_def same_output_def engine_result_def elim!: bind_SomeE
      dest!: process_input_same_output split: if_splits poll.splits sum.splits prod.splits)

lemma poll_timer_tx_next:
  "poll_timer P cx i (b, s) = Some (r, b', s') \<Longrightarrow> tx_next s' = tx_next s \<and> engine_result r"
  by (auto simp: poll_timer_def engine_result_def Let_def elim!: bind_SomeE
      split: if_splits option.splits prod.splits)

lemma step_tx_next:
  "step P cx (b, s) = Some (r, b', s') \<Longrightarrow> tx_next s' = tx_next s \<and> engine_result r"
  unfolding step_def
  by (auto elim!: try_bind_SomeE dest!: poll_output_tx_next poll_input_tx_next poll_timer_tx_next
      simp: engine_result_def)

text \<open>A healthy connection fails in \<open>drive\<close> only with an error of the engine.\<close>

lemma drive_tx_next:
  assumes "drive P cx (b, s) = Some (w, b', s')"
  shows "tx_next s' = tx_next s"
    and "health s = HealthOk \<Longrightarrow> health s' \<noteq> HealthFailed SequenceExhausted"
proof -
  have "tx_next s' = tx_next s \<and> (health s = HealthOk \<longrightarrow> health s' \<noteq> HealthFailed SequenceExhausted)"
  proof (cases "is_healthy s")
    case True
    with assms have "drive_loop P cx (b, s) = Some (w, b', s')" by (simp add: drive_def)
    from drive_loop_steps [OF this] obtain b0 s0 r b1 s1 where
      steps: "(progress_step P cx)\<^sup>*\<^sup>* (b, s) (b0, s0)" "step P cx (b0, s0) = Some (r, b1, s1)"
        "last_step cx r (b1, s1) (w, b', s')"
      by auto
    have "tx_next (snd (b0, s0)) = tx_next s \<and> health (snd (b0, s0)) = HealthOk"
      by (rule steps_keep [OF steps(1)])
        (use True in \<open>auto simp: is_healthy_iff dest: step_tx_next step_health\<close>)
    then have "tx_next s1 = tx_next s" "health s1 = HealthOk" "engine_result r"
      using step_tx_next [OF steps(2)] step_health [OF steps(2)] by auto
    with steps(3) show ?thesis
      by (auto simp: last_step_def fail_def Let_def engine_result_def split: sum.splits work.splits)
  qed (use assms in \<open>auto simp: is_healthy_iff\<close>)
  then show "tx_next s' = tx_next s"
    and "health s = HealthOk \<Longrightarrow> health s' \<noteq> HealthFailed SequenceExhausted" by auto
qed

text \<open>What a write does to the sequence number\<close>

definition write_result ::
  "('t, 'c, 'e) params \<Rightarrow> u8 list \<Rightarrow> ('t, 'c, 'e) reliable \<Rightarrow>
     ('e connection_error + nat) poll \<Rightarrow> ('t, 'c, 'e) reliable \<Rightarrow> bool" where
  "write_result P buf s r s' \<longleftrightarrow>
     (case r of
        Ready (Inr n) \<Rightarrow>
          n = min (length buf) (MAX_PAYLOAD P) \<and> unat (tx_next s) < 2 ^ 32 \<and>
          unat (tx_next s') = unat (tx_next s) + 1
      | Ready (Inl e) \<Rightarrow>
          tx_next s' = tx_next s \<and>
          (health s = HealthOk \<and> e = SequenceExhausted \<longrightarrow>
             2 ^ 32 \<le> unat (tx_next s) \<and> write_ready s')
      | Pending \<Rightarrow> tx_next s' = tx_next s \<and> \<not> write_ready s')"

lemma failure_tx: "failure s = (e, s') \<Longrightarrow> tx_next s' = tx_next s \<and> write_ready s' = write_ready s"
  by (auto simp: write_ready_def data_out_busy_eq elim: failure_cases)

lemma seq_check_tx [simp]:
  "tx_next (seq_check s) = tx_next s" "write_ready (seq_check s) = write_ready s"
  by (auto simp: seq_check_def fail_def Let_def write_ready_def data_out_busy_eq split: health.split)

lemma unat_gt_u32_max: "ucast (- 1 :: u32) < (x :: u64) \<longleftrightarrow> 2 ^ 32 \<le> unat x"
proof -
  have "unat (ucast (- 1 :: u32) :: u64) = 4294967295" by (simp add: unat_u32_max)
  then show ?thesis by (simp only: word_less_nat_alt) auto
qed

lemma queue_packet_result:
  assumes "queue_packet P cx buf s = Some (r, s')"
  shows "write_result P buf s r s'"
  using assms
proof (cases rule: queue_packet_cases)
  case (error w b s1 e)
  note f = failure_tx [OF error(2)]
  have "2 ^ 32 \<le> unat (tx_next s) \<and> write_ready s'" if "health s = HealthOk" "e = SequenceExhausted"
  proof -
    have "health (seq_check s1) = HealthFailed SequenceExhausted"
      using error(2) that(2) by (auto elim: failure_cases)
    with drive_tx_next(2) [OF error(1) that(1)] have "write_ready s1 \<and> ucast (- 1 :: u32) < tx_next s1"
      by (auto simp: seq_check_def split: if_splits)
    with f drive_tx_next(1) [OF error(1)] unat_gt_u32_max [of "tx_next s1"] show ?thesis by simp
  qed
  with error(3) f drive_tx_next(1) [OF error(1)] show ?thesis by (simp add: write_result_def)
next
  case (busy w b)
  then show ?thesis using drive_tx_next(1) [OF busy(1)] by (simp add: write_result_def)
next
  case (accept w b s1 enc)
  have "tx_next s' = tx_next s1 + 1"
    using accept(7) by (auto simp: queued_def dest: drive_tx_next(1) split: if_splits prod.splits)
  moreover have "unat (tx_next s1) < 2 ^ 32"
    using accept(4) unat_gt_u32_max [of "tx_next s1"] by simp
  moreover from this have "unat (tx_next s1 + 1) = unat (tx_next s1) + 1"
    using add_checked_u64 [of "tx_next s1"] by simp
  ultimately show ?thesis
    using accept(6) drive_tx_next(1) [OF accept(1)] by (simp add: write_result_def)
qed

lemma poll_write_result:
  assumes "poll_write P cx buf s = Some (r, s')" "buf \<noteq> []"
  shows "write_result P buf s r s'"
proof -
  from assms obtain p q where q: "queue_packet P cx buf s = Some (p, q)" "finish OpWrite cx p q = (r, s')"
    by (auto simp: poll_write_def elim!: bind_SomeE split: if_splits)
  from q(2) obtain w new where "r = p" "s' = set_waiters w new q" by (auto simp: finish_eq)
  with queue_packet_result [OF q(1)] show ?thesis
    by (auto simp: write_result_def split: poll.splits sum.splits)
qed

end
