(* ===== verification/Poll_Effects.thy ===== *)
theory Poll_Effects
  imports Sequence
begin

text \<open>
  The effects of a poll beside its result: exactly which waiters it wakes and which it keeps, and for
  every error that a poll reports or leaves to be reported, what the link, the clock or the sequence
  numbers did to cause it. With both, a connection meets the contract of the trait it implements.
\<close>

section \<open>The wakeups of a poll\<close>

lemma select_frame_waiters: "select_frame s = Some (b, s') \<Longrightarrow> waiters s' = waiters s"
  by (auto simp: select_frame_def elim!: bind_SomeE split: if_splits option.splits)

lemma poll_output_waiters: "poll_output P cx (b, s) = Some (r, b', s') \<Longrightarrow> waiters s' = waiters s"
  by (auto simp: poll_output_def poll_writing_def poll_flushing_def Let_def elim!: bind_SomeE
      dest!: select_frame_waiters split: if_splits out.splits prod.splits poll.splits sum.splits)

lemma poll_input_waiters: "poll_input P cx (b, s) = Some (r, b', s') \<Longrightarrow> waiters s' = waiters s"
  by (auto simp: poll_input_def Let_def same_output_def elim!: bind_SomeE
      dest!: process_input_same_output split: if_splits poll.splits sum.splits prod.splits)

lemma poll_timer_waiters: "poll_timer P cx i (b, s) = Some (r, b', s') \<Longrightarrow> waiters s' = waiters s"
  by (auto simp: poll_timer_def Let_def elim!: bind_SomeE split: if_splits option.splits prod.splits)

lemma step_waiters: "step P cx (b, s) = Some (r, b', s') \<Longrightarrow> waiters s' = waiters s"
  unfolding step_def
  by (auto elim!: try_bind_SomeE dest!: poll_output_waiters poll_input_waiters poll_timer_waiters)

lemma fail_waiters [simp]: "waiters (fail e s) = waiters s" "woken (fail e s) = woken s"
  by (simp_all add: fail_def Let_def split: health.split)

text \<open>The engine keeps the waiters, and wakes nobody but its caller, once and where the loop yields.\<close>

definition engine_wakes :: "waker \<Rightarrow> ('t, 'c, 'e) reliable \<Rightarrow> ('t, 'c, 'e) reliable \<Rightarrow> bool" where
  "engine_wakes cx s s' \<longleftrightarrow> waiters s' = waiters s \<and> (\<exists>yielded \<in> {[], [cx]}. woken s' = woken s @ yielded)"

lemma drive_wakes:
  assumes "drive P cx (b, s) = Some (w, b', s')"
  shows "waiters s' = waiters s" "woken s' = woken s @ (if w = Yield then [cx] else [])"
proof -
  have "waiters s' = waiters s \<and> woken s' = woken s @ (if w = Yield then [cx] else [])"
  proof (cases "is_healthy s")
    case True
    with assms have "drive_loop P cx (b, s) = Some (w, b', s')" by (simp add: drive_def)
    from drive_loop_steps [OF this] obtain b0 s0 r b1 s1 where
      steps: "(progress_step P cx)\<^sup>*\<^sup>* (b, s) (b0, s0)" "step P cx (b0, s0) = Some (r, b1, s1)"
        "last_step cx r (b1, s1) (w, b', s')"
      by auto
    have "waiters (snd (b0, s0)) = waiters s \<and> woken (snd (b0, s0)) = woken s"
      by (rule steps_keep [OF steps(1)]) (auto dest: step_waiters step_woken)
    with steps(3) show ?thesis
      using step_waiters [OF steps(2)] step_woken [OF steps(2)]
      by (auto simp: last_step_def split: sum.splits work.splits)
  qed (use assms in auto)
  then show "waiters s' = waiters s" "woken s' = woken s @ (if w = Yield then [cx] else [])" by auto
qed

lemma drive_engine_wakes: "drive P cx (b, s) = Some (w, b', s') \<Longrightarrow> engine_wakes cx s s'"
  using drive_wakes [of P cx b s w b' s'] by (simp add: engine_wakes_def)

lemma seq_check_waiters [simp]: "waiters (seq_check s) = waiters s" "woken (seq_check s) = woken s"
  by (simp_all add: seq_check_def)

lemma failure_waiters: "failure s = (e, s') \<Longrightarrow> waiters s' = waiters s \<and> woken s' = woken s"
  by (auto elim: failure_cases)

lemma engine_wakes_cong:
  "waiters s'' = waiters s' \<Longrightarrow> woken s'' = woken s' \<Longrightarrow> engine_wakes cx s s'' = engine_wakes cx s s'"
  by (simp add: engine_wakes_def)

lemma queue_packet_wakes:
  assumes "queue_packet P cx buf s = Some (r, s')"
  shows "engine_wakes cx s s'"
  using assms
proof (cases rule: queue_packet_cases)
  case (error w b s1 e)
  have "waiters s' = waiters s1" "woken s' = woken s1"
    using failure_waiters [OF error(2)] by simp_all
  with drive_wakes [OF error(1)] show ?thesis by (simp add: engine_wakes_def)
next
  case (busy w b)
  then show ?thesis by (simp add: drive_engine_wakes)
next
  case (accept w b s1 enc)
  have q: "waiters (queued enc s1) = waiters s1" "woken (queued enc s1) = woken s1"
    by (simp_all add: queued_def split: prod.split)
  note d = drive_wakes [OF accept(1)]
  show ?thesis
  proof (cases "w = Yield")
    case False
    with accept(7) obtain w' b' where "drive P cx (b, queued enc s1) = Some (w', b', s')" by auto
    from drive_wakes [OF this] d q False show ?thesis by (simp add: engine_wakes_def)
  qed (use accept(7) d q in \<open>simp add: engine_wakes_def\<close>)
qed

text \<open>
  What a poll of \<open>op\<close> with the waker \<open>cx\<close> does to the waiters: the waiters of other operations that
  are due are cleared and woken, in the order of \<open>OPS\<close> and after the caller if the loop yielded; the
  others are kept; the caller is kept exactly if it has to wait.
\<close>

definition wakeups :: "op \<Rightarrow> waker \<Rightarrow> bool \<Rightarrow> ('t, 'c, 'e) reliable \<Rightarrow> ('t, 'c, 'e) reliable \<Rightarrow> bool" where
  "wakeups op cx completed s s' \<longleftrightarrow>
     (let due = (\<lambda>o'. o' \<noteq> op \<and> (completed \<or> op_ready o' s')) in
      waiters s' =
        (\<lambda>o'. if o' = op then (if completed then None else Some cx)
              else if due o' then None else waiters s o') \<and>
      (\<exists>yielded \<in> {[], [cx]}. woken s' = woken s @ yielded @ stored (waiters s) (filter due OPS)) \<and>
      (completed \<or> is_healthy s' \<and> \<not> op_ready op s'))"

lemma finish_wakeups:
  assumes "finish op cx p s1 = (p', s')" "p = Pending \<Longrightarrow> is_healthy s1 \<and> \<not> op_ready op s1"
    and "engine_wakes cx s s1"
  shows "p' = p" "wakeups op cx (is_ready p) s s'"
proof -
  let ?c = "is_ready p" and ?due = "\<lambda>o'. o' \<noteq> op \<and> (is_ready p \<or> op_ready o' s1)"
  have "?c \<or> is_healthy s1" using assms(2) by (cases p) auto
  then have due: "due_after op ?c s1 = ?due" by (auto simp: due_after_def fun_eq_iff)
  have p': "p' = p" and s': "s' = set_waiters (finish_waiters op cx ?c s1) (stored (waiters s1) (filter ?due OPS)) s1"
    using assms(1) unfolding finish_eq due by (metis prod.inject)+
  have "finish_waiters op cx ?c s1 =
      (\<lambda>o'. if o' = op then (if ?c then None else Some cx) else if ?due o' then None else waiters s1 o')"
    by (cases ?c) (use due in \<open>simp_all add: finish_waiters_def fun_eq_iff\<close>)
  moreover have "?c \<or> is_healthy s' \<and> \<not> op_ready op s'" using assms(2) by (cases p) (auto simp: s')
  moreover have "op_ready o' s' = op_ready o' s1" for o' by (simp add: s')
  ultimately show "p' = p" "wakeups op cx ?c s s'"
    using assms(3) by (auto simp: wakeups_def p' s' engine_wakes_def Let_def)
qed

lemma failure_wakeups:
  assumes "drive P cx (b0, s) = Some (w, b, s1)" "failure s1 = (e, s2)" "finish op cx p s2 = (r, s')"
    and "p = Pending \<Longrightarrow> e = None \<and> \<not> op_ready op s1"
  shows "wakeups op cx (is_ready r) s s'"
proof -
  have "engine_wakes cx s s2"
    using drive_wakes [OF assms(1)] failure_waiters [OF assms(2)] by (simp add: engine_wakes_def)
  moreover have "is_healthy s2 \<and> \<not> op_ready op s2" if "p = Pending"
    using assms(2) assms(4) [OF that] by (auto simp: is_healthy_iff elim: failure_cases)
  ultimately show ?thesis using finish_wakeups [OF assms(3), of s] by simp
qed

lemma poll_flush_cases:
  fixes P :: "('t, 'c, 'e) params"
  assumes "poll_flush P cx s = Some (r, s')"
  obtains w b s1 e s2 where "drive P cx (new_budget, s) = Some (w, b, s1)" "failure s1 = (e, s2)"
    "finish OpFlush cx (case e of Some e \<Rightarrow> Ready (Inl e)
       | None \<Rightarrow> if flush_ready s2 then Ready (Inr ()) else Pending) s2 = (r, s')"
  using assms by (auto simp: poll_flush_def Let_def elim!: bind_SomeE split: prod.splits)

lemma poll_progress_cases:
  assumes "poll_progress P cx s = Some (r, s')"
  obtains w b s1 e s2 where "drive P cx (new_budget, s) = Some (w, b, s1)" "failure s1 = (e, s2)"
    "finish OpProgress cx (case e of Some e \<Rightarrow> Ready e | None \<Rightarrow> Pending) s2 = (r, s')"
  using assms by (auto simp: poll_progress_def Let_def elim!: bind_SomeE split: prod.splits)

lemma poll_write_cases:
  assumes "poll_write P cx buf s = Some (r, s')"
  obtains (empty) "buf = []" "r = Ready (Inr 0)" "s' = s"
  | (queue) p s1 where "buf \<noteq> []" "queue_packet P cx buf s = Some (p, s1)" "finish OpWrite cx p s1 = (r, s')"
  using assms by (auto simp: poll_write_def elim!: bind_SomeE split: if_splits)

lemma poll_read_cases:
  fixes P :: "('t, 'c, 'e) params"
  assumes "poll_read P cx buf s = Some (r, buf', s')"
  obtains (empty) "buf = []" "r = Ready (Inr 0)" "buf' = buf" "s' = s"
  | (data) w b s1 n where "buf \<noteq> []" "drive P cx (new_budget, s) = Some (w, b, s1)" "rx_start s1 < rx_end s1"
      "n = min (length buf) (rx_end s1 - rx_start s1)" "rx_start s1 + n \<le> length (rx_payload s1)"
      "buf' = take n (drop (rx_start s1) (rx_payload s1)) @ drop n buf"
      "finish OpRead cx (Ready (Inr n)) (s1\<lparr>rx_start := rx_start s1 + n\<rparr>) = (r, s')"
  | (wait) w b s1 e s2 where "buf \<noteq> []" "drive P cx (new_budget, s) = Some (w, b, s1)" "\<not> rx_start s1 < rx_end s1"
      "failure s1 = (e, s2)" "buf' = buf"
      "finish OpRead cx (case e of Some e \<Rightarrow> Ready (Inl e) | None \<Rightarrow> Pending) s2 = (r, s')"
proof (cases "buf = []")
  case True
  with assms show thesis by (intro empty) (simp_all add: poll_read_def)
next
  case False
  with assms obtain w b s1 where d: "drive P cx (new_budget, s) = Some (w, b, s1)"
    by (auto simp: poll_read_def elim!: bind_SomeE)
  obtain e s2 where f: "failure s1 = (e, s2)" by fastforce
  show thesis
  proof (cases "rx_start s1 < rx_end s1")
    case True
    with assms False d show thesis
      by (intro data [OF False d True refl])
        (auto simp: poll_read_def Let_def slice_def copy_from_slice_def elim!: bind_SomeE split: if_splits prod.splits)
  next
    case no: False
    with assms False d f show thesis
      by (intro wait [OF False d no f])
        (auto simp: poll_read_def Let_def elim!: bind_SomeE split: option.splits prod.splits)
  qed
qed

lemma poll_read_wakeups:
  assumes "poll_read P cx buf s = Some (r, buf', s')" "buf \<noteq> []"
  shows "wakeups OpRead cx (is_ready r) s s'"
  using assms(1)
proof (cases rule: poll_read_cases)
  case (data w b s1 n)
  have "engine_wakes cx s (s1\<lparr>rx_start := rx_start s1 + n\<rparr>)"
    using drive_engine_wakes [OF data(2)] by (simp add: engine_wakes_def)
  from finish_wakeups [OF data(7) _ this] show ?thesis by simp
next
  case (wait w b s1 e s2)
  show ?thesis
    by (rule failure_wakeups [OF wait(2,4,6)]) (use wait(3) in \<open>auto simp: op_ready_alt split: option.splits\<close>)
qed (use assms(2) in simp)

lemma poll_write_wakeups:
  assumes "poll_write P cx buf s = Some (r, s')" "buf \<noteq> []"
  shows "wakeups OpWrite cx (is_ready r) s s'"
  using assms(1)
proof (cases rule: poll_write_cases)
  case (queue p s1)
  have "is_healthy s1 \<and> \<not> op_ready OpWrite s1" if "p = Pending"
    using queue_packet_pending [of P cx buf s s1] queue(2) that by (simp add: op_ready_alt)
  from finish_wakeups [OF queue(3) this queue_packet_wakes [OF queue(2)]] show ?thesis by simp
qed (use assms(2) in simp)

lemma poll_flush_wakeups:
  assumes "poll_flush P cx s = Some (r, s')"
  shows "wakeups OpFlush cx (is_ready r) s s'"
  using assms
proof (rule poll_flush_cases)
  fix w b s1 e s2
  assume d: "drive P cx (new_budget, s) = Some (w, b, s1)" "failure s1 = (e, s2)"
    and fin: "finish OpFlush cx (case e of Some e \<Rightarrow> Ready (Inl e)
       | None \<Rightarrow> if flush_ready s2 then Ready (Inr ()) else Pending) s2 = (r, s')"
  show ?thesis
    by (rule failure_wakeups [OF d fin])
      (use d(2) in \<open>auto simp: op_ready_alt failure_def split: option.splits if_splits health.splits\<close>)
qed

lemma poll_progress_wakeups:
  assumes "poll_progress P cx s = Some (r, s')"
  shows "wakeups OpProgress cx (is_ready r) s s'"
  using assms
proof (rule poll_progress_cases)
  fix w b s1 e s2
  assume d: "drive P cx (new_budget, s) = Some (w, b, s1)" "failure s1 = (e, s2)"
    and fin: "finish OpProgress cx (case e of Some e \<Rightarrow> Ready e | None \<Rightarrow> Pending) s2 = (r, s')"
  show ?thesis
    by (rule failure_wakeups [OF d fin]) (auto simp: op_ready_alt split: option.splits)
qed

section \<open>The cause of an error\<close>

text \<open>What is left of the frame under way\<close>

definition frame_rest :: "frame \<Rightarrow> nat \<Rightarrow> ('t, 'c, 'e) reliable \<Rightarrow> u8 list" where
  "frame_rest fr k s =
     (case fr of
        AckFrame \<Rightarrow> take (ack_len s - k) (drop k (ack_frame s))
      | DataFrame \<Rightarrow> take (tx_len s - k) (drop k (tx_frame s)))"

text \<open>
  What has happened when a connection fails with an error, in the state it is left in: the link has
  answered so to the rest of the frame under way, to its flush, or to a read into the free part of
  the buffer; all retransmissions of a packet that waits for its acknowledgment are used; or all
  sequence numbers are.
\<close>

definition link_failed :: "('t, 'c, 'e) params \<Rightarrow> waker \<Rightarrow> 'e \<Rightarrow> ('t, 'c, 'e) reliable \<Rightarrow> bool" where
  "link_failed P cx e s \<longleftrightarrow>
     (\<exists>fr k t. out s = Writing fr k \<and> frame_rest fr k s \<noteq> [] \<and>
        t_poll_write (link P) cx (frame_rest fr k s) t = Some (Ready (Inl e), transport s)) \<or>
     (\<exists>fr t. out s = Flushing fr \<and> t_poll_flush (link P) cx t = Some (Ready (Inl e), transport s)) \<or>
     (\<exists>free free' t. length free = capacity P - rx_len s \<and> free \<noteq> [] \<and>
        t_poll_read (link P) cx free t = Some (Ready (Inl e), free', transport s))"

definition caused :: "('t, 'c, 'e) params \<Rightarrow> waker \<Rightarrow> 'e connection_error \<Rightarrow> ('t, 'c, 'e) reliable \<Rightarrow> bool" where
  "caused P cx error s \<longleftrightarrow>
     (case error of
        Transport e \<Rightarrow> link_failed P cx e s
      | WriteZero \<Rightarrow>
          \<exists>fr k t. out s = Writing fr k \<and> frame_rest fr k s \<noteq> [] \<and>
            t_poll_write (link P) cx (frame_rest fr k s) t = Some (Ready (Inr 0), transport s)
      | UnexpectedEof \<Rightarrow>
          \<exists>free free' t. length free = capacity P - rx_len s \<and> free \<noteq> [] \<and>
            t_poll_read (link P) cx free t = Some (Ready (Inr 0), free', transport s)
      | Timeout \<Rightarrow> tx s = TxWaiting \<and> tx_retries s = max_retries (config s)
      | SequenceExhausted \<Rightarrow> write_ready s \<and> 2 ^ 32 \<le> unat (tx_next s)
      | Failed \<Rightarrow> False)"

lemma frame_rest_updates [simp]:
  "frame_rest fr k (s\<lparr>health := h\<rparr>) = frame_rest fr k s" "frame_rest fr k (s\<lparr>final_input := l\<rparr>) = frame_rest fr k s"
  "frame_rest fr k (s\<lparr>waiters := w\<rparr>) = frame_rest fr k s" "frame_rest fr k (s\<lparr>woken := v\<rparr>) = frame_rest fr k s"
  "frame_rest fr k (s\<lparr>rx_start := i\<rparr>) = frame_rest fr k s" "frame_rest fr k (s\<lparr>transport := t\<rparr>) = frame_rest fr k s"
  by (simp_all add: frame_rest_def split: frame.split)

lemma caused_updates [simp]:
  "caused P cx e (s\<lparr>health := h\<rparr>) = caused P cx e s" "caused P cx e (s\<lparr>final_input := l\<rparr>) = caused P cx e s"
  "caused P cx e (s\<lparr>waiters := w\<rparr>) = caused P cx e s" "caused P cx e (s\<lparr>woken := v\<rparr>) = caused P cx e s"
  "caused P cx e (s\<lparr>rx_start := i\<rparr>) = caused P cx e s"
  by (simp_all add: caused_def link_failed_def write_ready_def data_out_busy_eq split: connection_error.split)

lemma caused_fail [simp]: "caused P cx e (fail e' s) = caused P cx e s"
  by (simp add: fail_def Let_def split: health.split)

lemma caused_set_waiters [simp]: "caused P cx e (set_waiters w new s) = caused P cx e s"
  by (simp add: set_waiters_def)

text \<open>The bytes offered to the link are never none.\<close>

lemma rest_offered:
  assumes "conn_inv P tinv s"
  shows "out s = Writing fr k \<Longrightarrow> frame_rest fr k s \<noteq> []" "0 < capacity P - rx_len s"
proof -
  show "0 < capacity P - rx_len s" using conn_inv_parts(7) [OF assms] by (simp add: input_inv_def)
  show "frame_rest fr k s \<noteq> []" if "out s = Writing fr k"
    using that conn_inv_parts(3-5) [OF assms]
    by (cases fr) (auto simp: frame_rest_def out_inv_def tx_inv_def tx_frame_ok_def ack_frame_ok_def data_out_busy_def
        holds_frame_def buffers_inv_def)
qed

context reliable_link
begin

lemma poll_output_caused:
  assumes "conn_inv P tinv s" "poll_output P cx (b, s) = Some (Inl e, b', s')"
  shows "caused P cx e s'" "e \<noteq> SequenceExhausted"
proof -
  have inv: "conn_inv P tinv s'" using poll_output_inv [OF assms(1), of cx b] assms(2) by auto
  from assms(2) obtain s1 where s1: "select_frame s = Some (True, s1)"
      "(case out s1 of
         OutIdle \<Rightarrow> False
       | Writing fr k \<Rightarrow> poll_writing P cx fr k s1 = Some (Inl e, s')
       | Flushing fr \<Rightarrow> poll_flushing P cx fr s1 = Some (Inl e, s'))"
    by (auto simp: poll_output_def elim!: bind_SomeE split: if_splits out.splits prod.splits)
  have "caused P cx e s' \<and> e \<noteq> SequenceExhausted"
  proof (cases "out s1")
    case (Writing fr k)
    with s1(2) obtain t where t: "s' = s1\<lparr>transport := t\<rparr>"
      and w: "(\<exists>x. e = Transport x \<and> t_poll_write (link P) cx (frame_rest fr k s1) (transport s1) = Some (Ready (Inl x), t)) \<or>
        e = WriteZero \<and> t_poll_write (link P) cx (frame_rest fr k s1) (transport s1) = Some (Ready (Inr 0), t)"
      by (cases fr) (auto simp: poll_writing_def frame_rest_def Let_def elim!: bind_SomeE dest!: slice_eq
          split: poll.splits sum.splits if_splits)
    have out: "out s' = Writing fr k" "transport s' = t" by (simp_all add: t Writing)
    note rest = rest_offered(1) [OF inv out(1)]
    have "frame_rest fr k s' = frame_rest fr k s1" by (simp add: t)
    with w rest out show ?thesis by (auto simp: caused_def link_failed_def)
  next
    case (Flushing fr)
    with s1(2) obtain t x where "s' = s1\<lparr>transport := t\<rparr>" "e = Transport x"
      "t_poll_flush (link P) cx (transport s1) = Some (Ready (Inl x), t)"
      by (auto simp: poll_flushing_def Let_def elim!: bind_SomeE split: poll.splits sum.splits prod.splits)
    with Flushing show ?thesis by (auto simp: caused_def link_failed_def)
  qed (use s1(2) in simp)
  then show "caused P cx e s'" "e \<noteq> SequenceExhausted" by auto
qed

lemma poll_input_caused:
  assumes "conn_inv P tinv s" "poll_input P cx (b, s) = Some (Inl e, b', s')"
  shows "caused P cx e s'" "e \<noteq> SequenceExhausted"
proof -
  from assms(2) obtain free free' r t where
    free: "slice (rx_len s) (length (rx_buf s)) (rx_buf s) = Some free"
      "t_poll_read (link P) cx free (transport s) = Some (r, free', t)"
    and s': "s' = s\<lparr>transport := t, rx_buf := take (rx_len s) (rx_buf s) @ free'\<rparr>"
    and e: "(\<exists>x. r = Ready (Inl x) \<and> e = Transport x) \<or> r = Ready (Inr 0) \<and> e = UnexpectedEof"
    by (auto simp: poll_input_def Let_def elim!: bind_SomeE split: if_splits prod.splits poll.splits sum.splits)
  have "length free = capacity P - rx_len s'" "free \<noteq> []"
    using slice_eq [OF free(1)] conn_inv_parts(3,7) [OF assms(1)] by (simp_all add: s' buffers_inv_def input_inv_def)
  moreover have "transport s' = t" by (simp add: s')
  ultimately have "caused P cx e s' \<and> e \<noteq> SequenceExhausted"
    using e free(2) unfolding caused_def link_failed_def by fastforce
  then show "caused P cx e s'" "e \<noteq> SequenceExhausted" by auto
qed

lemma poll_timer_caused:
  assumes "conn_inv P tinv s" "poll_timer P cx i (b, s) = Some (Inl e, b', s')"
  shows "caused P cx e s'" "e \<noteq> SequenceExhausted"
proof -
  have "tx_retries s \<le> max_retries (config s)" using conn_inv_parts(4) [OF assms(1)] by (simp add: tx_inv_def)
  then have "caused P cx e s' \<and> e \<noteq> SequenceExhausted"
    using assms(2)
    by (auto simp: poll_timer_def Let_def caused_def elim!: bind_SomeE split: if_splits option.splits prod.splits)
  then show "caused P cx e s'" "e \<noteq> SequenceExhausted" by auto
qed

lemma step_caused:
  assumes "conn_inv P tinv s" "step P cx (b, s) = Some (Inl e, b', s')"
  shows "caused P cx e s' \<and> e \<noteq> SequenceExhausted"
  using assms(2) unfolding step_def
proof (cases rule: try_bind_SomeE)
  case (err e')
  then show ?thesis using poll_output_caused [OF assms(1), of cx b] by auto
next
  case (ok o1 bs1)
  obtain b1 s1 where bs1: "bs1 = (b1, s1)" by fastforce
  have inv1: "conn_inv P tinv s1" using poll_output_inv [OF assms(1), of cx b] ok(1) by (auto simp: bs1)
  from ok(2) show ?thesis
  proof (cases rule: try_bind_SomeE)
    case (err e')
    then show ?thesis using poll_input_caused [OF inv1, of cx b1] by (auto simp: bs1)
  next
    case (ok i bs2)
    obtain b2 s2 where bs2: "bs2 = (b2, s2)" by fastforce
    have inv2: "conn_inv P tinv s2" using poll_input_inv [OF inv1, of cx b1] ok(1) by (auto simp: bs1 bs2)
    from ok(2) show ?thesis
      by (cases rule: try_bind_SomeE) (use poll_timer_caused [OF inv2, of cx i b2] in \<open>auto simp: bs2\<close>)
  qed
qed

text \<open>A healthy connection that has been driven is healthy, or has failed for a cause.\<close>

lemma drive_caused:
  assumes "conn_inv P tinv s" "health s = HealthOk" "drive P cx (b, s) = Some (w, b', s')"
  shows "health s' = HealthOk \<or> (\<exists>e. health s' = HealthFailed e \<and> caused P cx e s' \<and> e \<noteq> SequenceExhausted)"
proof -
  from assms(2,3) have "drive_loop P cx (b, s) = Some (w, b', s')" by (simp add: drive_def is_healthy_iff)
  from drive_loop_steps [OF this] obtain b0 s0 r b1 s1 where
    steps: "(progress_step P cx)\<^sup>*\<^sup>* (b, s) (b0, s0)" "step P cx (b0, s0) = Some (r, b1, s1)"
      "last_step cx r (b1, s1) (w, b', s')"
    by auto
  have "conn_inv P tinv (snd (b0, s0)) \<and> health (snd (b0, s0)) = HealthOk"
    by (rule steps_keep [OF steps(1)]) (use assms(1,2) in \<open>auto dest: step_keeps_inv step_health\<close>)
  then have "conn_inv P tinv s0" "health s1 = HealthOk" using step_health [OF steps(2)] by auto
  moreover have "caused P cx e s1 \<and> e \<noteq> SequenceExhausted" if "r = Inl e" for e
    using step_caused [OF \<open>conn_inv P tinv s0\<close>] steps(2) that by blast
  ultimately show ?thesis
    using steps(3) by (auto simp: last_step_def fail_def Let_def split: sum.splits work.splits)
qed

end

text \<open>
  What a poll of a healthy connection leaves, and reports: no error, an error that the next poll will
  report, or one that it has reported itself; each error has its cause.
\<close>

definition first_failure ::
  "('t, 'c, 'e) params \<Rightarrow> waker \<Rightarrow> 'e connection_error option \<Rightarrow> ('t, 'c, 'e) reliable \<Rightarrow> bool" where
  "first_failure P cx error s \<longleftrightarrow>
     (case error of
        Some e \<Rightarrow> health s = HealthReported \<and> caused P cx e s
      | None \<Rightarrow> health s = HealthOk \<or> (\<exists>e. health s = HealthFailed e \<and> caused P cx e s))"

lemma first_failure_set_waiters [simp]: "first_failure P cx error (set_waiters w new s) = first_failure P cx error s"
  by (simp add: first_failure_def split: option.split)

lemma first_failure_finish: "finish op cx p s = (p', s') \<Longrightarrow> p' = p \<and> first_failure P cx error s' = first_failure P cx error s"
  by (auto simp: finish_eq)

lemma failure_caused:
  assumes "failure s = (error, s')"
    and "health s = HealthOk \<or> (\<exists>e. health s = HealthFailed e \<and> caused P cx e s)"
  shows "first_failure P cx error s'"
  using assms(1)
proof (cases rule: failure_cases)
  case (first e)
  with assms(2) show ?thesis by (simp add: first_failure_def)
qed (use assms(2) in \<open>auto simp: first_failure_def\<close>)

context reliable_link
begin

lemma poll_read_failure:
  assumes "conn_inv P tinv s" "health s = HealthOk" "poll_read P cx buf s = Some (r, buf', s')"
  shows "first_failure P cx (poll_error r) s' \<and>
    (\<forall>e. r = Ready (Inl e) \<longrightarrow> e \<noteq> SequenceExhausted \<and> buf' = buf \<and> \<not> rx_start s' < rx_end s')"
  using assms(3)
proof (cases rule: poll_read_cases)
  case empty
  then show ?thesis using assms(2) by (simp add: first_failure_def)
next
  case (data w b s1 n)
  have "first_failure P cx None (s1\<lparr>rx_start := rx_start s1 + n\<rparr>)"
    using drive_caused [OF assms(1,2) data(2)] by (auto simp: first_failure_def)
  then show ?thesis using first_failure_finish [OF data(7), of P None] by auto
next
  case (wait w b s1 err s2)
  note c = drive_caused [OF assms(1,2) wait(2)]
  have r: "poll_error r = err" using first_failure_finish [OF wait(6)] by (cases err) auto
  have "first_failure P cx err s2" using failure_caused [OF wait(4)] c by blast
  moreover have "e \<noteq> SequenceExhausted \<and> buf' = buf \<and> \<not> rx_start s' < rx_end s'" if "r = Ready (Inl e)" for e
  proof -
    have "health s1 = HealthFailed e" "s2 = s1\<lparr>health := HealthReported\<rparr>"
      using wait(4) r c that by (auto elim: failure_cases)
    moreover have "rx_start s' = rx_start s2" "rx_end s' = rx_end s2" using wait(6) by (auto simp: finish_eq)
    ultimately show ?thesis using wait(3,5) c by auto
  qed
  ultimately show ?thesis using first_failure_finish [OF wait(6)] r by blast
qed

lemma poll_flush_failure:
  assumes "conn_inv P tinv s" "health s = HealthOk" "poll_flush P cx s = Some (r, s')"
  shows "first_failure P cx (poll_error r) s'" and "r = Ready (Inl e) \<Longrightarrow> e \<noteq> SequenceExhausted"
proof -
  from assms(3) obtain w b s1 err s2 where d: "drive P cx (new_budget, s) = Some (w, b, s1)" "failure s1 = (err, s2)"
    and fin: "finish OpFlush cx (case err of Some e \<Rightarrow> Ready (Inl e)
       | None \<Rightarrow> if flush_ready s2 then Ready (Inr ()) else Pending) s2 = (r, s')"
    by (rule poll_flush_cases)
  note c = drive_caused [OF assms(1,2) d(1)]
  have r: "poll_error r = err" using first_failure_finish [OF fin] by (cases err) (auto split: if_splits)
  show "first_failure P cx (poll_error r) s'"
    using failure_caused [OF d(2)] c first_failure_finish [OF fin] r by blast
  show "e \<noteq> SequenceExhausted" if "r = Ready (Inl e)"
    using c d(2) r that by (auto elim: failure_cases)
qed

lemma poll_progress_failure:
  assumes "conn_inv P tinv s" "health s = HealthOk" "poll_progress P cx s = Some (r, s')"
  shows "first_failure P cx (case r of Ready e \<Rightarrow> Some e | Pending \<Rightarrow> None) s'"
    and "r = Ready e \<Longrightarrow> e \<noteq> SequenceExhausted"
proof -
  from assms(3) obtain w b s1 err s2 where d: "drive P cx (new_budget, s) = Some (w, b, s1)" "failure s1 = (err, s2)"
    and fin: "finish OpProgress cx (case err of Some e \<Rightarrow> Ready e | None \<Rightarrow> Pending) s2 = (r, s')"
    by (rule poll_progress_cases)
  note c = drive_caused [OF assms(1,2) d(1)]
  have r: "(case r of Ready e \<Rightarrow> Some e | Pending \<Rightarrow> None) = err"
    using first_failure_finish [OF fin] by (cases err) auto
  show "first_failure P cx (case r of Ready e \<Rightarrow> Some e | Pending \<Rightarrow> None) s'"
    unfolding r using failure_caused [OF d(2)] c first_failure_finish [OF fin] by blast
  show "e \<noteq> SequenceExhausted" if "r = Ready e"
    using c d(2) r that by (auto elim: failure_cases)
qed

lemma seq_check_caused:
  assumes "health s = HealthOk \<or> (\<exists>e. health s = HealthFailed e \<and> caused P cx e s)"
  shows "health (seq_check s) = HealthOk \<or>
    (\<exists>e. health (seq_check s) = HealthFailed e \<and> caused P cx e (seq_check s))"
proof (cases "write_ready s \<and> tx_next s > ucast (- 1 :: u32)")
  case True
  then have "caused P cx SequenceExhausted s" using unat_gt_u32_max [of "tx_next s"] by (simp add: caused_def)
  with True assms show ?thesis by (auto simp: seq_check_def fail_def Let_def)
next
  case False
  then have "seq_check s = s" by (auto simp: seq_check_def)
  with assms show ?thesis by simp
qed

lemma queue_packet_failure:
  assumes "conn_inv P tinv s" "health s = HealthOk" "buf \<noteq> []" "queue_packet P cx buf s = Some (r, s')"
  shows "first_failure P cx (poll_error r) s'"
  using assms(4)
proof (cases rule: queue_packet_cases)
  case (error w b s1 e)
  show ?thesis
    using failure_caused [OF error(2) seq_check_caused] drive_caused [OF assms(1,2) error(1)] error(3) by auto
next
  case (busy w b)
  then show ?thesis by (simp add: first_failure_def)
next
  case (accept w b s1 enc)
  have inv: "conn_inv P tinv s1" using drive_inv [OF assms(1), of cx new_budget] accept(1) by auto
  let ?payload = "take (min (length buf) (MAX_PAYLOAD P)) buf"
  have "?payload \<noteq> []" "length ?payload \<le> MAX_PAYLOAD P"
    using assms(3) conn_inv_parts(3) [OF inv] by (auto simp: buffers_inv_def)
  from queue_data [OF inv accept(3,4) this] accept(5) have q: "conn_inv P tinv (queued enc s1)" by auto
  have h: "health (queued enc s1) = HealthOk" using accept(2) by (simp add: queued_def split: prod.split)
  show ?thesis
  proof (cases "w = Yield")
    case True
    with accept(6,7) h show ?thesis by (simp add: first_failure_def)
  next
    case False
    with accept(7) obtain w' b' where d: "drive P cx (b, queued enc s1) = Some (w', b', s')" by auto
    from drive_caused [OF q h d] accept(6) show ?thesis by (auto simp: first_failure_def)
  qed
qed

lemma poll_write_failure:
  assumes "conn_inv P tinv s" "health s = HealthOk" "poll_write P cx buf s = Some (r, s')"
  shows "first_failure P cx (poll_error r) s'"
  using assms(3)
proof (cases rule: poll_write_cases)
  case (queue p s1)
  from queue_packet_failure [OF assms(1,2) queue(1,2)] first_failure_finish [OF queue(3)] show ?thesis by simp
qed (use assms(2) in \<open>simp add: first_failure_def\<close>)

end

section \<open>The contract of the trait\<close>

fun call_op :: "call \<Rightarrow> op" where
  "call_op ReadCall = OpRead"
| "call_op WriteCall = OpWrite"
| "call_op FlushCall = OpFlush"

text \<open>
  What a pending call of a connection has arranged: the waker is in the slot of the operation, whose
  condition does not hold, so the poll after which it holds wakes it; and it has been woken itself, or
  is registered with every source of progress of the connection.
\<close>

definition conn_arranged ::
  "('t, 'c, 'e) params \<Rightarrow> call \<Rightarrow> waker \<Rightarrow> ('t, 'c, 'e) reliable \<Rightarrow> ('t, 'c, 'e) reliable \<Rightarrow> bool" where
  "conn_arranged P call cx s s' \<longleftrightarrow>
     waiters s' (call_op call) = Some cx \<and> is_healthy s' \<and> \<not> op_ready (call_op call) s' \<and> wakes_again P cx s s'"

lemma wakeups_pending: "wakeups op cx False s s' \<Longrightarrow> waiters s' op = Some cx \<and> is_healthy s' \<and> \<not> op_ready op s'"
  by (simp add: wakeups_def Let_def)

lemma poll_read_bytes:
  assumes "poll_read P cx buf s = Some (Ready (Inr n), buf', s')" "buf \<noteq> []"
  shows "0 < n" "n \<le> length buf" "n \<le> rx_start s'" "rx_start s' \<le> rx_end s'"
    "buf' = take n (drop (rx_start s' - n) (rx_payload s')) @ drop n buf"
proof -
  have "0 < n \<and> n \<le> length buf \<and> n \<le> rx_start s' \<and> rx_start s' \<le> rx_end s' \<and>
      buf' = take n (drop (rx_start s' - n) (rx_payload s')) @ drop n buf"
    using assms(1)
  proof (cases rule: poll_read_cases)
    case (data w b s1 m)
    then have "m = n" "rx_payload s' = rx_payload s1" "rx_start s' = rx_start s1 + m" "rx_end s' = rx_end s1"
      by (auto simp: finish_eq set_waiters_def)
    with data(1,3,4,6) show ?thesis by auto
  next
    case (wait w b s1 e s2)
    then show ?thesis by (cases e) (auto simp: finish_eq)
  qed (use assms(2) in simp)
  then show "0 < n" "n \<le> length buf" "n \<le> rx_start s'" "rx_start s' \<le> rx_end s'"
    "buf' = take n (drop (rx_start s' - n) (rx_payload s')) @ drop n buf" by blast+
qed

lemma poll_flush_done:
  assumes "poll_flush P cx s = Some (Ready (Inr u), s')"
  shows "tx s' = TxIdle \<and> out s' = OutIdle \<and> ack_pending s' = None"
proof -
  have "flush_ready s'" using assms by (rule poll_flush_cases) (auto simp: finish_eq split: option.splits if_splits)
  then show ?thesis by (simp add: flush_ready_def)
qed

sublocale reliable_link \<subseteq> contract: transport_laws "reliable_ops P" "conn_inv P tinv" "\<lambda>_. False"
  "\<lambda>s. tx s = TxIdle \<and> out s = OutIdle \<and> ack_pending s = None" "conn_arranged P"
proof unfold_locales
  fix s cx
  assume inv: "conn_inv P tinv s"
  show "n \<le> length buf" if "t_poll_read (reliable_ops P) cx buf s = Some (Ready (Inr n), buf', s')" for buf buf' n s'
    using poll_read_inv [OF inv, of cx buf] that by (auto simp: reliable_ops_def)
  show False if "buf \<noteq> []" "t_poll_read (reliable_ops P) cx buf s = Some (Ready (Inr 0), buf', s')" for buf buf' s'
    using poll_read_bytes(1) [OF _ that(1)] that(2) by (fastforce simp: reliable_ops_def)
  show "conn_arranged P ReadCall cx s s'"
    if "buf \<noteq> []" "t_poll_read (reliable_ops P) cx buf s = Some (Pending, buf', s')" for buf buf' s'
    using poll_read_wakeups [OF _ that(1)] poll_read_wakes_again [OF inv] that(2)
    by (fastforce simp: reliable_ops_def conn_arranged_def dest: wakeups_pending)
  show "n \<le> length buf" if "t_poll_write (reliable_ops P) cx buf s = Some (Ready (Inr n), s')" for buf n s'
    using poll_write_inv [OF inv, of cx buf] that by (auto simp: reliable_ops_def)
  show "conn_arranged P WriteCall cx s s'"
    if "buf \<noteq> []" "t_poll_write (reliable_ops P) cx buf s = Some (Pending, s')" for buf s'
    using poll_write_wakeups [OF _ that(1)] poll_write_wakes_again [OF inv] that(2)
    by (fastforce simp: reliable_ops_def conn_arranged_def dest: wakeups_pending)
  show "conn_arranged P FlushCall cx s s'" if "t_poll_flush (reliable_ops P) cx s = Some (Pending, s')" for s'
    using poll_flush_wakeups poll_flush_wakes_again [OF inv] that
    by (fastforce simp: reliable_ops_def conn_arranged_def dest: wakeups_pending)
  show "tx s' = TxIdle \<and> out s' = OutIdle \<and> ack_pending s' = None"
    if "t_poll_flush (reliable_ops P) cx s = Some (Ready (Inr u), s')" for u s'
    using that by (auto simp: reliable_ops_def dest: poll_flush_done)
qed

context reliable_link
begin

lemma contract_laws:
  "transport_laws (reliable_ops P) (conn_inv P tinv) (\<lambda>_. False)
     (\<lambda>s. tx s = TxIdle \<and> out s = OutIdle \<and> ack_pending s = None) (conn_arranged P)"
  by (rule contract.transport_laws_axioms)

end

end
