(* ===== verification/Test_Link.thy ===== *)
theory Test_Link
  imports Connection_Polls
begin

text \<open>
  The links and the clock of \<open>src/tests/support\<close>: \<open>FakeClock\<close>, the byte pipes of \<open>Endpoint\<close> with their
  faults, and \<open>Trickle\<close>. They keep the laws of \<open>Transport\<close>, so the lemmas of the connection hold on
  them; the witnesses run the connection on them. A waker called by a link goes into its trace
  \<open>rung\<close>. The filter of a pipe is a function of the number of the frame and its bytes.
\<close>

section \<open>The clock\<close>

record fake_clock =
  ticks_now :: u64
  timer_waiters :: "(u64 \<times> waker) list"
  latest_only :: bool

definition default_clock :: fake_clock where
  "default_clock = \<lparr>ticks_now = 0, timer_waiters = [], latest_only = False\<rparr>"

definition latest_waker_only :: fake_clock where
  "latest_waker_only = default_clock\<lparr>latest_only := True\<rparr>"

text \<open>Time passes; the wakers of the deadlines reached are called, in order.\<close>

definition advance :: "u64 \<Rightarrow> fake_clock \<Rightarrow> (waker list \<times> fake_clock) option" where
  "advance ticks c = do {
     t \<leftarrow> add_checked (ticks_now c) ticks;
     let (due, waiting) = partition (\<lambda>(deadline, _). deadline \<le> t) (timer_waiters c);
     Some (map snd due, c\<lparr>ticks_now := t, timer_waiters := waiting\<rparr>)
   }"

definition deadlines :: "fake_clock \<Rightarrow> u64 list" where
  "deadlines c = remdups_adj (sort (map fst (timer_waiters c)))"

definition clock_now :: "fake_clock \<Rightarrow> u64 \<times> fake_clock" where
  "clock_now c = (ticks_now c, c)"

definition clock_poll_deadline :: "waker \<Rightarrow> u64 \<Rightarrow> fake_clock \<Rightarrow> unit poll \<times> fake_clock" where
  "clock_poll_deadline cx deadline c =
     (if ticks_now c \<ge> deadline then (Ready (), c)
      else
        let c = (if latest_only c then c\<lparr>timer_waiters := []\<rparr> else c);
            kept = [(d, w) \<leftarrow> timer_waiters c. \<not> (d = deadline \<and> will_wake w cx)]
        in (Pending, c\<lparr>timer_waiters := kept @ [(deadline, cx)]\<rparr>))"

definition clock_ops :: "fake_clock timer_ops" where
  "clock_ops = \<lparr>c_now = clock_now, c_poll_deadline = clock_poll_deadline\<rparr>"

section \<open>Pipes\<close>

text \<open>
  A \<open>Filter\<close>, a closure that may keep a state: what it does to a frame of a number, and the filter
  that it is from then on.
\<close>

codatatype frame_filter = Frame_Filter (run_filter: "nat \<Rightarrow> u8 list \<Rightarrow> u8 list \<times> frame_filter")

text \<open>A function of the frame alone, and \<open>drop_first\<close> of \<open>src/tests/connection.rs\<close>, which has a state\<close>

primcorec stateless :: "(nat \<Rightarrow> u8 list \<Rightarrow> u8 list) \<Rightarrow> frame_filter" where
  "run_filter (stateless f) = (\<lambda>index wire. map_prod id (\<lambda>_. stateless f) (f index wire, ()))"

primcorec drop_first :: "(u8 list \<Rightarrow> bool) \<Rightarrow> bool \<Rightarrow> frame_filter" where
  "run_filter (drop_first matches dropped) = (\<lambda>index wire. map_prod id (drop_first matches)
     (if \<not> dropped \<and> matches wire then ([], True) else (wire, dropped)))"

lemma drop_first_run:
  "run_filter (drop_first matches True) i wire = (wire, drop_first matches True)"
  "run_filter (drop_first matches False) i wire =
     (if matches wire then ([], drop_first matches True) else (wire, drop_first matches False))"
  by simp_all

record pipe =
  queue :: "u8 list"
  partial :: "u8 list"
  log_frames :: "u8 list list"
  filter_frame :: "frame_filter option"
  closed :: bool
  reader :: "waker option"

definition default_pipe :: pipe where
  "default_pipe =
     \<lparr>queue = [], partial = [], log_frames = [], filter_frame = None, closed = False, reader = None\<rparr>"

text \<open>A byte goes into the frame under way; a complete frame is logged, filtered and delivered.\<close>

definition push_byte :: "u8 \<Rightarrow> pipe \<Rightarrow> pipe" where
  "push_byte byte p =
     (if byte \<noteq> 0 then p\<lparr>partial := partial p @ [byte]\<rparr>
      else if partial p = [] then p\<lparr>queue := queue p @ [0]\<rparr>
      else
        let wire = partial p @ [0];
            index = length (log_frames p);
            (delivered, filter') = (case filter_frame p of
               Some f \<Rightarrow> map_prod id Some (run_filter f index wire)
             | None \<Rightarrow> (wire, None))
        in p\<lparr>partial := [], log_frames := log_frames p @ [wire], filter_frame := filter',
             queue := queue p @ delivered\<rparr>)"

definition wake_reader :: "pipe \<Rightarrow> waker list \<times> pipe" where
  "wake_reader p =
     (case reader p of Some w \<Rightarrow> ([w], p\<lparr>reader := None\<rparr>) | None \<Rightarrow> ([], p))"

section \<open>Endpoints\<close>

text \<open>\<open>MockError\<close> is the message.\<close>

record control =
  read_chunk :: nat
  write_chunk :: nat
  reads_blocked :: bool
  writes_blocked :: bool
  write_budget :: "nat option"
  flush_blocked :: bool
  read_error :: "string option"
  write_error :: "string option"
  flush_error :: "string option"
  write_zero :: bool
  gate_waker :: "waker option"

text \<open>\<open>usize::MAX\<close> is a parameter: the width of \<open>usize\<close> is that of the machine.\<close>

definition new_control :: "nat \<Rightarrow> control" where
  "new_control usize_max =
     \<lparr>read_chunk = usize_max, write_chunk = usize_max, reads_blocked = False,
      writes_blocked = False, write_budget = None, flush_blocked = False, read_error = None,
      write_error = None, flush_error = None, write_zero = False, gate_waker = None\<rparr>"

record endpoint =
  incoming :: pipe
  outgoing :: pipe
  ctl :: control
  rung :: "waker list"

definition new_endpoint :: "nat \<Rightarrow> endpoint" where
  "new_endpoint usize_max =
     \<lparr>incoming = default_pipe, outgoing = default_pipe, ctl = new_control usize_max, rung = []\<rparr>"

definition endpoint_read ::
  "waker \<Rightarrow> u8 list \<Rightarrow> endpoint \<Rightarrow> ((string + nat) poll \<times> u8 list \<times> endpoint) option" where
  "endpoint_read cx buf t =
     (case read_error (ctl t) of
        Some error \<Rightarrow> Some (Ready (Inl error), buf, t\<lparr>ctl := (ctl t)\<lparr>read_error := None\<rparr>\<rparr>)
      | None \<Rightarrow>
          if reads_blocked (ctl t)
          then Some (Pending, buf, t\<lparr>ctl := (ctl t)\<lparr>gate_waker := Some cx\<rparr>\<rparr>)
          else
            let q = queue (incoming t) in
            if q = [] then
              if closed (incoming t) then Some (Ready (Inr 0), buf, t)
              else Some (Pending, buf, t\<lparr>incoming := (incoming t)\<lparr>reader := Some cx\<rparr>\<rparr>)
            else
              let n = min (min (length buf) (read_chunk (ctl t))) (length q) in
              Some (Ready (Inr n), take n q @ drop n buf,
                    t\<lparr>incoming := (incoming t)\<lparr>queue := drop n q\<rparr>\<rparr>))"

definition endpoint_write ::
  "waker \<Rightarrow> u8 list \<Rightarrow> endpoint \<Rightarrow> ((string + nat) poll \<times> endpoint) option" where
  "endpoint_write cx buf t =
     (case write_error (ctl t) of
        Some error \<Rightarrow> Some (Ready (Inl error), t\<lparr>ctl := (ctl t)\<lparr>write_error := None\<rparr>\<rparr>)
      | None \<Rightarrow>
          if write_zero (ctl t) then Some (Ready (Inr 0), t)
          else if writes_blocked (ctl t) \<or> write_budget (ctl t) = Some 0
          then Some (Pending, t\<lparr>ctl := (ctl t)\<lparr>gate_waker := Some cx\<rparr>\<rparr>)
          else
            let n = min (length buf) (write_chunk (ctl t));
                n = (case write_budget (ctl t) of Some budget \<Rightarrow> min n budget | None \<Rightarrow> n);
                c = (ctl t)\<lparr>write_budget := map_option (\<lambda>budget. budget - n) (write_budget (ctl t))\<rparr>;
                (rang, p) = wake_reader (fold push_byte (take n buf) (outgoing t))
            in Some (Ready (Inr n), t\<lparr>ctl := c, outgoing := p, rung := rung t @ rang\<rparr>))"

definition endpoint_flush :: "waker \<Rightarrow> endpoint \<Rightarrow> ((string + unit) poll \<times> endpoint) option" where
  "endpoint_flush cx t =
     (case flush_error (ctl t) of
        Some error \<Rightarrow> Some (Ready (Inl error), t\<lparr>ctl := (ctl t)\<lparr>flush_error := None\<rparr>\<rparr>)
      | None \<Rightarrow>
          if flush_blocked (ctl t)
          then Some (Pending, t\<lparr>ctl := (ctl t)\<lparr>gate_waker := Some cx\<rparr>\<rparr>)
          else Some (Ready (Inr ()), t))"

definition endpoint_ops :: "(endpoint, string) transport_ops" where
  "endpoint_ops =
     \<lparr>t_poll_read = endpoint_read, t_poll_write = endpoint_write, t_poll_flush = endpoint_flush\<rparr>"

text \<open>What a test does to an endpoint\<close>

definition release :: "bool \<Rightarrow> endpoint \<Rightarrow> endpoint" where
  "release blocked t =
     (if blocked then t
      else case gate_waker (ctl t) of
        Some w \<Rightarrow> t\<lparr>ctl := (ctl t)\<lparr>gate_waker := None\<rparr>, rung := rung t @ [w]\<rparr>
      | None \<Rightarrow> t)"

definition block_writes :: "bool \<Rightarrow> endpoint \<Rightarrow> endpoint" where
  "block_writes blocked t = release blocked (t\<lparr>ctl := (ctl t)\<lparr>writes_blocked := blocked\<rparr>\<rparr>)"

definition limit_writes :: "nat option \<Rightarrow> endpoint \<Rightarrow> endpoint" where
  "limit_writes budget t =
     release (budget = Some 0) (t\<lparr>ctl := (ctl t)\<lparr>write_budget := budget\<rparr>\<rparr>)"

definition block_flush :: "bool \<Rightarrow> endpoint \<Rightarrow> endpoint" where
  "block_flush blocked t = release blocked (t\<lparr>ctl := (ctl t)\<lparr>flush_blocked := blocked\<rparr>\<rparr>)"

definition block_reads :: "bool \<Rightarrow> endpoint \<Rightarrow> endpoint" where
  "block_reads blocked t = release blocked (t\<lparr>ctl := (ctl t)\<lparr>reads_blocked := blocked\<rparr>\<rparr>)"

definition inject_incoming :: "u8 list \<Rightarrow> endpoint \<Rightarrow> endpoint" where
  "inject_incoming bytes t =
     (let (rang, p) = wake_reader ((incoming t)\<lparr>queue := queue (incoming t) @ bytes\<rparr>)
      in t\<lparr>incoming := p, rung := rung t @ rang\<rparr>)"

definition close_incoming :: "endpoint \<Rightarrow> endpoint" where
  "close_incoming t =
     (let (rang, p) = wake_reader ((incoming t)\<lparr>closed := True\<rparr>)
      in t\<lparr>incoming := p, rung := rung t @ rang\<rparr>)"

definition set_read_chunk :: "nat \<Rightarrow> endpoint \<Rightarrow> endpoint" where
  "set_read_chunk chunk t = t\<lparr>ctl := (ctl t)\<lparr>read_chunk := chunk\<rparr>\<rparr>"

definition set_write_chunk :: "nat \<Rightarrow> endpoint \<Rightarrow> endpoint" where
  "set_write_chunk chunk t = t\<lparr>ctl := (ctl t)\<lparr>write_chunk := chunk\<rparr>\<rparr>"

definition fail_next_read :: "string \<Rightarrow> endpoint \<Rightarrow> endpoint" where
  "fail_next_read error t = t\<lparr>ctl := (ctl t)\<lparr>read_error := Some error\<rparr>\<rparr>"

definition fail_next_write :: "string \<Rightarrow> endpoint \<Rightarrow> endpoint" where
  "fail_next_write error t = t\<lparr>ctl := (ctl t)\<lparr>write_error := Some error\<rparr>\<rparr>"

definition fail_next_flush :: "string \<Rightarrow> endpoint \<Rightarrow> endpoint" where
  "fail_next_flush error t = t\<lparr>ctl := (ctl t)\<lparr>flush_error := Some error\<rparr>\<rparr>"

definition accept_zero_bytes :: "bool \<Rightarrow> endpoint \<Rightarrow> endpoint" where
  "accept_zero_bytes enabled t = t\<lparr>ctl := (ctl t)\<lparr>write_zero := enabled\<rparr>\<rparr>"

definition filter_outgoing :: "frame_filter \<Rightarrow> endpoint \<Rightarrow> endpoint" where
  "filter_outgoing f t = t\<lparr>outgoing := (outgoing t)\<lparr>filter_frame := Some f\<rparr>\<rparr>"

definition written_frames :: "endpoint \<Rightarrow> u8 list list" where
  "written_frames t = log_frames (outgoing t)"

section \<open>The two ends of a link\<close>

text \<open>
  \<open>link\<close> makes two endpoints that share their pipes: the outgoing pipe of one is the incoming pipe
  of the other. Each carries its own copy here; after an operation on one, the other \<open>follow\<close>s.
\<close>

definition new_link :: "nat \<Rightarrow> endpoint \<times> endpoint" where
  "new_link usize_max = (new_endpoint usize_max, new_endpoint usize_max)"

definition shared :: "endpoint \<Rightarrow> endpoint \<Rightarrow> bool" where
  "shared a b \<longleftrightarrow> incoming a = outgoing b \<and> outgoing a = incoming b"

definition follow :: "endpoint \<Rightarrow> endpoint \<Rightarrow> endpoint" where
  "follow a b = b\<lparr>incoming := outgoing a, outgoing := incoming a\<rparr>"

lemma follow_shared: "shared a (follow a b)" "shared a b \<Longrightarrow> follow a b = b"
  by (simp_all add: shared_def follow_def)

lemma new_link_shared: "shared (fst (new_link m)) (snd (new_link m))"
  by (simp add: new_link_def shared_def new_endpoint_def)

text \<open>Without a filter, the bytes written at one end are those that arrive at the other.\<close>

lemma push_bytes:
  assumes "filter_frame p = None"
  shows "queue (fold push_byte bs p) @ partial (fold push_byte bs p) = queue p @ partial p @ bs"
    and "filter_frame (fold push_byte bs p) = None"
    and "bs \<noteq> [] \<Longrightarrow> last bs = 0 \<Longrightarrow> partial (fold push_byte bs p) = []"
proof -
  have "queue (fold push_byte bs p) @ partial (fold push_byte bs p) = queue p @ partial p @ bs \<and>
      filter_frame (fold push_byte bs p) = None"
    using assms by (induction bs arbitrary: p) (auto simp: push_byte_def Let_def)
  then show "queue (fold push_byte bs p) @ partial (fold push_byte bs p) = queue p @ partial p @ bs"
    and "filter_frame (fold push_byte bs p) = None" by auto
  show "partial (fold push_byte bs p) = []" if "bs \<noteq> []" "last bs = 0"
  proof -
    have "fold push_byte bs p = push_byte 0 (fold push_byte (butlast bs) p)"
      using that by (metis append_butlast_last_id fold_append fold_simps(1,2) comp_apply)
    then show ?thesis by (simp add: push_byte_def Let_def split: prod.splits)
  qed
qed

section \<open>Frames as the tests read them\<close>

datatype wire = WireData u64 u32 "u8 list" | WireAck u64 u32

text \<open>The outer option is a panic of \<open>parse\<close>, the inner one the result.\<close>

definition parse_wire :: "u8 list \<Rightarrow> wire option option" where
  "parse_wire frame =
     (case decode_to_slice frame (replicate 512 0) of
        (Inl _, _) \<Rightarrow> Some None
      | (Inr decoded, buf) \<Rightarrow>
          if frame_consumed decoded \<noteq> length frame then Some None
          else do {
            bytes \<leftarrow> slice 0 (frame_len decoded) buf;
            packet \<leftarrow> parse bytes;
            Some (map_option (\<lambda>p. case p of
              Ack sess seq \<Rightarrow> WireAck sess seq
            | Data sess seq payload \<Rightarrow> WireData sess seq payload) packet)
          })"

definition is_data :: "u8 list \<Rightarrow> bool option" where
  "is_data frame = map_option (\<lambda>w. case w of Some (WireData _ _ _) \<Rightarrow> True | _ \<Rightarrow> False) (parse_wire frame)"

definition is_ack :: "u8 list \<Rightarrow> bool option" where
  "is_ack frame = map_option (\<lambda>w. case w of Some (WireAck _ _) \<Rightarrow> True | _ \<Rightarrow> False) (parse_wire frame)"

text \<open>The logged frame of a packet, which starts after the first delimiter, is read back.\<close>

lemma parse_wire_frame:
  assumes "valid_packet p" "length (packet_bytes p) \<le> 512"
  shows "parse_wire (tl (packet_frame p)) =
    Some (Some (case p of Ack s q \<Rightarrow> WireAck s q | Data s q x \<Rightarrow> WireData s q x))"
proof -
  have "decode_to_slice (cobs (packet_bytes p) @ [0]) (replicate 512 0) =
      (Inr \<lparr>frame_len = length (packet_bytes p), frame_consumed = length (cobs (packet_bytes p)) + 1\<rparr>,
       packet_bytes p @ drop (length (packet_bytes p)) (replicate 512 0))"
    using decode_delimited [of "cobs (packet_bytes p)" 0 "[]" "replicate 512 0"] assms(2)
      cobs_no_zero [of "packet_bytes p"] length_cobs_gt [of "packet_bytes p"]
    by (auto simp: unstuff_cobs)
  moreover have "tl (packet_frame p) = cobs (packet_bytes p) @ [0]" by (simp add: packet_frame_def)
  ultimately show ?thesis
    using assms(1) by (simp add: parse_wire_def slice_def parse_packet_bytes split: packet.split)
qed

section \<open>A link that takes one byte at a time and counts its calls\<close>

record trickle =
  reads :: nat
  writes :: nat
  flushes :: nat
  written :: "u8 list"
  trickle_incoming :: "u8 list"
  trickle_reader :: "waker option"
  trickle_rung :: "waker list"

definition default_trickle :: trickle where
  "default_trickle =
     \<lparr>reads = 0, writes = 0, flushes = 0, written = [], trickle_incoming = [],
      trickle_reader = None, trickle_rung = []\<rparr>"

definition calls :: "trickle \<Rightarrow> nat" where
  "calls t = reads t + writes t + flushes t"

definition inject :: "u8 list \<Rightarrow> trickle \<Rightarrow> trickle" where
  "inject bytes t =
     (let t = t\<lparr>trickle_incoming := trickle_incoming t @ bytes\<rparr> in
      case trickle_reader t of
        Some w \<Rightarrow> t\<lparr>trickle_reader := None, trickle_rung := trickle_rung t @ [w]\<rparr>
      | None \<Rightarrow> t)"

definition trickle_read ::
  "waker \<Rightarrow> u8 list \<Rightarrow> trickle \<Rightarrow> ((infallible + nat) poll \<times> u8 list \<times> trickle) option" where
  "trickle_read cx buf t =
     (let t = t\<lparr>reads := reads t + 1\<rparr>; q = trickle_incoming t in
      if q = [] then Some (Pending, buf, t\<lparr>trickle_reader := Some cx\<rparr>)
      else
        let n = min (length buf) (length q) in
        Some (Ready (Inr n), take n q @ drop n buf, t\<lparr>trickle_incoming := drop n q\<rparr>))"

definition trickle_write ::
  "waker \<Rightarrow> u8 list \<Rightarrow> trickle \<Rightarrow> ((infallible + nat) poll \<times> trickle) option" where
  "trickle_write cx buf t = do {
     let t = t\<lparr>writes := writes t + 1\<rparr>;
     byte \<leftarrow> index buf 0;
     Some (Ready (Inr 1), t\<lparr>written := written t @ [byte]\<rparr>)
   }"

definition trickle_flush :: "waker \<Rightarrow> trickle \<Rightarrow> ((infallible + unit) poll \<times> trickle) option" where
  "trickle_flush cx t = Some (Ready (Inr ()), t\<lparr>flushes := flushes t + 1\<rparr>)"

definition trickle_ops :: "(trickle, infallible) transport_ops" where
  "trickle_ops =
     \<lparr>t_poll_read = trickle_read, t_poll_write = trickle_write, t_poll_flush = trickle_flush\<rparr>"

section \<open>The laws\<close>

lemma index_0: "buf \<noteq> [] \<Longrightarrow> index buf 0 = Some (hd buf)"
  by (cases buf) (simp_all add: index_def)

interpretation endpoint_link: transport_total endpoint_ops "\<lambda>_. True"
  by unfold_locales
    (auto simp: endpoint_ops_def endpoint_read_def endpoint_write_def endpoint_flush_def Let_def
      split: option.splits if_splits prod.splits)

text \<open>
  The contract, for chunks that are not empty: the stream ends where the pipe is closed and empty,
  an endpoint buffers nothing itself, and a pending waker is kept at the gate that is closed or, for
  want of input, in the pipe.
\<close>

definition endpoint_arranged :: "call \<Rightarrow> waker \<Rightarrow> endpoint \<Rightarrow> endpoint \<Rightarrow> bool" where
  "endpoint_arranged call cx t t' \<longleftrightarrow>
     (if call = ReadCall \<and> \<not> reads_blocked (ctl t') then
        queue (incoming t') = [] \<and> reader (incoming t') = Some cx
      else gate_waker (ctl t') = Some cx)"

interpretation endpoint_contract: transport_laws endpoint_ops "\<lambda>t. 0 < read_chunk (ctl t)"
  "\<lambda>t. closed (incoming t) \<and> queue (incoming t) = []" "\<lambda>t. \<not> flush_blocked (ctl t)" endpoint_arranged
  by unfold_locales
    (auto simp: endpoint_ops_def endpoint_read_def endpoint_write_def endpoint_flush_def endpoint_arranged_def Let_def
      min_def
      split: option.splits if_splits prod.splits)

interpretation trickle_link: transport_laws trickle_ops "\<lambda>_. True" "\<lambda>_. False" "\<lambda>_. True"
  "\<lambda>_ cx _ t. trickle_incoming t = [] \<and> trickle_reader t = Some cx"
  by unfold_locales
    (auto simp: trickle_ops_def trickle_read_def trickle_write_def trickle_flush_def Let_def index_0
      Suc_le_eq min_def split: if_splits)

text \<open>The type parameters of the connections of the tests\<close>

definition endpoint_params :: "nat \<Rightarrow> (endpoint, fake_clock, string) params" where
  "endpoint_params n = \<lparr>link = endpoint_ops, clock = clock_ops, capacity = n\<rparr>"

definition trickle_params :: "nat \<Rightarrow> (trickle, fake_clock, infallible) params" where
  "trickle_params n = \<lparr>link = trickle_ops, clock = clock_ops, capacity = n\<rparr>"

interpretation endpoint_conn: reliable_link "endpoint_params n" "\<lambda>_. True" for n
  unfolding endpoint_params_def reliable_link_def params.simps
  by (rule endpoint_link.transport_total_axioms)

interpretation trickle_conn: reliable_link "trickle_params n" "\<lambda>_. True" for n
  unfolding trickle_params_def reliable_link_def params.simps
  by (rule trickle_link.transport_total_axioms)

text \<open>A connection stacked on a connection\<close>

definition stacked_params ::
  "nat \<Rightarrow> nat \<Rightarrow> ((endpoint, fake_clock, string) reliable, fake_clock, string connection_error) params"
  where
  "stacked_params n m =
     \<lparr>link = reliable_ops (endpoint_params n), clock = clock_ops, capacity = m\<rparr>"

interpretation stacked_conn: reliable_link "stacked_params n m" "conn_inv (endpoint_params n) (\<lambda>_. True)"
  for n m
  unfolding stacked_params_def reliable_link_def params.simps
  by (rule endpoint_conn.stacked.transport_total_axioms)

end
