(* ===== verification/Connection_Properties.thy ===== *)
theory Connection_Properties
  imports Poll_Effects Test_Link
begin

text \<open>
  The properties of one connection: its invariant and freedom from panics on every link, its
  input, its waiters and its failures. The witnesses run it on the links of the tests.
\<close>

section \<open>A concrete connection\<close>

definition example_conn :: "(trickle, fake_clock, infallible) reliable" where
  "example_conn = (case new_reliable (trickle_params 32) default_trickle default_clock (new_config 7) of
     Inr s \<Rightarrow> s)"

lemma max_payload_zero: "max_payload n = 0 \<longleftrightarrow> n < 21"
proof -
  have "0 < max_payload n \<longleftrightarrow> 21 \<le> n"
    using max_payload_iff [of 1 n]
    by (simp add: OVERHEAD_17 max_encoding_length_def max_encoding_overhead_def div_ceil_254 Suc_le_eq)
  then show ?thesis by linarith
qed

lemma new_reliable_cases:
  "(\<exists>s. new_reliable P t c cfg = Inr s) \<longleftrightarrow> 21 \<le> capacity P"
  "new_reliable P t c cfg = Inl e \<longleftrightarrow> capacity P < 21"
  by (cases e; simp add: new_reliable_def MAX_PAYLOAD_def max_payload_zero not_less)+

lemma example_new:
  "new_reliable (trickle_params 32) default_trickle default_clock (new_config 7) = Inr example_conn"
  using new_reliable_cases(1) [of "trickle_params 32" default_trickle default_clock "new_config 7"]
  by (auto simp: example_conn_def trickle_params_def)

lemma example_inv: "conn_inv (trickle_params 32) (\<lambda>_. True) example_conn"
  by (rule new_reliable_inv [OF example_new]) simp

lemma trickle_total: "transport_total (link (trickle_params n)) (\<lambda>_. True)"
  by (simp add: trickle_params_def trickle_link.transport_total_axioms)

lemma new_reliable_fields:
  assumes "new_reliable P t c cfg = Inr s"
  shows "health s = HealthOk" "waiters s = no_waiters" "woken s = []" "tx_next s = 0"
    "rx_start s = 0" "rx_end s = 0" "rx_len s = 0" "tx s = TxIdle" "transport s = t"
    "timer s = c" "out s = OutIdle" "ack_pending s = None" "rx_buf s = replicate (capacity P) 0"
    "rx_discarding s = False" "rx_next s = 0" "config s = cfg"
  using assms by (auto simp: new_reliable_def split: if_splits)

lemma example_fields:
  "health example_conn = HealthOk" "waiters example_conn = no_waiters" "woken example_conn = []"
  "tx_next example_conn = 0" "rx_start example_conn = 0" "rx_end example_conn = 0"
  "rx_len example_conn = 0" "tx example_conn = TxIdle" "transport example_conn = default_trickle"
  "timer example_conn = default_clock" "out example_conn = OutIdle" "ack_pending example_conn = None"
  "rx_buf example_conn = replicate (capacity (trickle_params 32)) 0" "rx_discarding example_conn = False"
  "rx_next example_conn = 0" "config example_conn = new_config 7"
  by (rule new_reliable_fields [OF example_new])+

section \<open>Invariant and panics\<close>

text \<open>
  C38: A connection can be created exactly for capacities of at least 21 bytes, and a new one
  satisfies the invariant of the connection (buffers of the capacity, offsets within the frame
  under way, a whole packet in every frame kept, acknowledgments only of packets retained,
  retries within their bound, room in the input buffer).
\<close>

theorem new_reliable_correct:
  assumes "tinv t"
  shows "(case new_reliable P t c cfg of
      Inl e \<Rightarrow> e = BufferTooSmall \<and> capacity P < 21
    | Inr s \<Rightarrow> 21 \<le> capacity P \<and> conn_inv P tinv s)"
proof (cases "new_reliable P t c cfg")
  case (Inl e)
  with new_reliable_cases(2) [of P t c cfg e] show ?thesis by (cases e) simp
next
  case (Inr s)
  with new_reliable_cases(1) [of P t c cfg] new_reliable_inv [OF Inr, of tinv] assms show ?thesis by simp
qed

theorem new_reliable_correct_witness:
  "conn_inv (trickle_params 32) (\<lambda>_. True) example_conn"
  using new_reliable_correct [of "\<lambda>_. True" default_trickle "trickle_params 32" default_clock "new_config 7"]
  by (simp add: example_new)

text \<open>
  C8: On any link whose methods do not panic, no operation of the application panics, whatever the
  link and the clock answer, whatever bytes arrive, and each keeps the invariant of the connection.
\<close>

theorem polls_never_panic:
  assumes "transport_total (link P) tinv" "conn_inv P tinv s"
  shows "(\<exists>r buf' s'. poll_read P cx buf s = Some (r, buf', s') \<and> conn_inv P tinv s' \<and>
      length buf' = length buf) \<and>
    (\<exists>r s'. poll_write P cx buf s = Some (r, s') \<and> conn_inv P tinv s') \<and>
    (\<exists>r s'. poll_flush P cx s = Some (r, s') \<and> conn_inv P tinv s') \<and>
    (\<exists>r s'. poll_progress P cx s = Some (r, s') \<and> conn_inv P tinv s') \<and>
    conn_inv P tinv (cancel_pending operation s)"
proof -
  have link: "reliable_link P tinv" using assms(1) by (simp add: reliable_link_def)
  show ?thesis
    using reliable_link.poll_read_inv [OF link assms(2), of cx buf]
      reliable_link.poll_write_inv [OF link assms(2), of cx buf]
      reliable_link.poll_flush_inv [OF link assms(2), of cx]
      reliable_link.poll_progress_inv [OF link assms(2), of cx]
      cancel_pending_inv [OF assms(2), of operation]
    by blast
qed

theorem polls_never_panic_witness:
  "\<exists>r s'. poll_write (trickle_params 32) (Waker 1 0) [1, 2, 3] example_conn = Some (r, s')"
  using polls_never_panic [OF trickle_total example_inv] by blast

text \<open>
  C13: A connection meets the documented contract of \<open>Transport\<close>, on any link whose methods do not
  panic. Counts are within the buffer, also where the link reports counts beyond it, and for a nonempty
  buffer never zero: a connection has no end of stream. The bytes a read gives are the next ones of
  the payload retained, and it leaves the rest of the buffer. When a flush completes, no packet, frame
  or acknowledgment is under way. A call that is pending has stored its waker in the slot of its
  operation, whose condition does not hold, on a healthy connection; and the waker has been woken
  during the call, or the link and the clock have been asked with it and were pending too.
\<close>

theorem connection_is_transport:
  assumes "transport_total (link P) tinv"
  shows "transport_laws (reliable_ops P) (conn_inv P tinv) (\<lambda>_. False)
      (\<lambda>s. tx s = TxIdle \<and> out s = OutIdle \<and> ack_pending s = None) (conn_arranged P) \<and>
    (\<forall>s cx buf n buf' s'. buf \<noteq> [] \<and> t_poll_read (reliable_ops P) cx buf s = Some (Ready (Inr n), buf', s') \<longrightarrow>
      0 < n \<and> n \<le> rx_start s' \<and> buf' = take n (drop (rx_start s' - n) (rx_payload s')) @ drop n buf) \<and>
    (\<forall>s cx buf n s'. conn_inv P tinv s \<and> buf \<noteq> [] \<and>
      t_poll_write (reliable_ops P) cx buf s = Some (Ready (Inr n), s') \<longrightarrow> 0 < n)"
proof (intro conjI allI impI)
  show "transport_laws (reliable_ops P) (conn_inv P tinv) (\<lambda>_. False)
      (\<lambda>s. tx s = TxIdle \<and> out s = OutIdle \<and> ack_pending s = None) (conn_arranged P)"
    using assms by (intro reliable_link.contract_laws) (simp add: reliable_link_def)
next
  fix s cx buf n buf' s'
  assume "buf \<noteq> [] \<and> t_poll_read (reliable_ops P) cx buf s = Some (Ready (Inr n), buf', s')"
  then have "poll_read P cx buf s = Some (Ready (Inr n), buf', s')" "buf \<noteq> []" by (simp_all add: reliable_ops_def)
  from poll_read_bytes [OF this]
  show "0 < n" "n \<le> rx_start s'" "buf' = take n (drop (rx_start s' - n) (rx_payload s')) @ drop n buf" by auto
next
  fix s cx buf n s'
  assume w: "conn_inv P tinv s \<and> buf \<noteq> [] \<and> t_poll_write (reliable_ops P) cx buf s = Some (Ready (Inr n), s')"
  then have "n = min (length buf) (MAX_PAYLOAD P)"
    using poll_write_result [of P cx buf s "Ready (Inr n)" s'] by (simp add: reliable_ops_def write_result_def)
  then show "0 < n" using w conn_inv_parts(3) [of P tinv s] by (simp add: buffers_inv_def)
qed

theorem connection_is_transport_witness:
  "transport_laws (reliable_ops (trickle_params 32)) (conn_inv (trickle_params 32) (\<lambda>_. True))
     (\<lambda>_. False) (\<lambda>s. tx s = TxIdle \<and> out s = OutIdle \<and> ack_pending s = None) (conn_arranged (trickle_params 32))"
  using connection_is_transport [OF trickle_total] by blast

section \<open>Waiters\<close>

text \<open>
  C20: No wakeup is lost inside the connection: exactly which waiters a poll wakes and keeps. A poll
  that completes wakes every waiter of another operation and keeps none. One that is pending keeps its
  own waker, in a healthy connection where its condition does not hold; it wakes and removes the
  waiters of those other operations whose condition holds now, and keeps the rest. Each is woken once,
  in the order of \<open>OPS\<close>, and nobody else is, but for the caller where the loop yields.
\<close>

theorem polls_settle_waiters:
  assumes "buf \<noteq> []"
  shows "(\<forall>r buf' s'. poll_read P cx buf s = Some (r, buf', s') \<longrightarrow> wakeups OpRead cx (is_ready r) s s') \<and>
    (\<forall>r s'. poll_write P cx buf s = Some (r, s') \<longrightarrow> wakeups OpWrite cx (is_ready r) s s') \<and>
    (\<forall>r s'. poll_flush P cx s = Some (r, s') \<longrightarrow> wakeups OpFlush cx (is_ready r) s s') \<and>
    (\<forall>r s'. poll_progress P cx s = Some (r, s') \<longrightarrow> wakeups OpProgress cx (is_ready r) s s')"
  by (intro conjI allI impI; erule poll_read_wakeups [OF _ assms] poll_write_wakeups [OF _ assms]
      poll_flush_wakeups poll_progress_wakeups)

text \<open>A failed connection wakes the reader that was waiting when its failure is reported to another.\<close>

theorem polls_settle_waiters_witness:
  "let s = example_conn\<lparr>health := HealthFailed Timeout, waiters := no_waiters(OpRead := Some (Waker 5 0))\<rparr> in
   \<exists>s'. poll_flush (trickle_params 32) (Waker 1 0) s = Some (Ready (Inl Timeout), s') \<and>
     waiters s' = no_waiters \<and> Waker 5 0 \<in> set (woken s')"
proof -
  let ?s = "example_conn\<lparr>health := HealthFailed Timeout, waiters := no_waiters(OpRead := Some (Waker 5 0))\<rparr>"
  obtain s' where f: "poll_flush (trickle_params 32) (Waker 1 0) ?s = Some (Ready (Inl Timeout), s')"
    using failed_polls(1) [of ?s Timeout "trickle_params 32" "Waker 1 0"] by (auto simp: pending_error_def)
  then have "wakeups OpFlush (Waker 1 0) True ?s s'"
    using polls_settle_waiters [of "[0]" "trickle_params 32" "Waker 1 0" ?s] by fastforce
  then have "waiters s' = no_waiters \<and> Waker 5 0 \<in> set (woken s')"
    by (auto simp: wakeups_def Let_def no_waiters_def fun_eq_iff OPS_def)
  with f show ?thesis by auto
qed

text \<open>
  C36: \<open>cancel_pending\<close> clears every stored waiter, wakes exactly those of the other operations, once
  each and in the order of \<open>OPS\<close>, and changes nothing else; a second call wakes nobody.
\<close>

theorem cancel_pending_exact:
  "cancel_pending operation s =
     s\<lparr>waiters := no_waiters,
       woken := woken s @ stored (waiters s) (filter (\<lambda>op. op \<noteq> canceled_op operation) OPS)\<rparr> \<and>
   cancel_pending operation' (cancel_pending operation s) = cancel_pending operation s"
proof -
  have "stored no_waiters ops = []" for ops by (induction ops) (simp_all add: no_waiters_def)
  then show ?thesis by (simp add: cancel_pending_eq) (simp add: set_waiters_def)
qed

text \<open>
  What \<open>finish\<close> does after every poll: it returns the result it is given; it clears the waiter
  of an operation that completed and stores the caller's waker otherwise; it wakes and clears the
  waiters of the other operations, all of them after a completion or a failure and otherwise those
  whose condition holds; and it changes nothing else.
\<close>

theorem finish_exact:
  "finish op cx p s =
     (p, s\<lparr>waiters := (\<lambda>o'. if o' = op then (if is_ready p then None else Some cx)
                            else if is_ready p \<or> health s \<noteq> HealthOk \<or> op_ready o' s then None
                            else waiters s o'),
           woken := woken s @ stored (waiters s)
             (filter (\<lambda>o'. o' \<noteq> op \<and> (is_ready p \<or> health s \<noteq> HealthOk \<or> op_ready o' s)) OPS)\<rparr>)"
proof -
  have "finish_waiters op cx (is_ready p) s =
      (\<lambda>o'. if o' = op then (if is_ready p then None else Some cx)
            else if is_ready p \<or> health s \<noteq> HealthOk \<or> op_ready o' s then None else waiters s o')"
    by (auto simp: finish_waiters_def due_after_def is_healthy_iff fun_eq_iff)
  moreover have "due_after op (is_ready p) s =
      (\<lambda>o'. o' \<noteq> op \<and> (is_ready p \<or> health s \<noteq> HealthOk \<or> op_ready o' s))"
    by (simp add: due_after_def is_healthy_iff fun_eq_iff)
  ultimately show ?thesis by (simp add: finish_eq) (simp add: set_waiters_def)
qed

theorem finish_exact_witness:
  "waiters (snd (finish OpRead (Waker 2 0) (Pending :: unit poll) example_conn)) =
     no_waiters(OpRead := Some (Waker 2 0)) \<and>
   woken (snd (finish OpRead (Waker 2 0) (Pending :: unit poll) example_conn)) = []"
proof -
  have "stored no_waiters ops = []" for ops by (induction ops) (simp_all add: no_waiters_def)
  then show ?thesis
    unfolding finish_exact [of OpRead "Waker 2 0" "Pending :: unit poll" example_conn]
    by (auto simp: example_fields no_waiters_def fun_eq_iff)
qed

section \<open>Failure\<close>

text \<open>
  C21: Errors and their causes. A poll of a healthy connection leaves it healthy, reports an error and
  records that it is reported, or (where it has accepted or given out data) leaves an error that the
  next poll reports. In each case the error is the one of its cause, in the state left behind:
  \<open>Transport\<close> carries the error with which the link answered the rest of the frame under way, its
  flush, or a read into the free part of the buffer; \<open>WriteZero\<close> means that the link took none of
  those bytes, \<open>UnexpectedEof\<close> that the read gave none; \<open>Timeout\<close> that a packet waits for its
  acknowledgment and all its retransmissions are used; \<open>SequenceExhausted\<close>, which only a write
  reports, that all numbers are used and no packet is under way; \<open>Failed\<close> is never the first error. A
  read reports an error only when no payload is left to read, and leaves its buffer as it was.
\<close>

theorem first_error_is_specific:
  assumes "transport_total (link P) tinv" "conn_inv P tinv s" "health s = HealthOk"
  shows "(\<forall>buf r buf' s'. poll_read P cx buf s = Some (r, buf', s') \<longrightarrow>
      first_failure P cx (poll_error r) s' \<and>
      (\<forall>e. r = Ready (Inl e) \<longrightarrow> e \<noteq> SequenceExhausted \<and> buf' = buf \<and> \<not> rx_start s' < rx_end s')) \<and>
    (\<forall>buf r s'. poll_write P cx buf s = Some (r, s') \<longrightarrow> first_failure P cx (poll_error r) s') \<and>
    (\<forall>r s'. poll_flush P cx s = Some (r, s') \<longrightarrow>
      first_failure P cx (poll_error r) s' \<and> (\<forall>e. r = Ready (Inl e) \<longrightarrow> e \<noteq> SequenceExhausted)) \<and>
    (\<forall>r s'. poll_progress P cx s = Some (r, s') \<longrightarrow>
      first_failure P cx (case r of Ready e \<Rightarrow> Some e | Pending \<Rightarrow> None) s' \<and>
      (\<forall>e. r = Ready e \<longrightarrow> e \<noteq> SequenceExhausted))"
proof -
  have ok: "reliable_link P tinv" using assms(1) by (simp add: reliable_link_def)
  note failures = reliable_link.poll_read_failure [OF ok assms(2,3)] reliable_link.poll_write_failure [OF ok assms(2,3)]
    reliable_link.poll_flush_failure [OF ok assms(2,3)] reliable_link.poll_progress_failure [OF ok assms(2,3)]
  show ?thesis by (intro conjI allI impI; (use failures in fast)?; erule failures(5))
qed

text \<open>A closed link: the error is the end of the input.\<close>

lemma example_eof:
  "\<exists>s s'. conn_inv (endpoint_params 32) (\<lambda>_. True) s \<and> health s = HealthOk \<and> closed (incoming (transport s)) \<and>
     poll_progress (endpoint_params 32) (Waker 1 0) s = Some (Ready UnexpectedEof, s')"
proof -
  let ?t = "close_incoming (new_endpoint 32)"
  obtain s where s: "new_reliable (endpoint_params 32) ?t default_clock (new_config 7) = Inr s"
    using new_reliable_cases(1) [of "endpoint_params 32" ?t default_clock "new_config 7"]
    by (auto simp: endpoint_params_def)
  note f = new_reliable_fields [OF s]
  have t: "read_error (ctl ?t) = None" "\<not> reads_blocked (ctl ?t)" "queue (incoming ?t) = []" "closed (incoming ?t)"
    by (simp_all add: close_incoming_def new_endpoint_def new_control_def default_pipe_def wake_reader_def)
  have "endpoint_read cx buf ?t = Some (Ready (Inr 0), buf, ?t)" for cx buf
    using t by (simp add: endpoint_read_def)
  then have "\<exists>s1. step (endpoint_params 32) (Waker 1 0) (16, s) = Some (Inl UnexpectedEof, 15, s1) \<and> health s1 = HealthOk"
    by (simp add: step_def poll_output_def select_frame_def poll_input_def spend_def checked_sub_def slice_def
        f endpoint_params_def endpoint_ops_def)
  then have "\<exists>s'. poll_progress (endpoint_params 32) (Waker 1 0) s = Some (Ready UnexpectedEof, s')"
    by (auto simp: poll_progress_def drive_def is_healthy_iff f new_budget_def STEP_BUDGET_def drive_loop.simps
        fail_def failure_def finish_eq Let_def)
  moreover have "conn_inv (endpoint_params 32) (\<lambda>_. True) s" by (rule new_reliable_inv [OF s]) simp
  ultimately show ?thesis using f(1,9) t(4) by metis
qed

theorem first_error_is_specific_witness:
  "\<exists>s s'. poll_progress (endpoint_params 32) (Waker 1 0) s = Some (Ready UnexpectedEof, s') \<and>
     health s' = HealthReported \<and> caused (endpoint_params 32) (Waker 1 0) UnexpectedEof s'"
  using example_eof first_error_is_specific [OF endpoint_conn.transport_total_axioms, of 32 _ "Waker 1 0"]
  by (fastforce simp: first_failure_def)

text \<open>
  C22: A failed connection stays failed and leaves its link, its clock and the protocol alone: the
  error not yet reported is reported by the next poll and \<open>Failed\<close> by every later one; only the
  health and the waiters change, and those of all other operations are woken.
\<close>

theorem failed_stays_failed:
  assumes "conn_inv P tinv s" "pending_error s = Some e" "buf \<noteq> []"
  defines "others op \<equiv> stored (waiters s) (filter (\<lambda>o'. o' \<noteq> op) OPS)"
  shows "poll_write P cx buf s = Some (Ready (Inl e), reported no_waiters (others OpWrite) s) \<and>
    poll_flush P cx s = Some (Ready (Inl e), reported no_waiters (others OpFlush) s) \<and>
    poll_progress P cx s = Some (Ready e, reported no_waiters (others OpProgress) s) \<and>
    (\<not> rx_start s < rx_end s \<longrightarrow>
      poll_read P cx buf s = Some (Ready (Inl e), buf, reported no_waiters (others OpRead) s)) \<and>
    pending_error (reported w new s) = Some Failed"
proof -
  have "pending_error (reported w new s) = Some Failed"
    by (simp add: pending_error_def reported_def)
  then show ?thesis
    using failed_polls [OF assms(2), where P = P and cx = cx] conn_inv_parts(4) [OF assms(1)] assms(3)
    unfolding others_def by blast
qed

theorem failed_stays_failed_witness:
  "poll_flush (trickle_params 32) (Waker 1 0) (example_conn\<lparr>health := HealthFailed Timeout\<rparr>) =
     Some (Ready (Inl Timeout), reported no_waiters [] (example_conn\<lparr>health := HealthFailed Timeout\<rparr>))"
  using failed_stays_failed [OF conn_inv_health [OF example_inv, of "HealthFailed Timeout"], of Timeout "[0]"]
  by (simp add: pending_error_def example_fields no_waiters_def OPS_def)

text \<open>
  C37: Payload already received can still be read from a failed connection, before the error is
  reported: the read takes it without touching the link, and the error stays pending.
\<close>

theorem failed_payload_first:
  assumes "conn_inv P tinv s" "pending_error s = Some e" "buf \<noteq> []" "rx_start s < rx_end s"
  shows "let n = min (length buf) (rx_end s - rx_start s) in 0 < n \<and>
    (\<exists>w new. poll_read P cx buf s =
      Some (Ready (Inr n), take n (drop (rx_start s) (rx_payload s)) @ drop n buf,
        s\<lparr>rx_start := rx_start s + n, waiters := w, woken := woken s @ new\<rparr>))"
proof -
  have d: "drive P cx (new_budget, s) = Some (Blocked, new_budget, s)"
    using pending_error_failure [OF assms(2)] by simp
  show ?thesis
    using poll_read_data [OF d assms(4) conn_inv_parts(3,6) [OF assms(1)] assms(3) refl] assms(3,4)
    by (simp add: Let_def finish_eq set_waiters_def) blast
qed

theorem failed_payload_first_witness:
  "let s = example_conn\<lparr>health := HealthFailed Timeout, rx_payload := 5 # replicate 31 0, rx_end := 1\<rparr>
   in \<exists>s'. poll_read (trickle_params 32) (Waker 1 0) [0, 0] s = Some (Ready (Inr 1), [5, 0], s')"
proof -
  let ?s = "example_conn\<lparr>health := HealthFailed Timeout, rx_payload := 5 # replicate 31 0, rx_end := 1\<rparr>"
  have "1 \<le> max_payload 32" using max_payload_zero [of 32] by simp
  then have inv: "conn_inv (trickle_params 32) (\<lambda>_. True) ?s"
    using example_inv by (simp add: conn_inv_def inv_defs trickle_params_def MAX_PAYLOAD_def example_fields)
  have "rx_start ?s < rx_end ?s" by (simp add: example_fields)
  from failed_payload_first [OF inv _ _ this, of Timeout "[0, 0]" "Waker 1 0"] show ?thesis
    by (auto simp: pending_error_def example_fields)
qed

section \<open>Input\<close>

text \<open>
  C23: The bytes of a read, processed with whatever the buffer holds already, have the effect of
  the abstract receiver fed one byte at a time; processing does not panic, keeps the invariant, and
  leaves the output, the link and the waiters alone.
\<close>

theorem input_refines_bytes:
  assumes "conn_inv P tinv s" "rx_len s + length bs \<le> capacity P"
  shows "\<exists>s'. process_input P (received bs s) = Some s' \<and> rx_bytes P bs (rx_view s) = Some (rx_view s') \<and>
    conn_inv P tinv s' \<and> same_output s s'"
  using process_received [OF assms] by auto

theorem input_refines_bytes_witness:
  "\<exists>s'. process_input (trickle_params 32) (received [1, 2, 3] example_conn) = Some s' \<and>
    rx_bytes (trickle_params 32) [1, 2, 3] (rx_view example_conn) = Some (rx_view s')"
  using input_refines_bytes [OF example_inv, of "[1, 2, 3]"]
  by (auto simp: example_fields trickle_params_def)

text \<open>
  How the link cuts the stream into reads does not matter: two ways to read the same bytes
  leave the same state, but for the spare bytes of the buffers.
\<close>

theorem chunking_irrelevant:
  assumes "conn_inv P tinv s" "receive_all P bss s = Some s1" "receive_all P css s = Some s2"
    and "concat bss = concat css"
  shows "rx_view s1 = rx_view s2"
  using receive_all_view [OF assms(1,2)] receive_all_view [OF assms(1,3)] assms(4) by simp

lemma receive_all_example:
  "\<exists>s1. receive_all (trickle_params 32) [[1, 2], [3]] example_conn = Some s1"
  "\<exists>s2. receive_all (trickle_params 32) [[1, 2, 3]] example_conn = Some s2"
proof -
  let ?P = "trickle_params 32"
  obtain s1 where s1: "process_input ?P (received [1, 2] example_conn) = Some s1"
      "conn_inv ?P (\<lambda>_. True) s1"
    using process_received [OF example_inv, of "[1, 2]"] by (auto simp: example_fields trickle_params_def)
  then have "rx_len s1 + length [3] \<le> 32"
    using conn_inv_parts(7) [OF s1(2)] by (simp add: input_inv_def trickle_params_def)
  then show "\<exists>s1. receive_all ?P [[1, 2], [3]] example_conn = Some s1"
    using s1 process_received [OF s1(2), of "[3]"] by (auto simp: example_fields trickle_params_def)
  show "\<exists>s2. receive_all ?P [[1, 2, 3]] example_conn = Some s2"
    using process_received [OF example_inv, of "[1, 2, 3]"] by (auto simp: example_fields trickle_params_def)
qed

text \<open>
  C35: Resynchronisation: whatever the buffer holds and whatever bytes come first (a damaged frame,
  an overlong one, noise), a frame of a valid packet that fits the buffer is recognised, and its
  packet is processed on the state those bytes have left.
\<close>

theorem frame_resynchronises:
  assumes "conn_inv P tinv s" "valid_packet p" "length (packet_frame p) \<le> capacity P + 1"
    and "concat bss = noise @ packet_frame p" "receive_all P bss s = Some s'"
  shows "\<exists>s0 s1. rx_bytes P (noise @ [0]) (rx_view s) = Some ([], False, s0) \<and>
    process_packet P p s0 = Some s1 \<and> rx_view s' = ([], False, s1)"
proof -
  have all: "rx_bytes P (noise @ packet_frame p) (rx_view s) = Some (rx_view s')"
    using receive_all_view [OF assms(1,5)] assms(4) by simp
  then obtain v where v: "rx_bytes P noise (rx_view s) = Some v"
      "rx_bytes P (packet_frame p) v = Some (rx_view s')"
    by (auto simp: rx_bytes_append bind_eq_Some_conv)
  then obtain w where w: "rx_flush P v = Some w"
    by (auto simp: packet_frame_def rx_flush_def bind_eq_Some_conv)
  from rx_flush_parts [OF w] obtain s0 where s0: "w = ([], False, s0)" by blast
  have "map_option (\<lambda>s. ([], False, s)) (process_packet P p s0) = Some (rx_view s')"
    using rx_bytes_packet [OF assms(2,3) w [unfolded s0]] v(2) by simp
  moreover have "rx_bytes P (noise @ [0]) (rx_view s) = Some ([], False, s0)"
    using v(1) w s0 by (simp add: rx_bytes_append rx_flush_def)
  ultimately show ?thesis by auto
qed

theorem frame_resynchronises_witness:
  "\<exists>s' s1. receive_all (trickle_params 32) [packet_frame (Ack 7 5)] example_conn = Some s' \<and>
     rx_view s' = ([], False, s1)"
proof -
  have len: "length (packet_frame (Ack 7 5)) \<le> 20" using ack_frame_fits by (simp add: ACK_FRAME_LEN_20)
  then have "rx_len example_conn + length (packet_frame (Ack 7 5)) \<le> capacity (trickle_params 32)"
    by (simp add: example_fields trickle_params_def)
  with process_received [OF example_inv this] obtain s' where
    s': "receive_all (trickle_params 32) [packet_frame (Ack 7 5)] example_conn = Some s'"
    by auto
  have "length (packet_frame (Ack 7 5)) \<le> capacity (trickle_params 32) + 1"
    using len by (simp add: trickle_params_def)
  from frame_resynchronises [OF example_inv _ this _ s', of "[]"] s' show ?thesis
    by (auto simp: valid_packet_def)
qed

text \<open>
  C11: The receiver, frame by frame, on whatever reads a frame arrives in. An acknowledgment of this
  session with the number of the last packet accepted releases that packet; any other changes
  nothing. DATA of this session is retained and to be acknowledged if it carries the next number and
  the slot is empty; a repeat of the previous packet is acknowledged again (unless an acknowledgment
  is pending already) and not delivered; everything else changes nothing.
\<close>

theorem frame_handled:
  assumes "conn_inv P tinv s" "rx_len s = 0" "\<not> rx_discarding s"
    and "valid_packet p" "length (packet_frame p) \<le> capacity P + 1"
    and "receive_all P bss s = Some s'" "concat bss = packet_frame p"
  shows "rx_len s' = 0 \<and> \<not> rx_discarding s' \<and>
    rx_core s' = rx_core (case p of
        Ack sess q \<Rightarrow>
          if sess = session (config s) \<and> tx s \<noteq> TxIdle \<and> unat q + 1 = unat (tx_next s)
          then s\<lparr>tx := TxIdle, tx_retries := 0, final_input := None\<rparr> else s
      | Data sess q payload \<Rightarrow>
          if sess = session (config s) \<and> length payload \<le> max_payload (capacity P) then
            if unat q = unat (rx_next s) \<and> rx_start s = rx_end s
            then s\<lparr>rx_payload := payload @ drop (length payload) (rx_payload s), rx_start := 0,
                   rx_end := length payload, rx_next := rx_next s + 1, ack_pending := Some q\<rparr>
            else if unat q + 1 = unat (rx_next s) \<and> ack_pending s = None
            then s\<lparr>ack_pending := Some q\<rparr> else s
          else s)"
proof -
  have v: "rx_view s = ([], False, rx_core s)" using assms(2,3) by (simp add: rx_view_def)
  then have "rx_flush P (rx_view s) = Some ([], False, rx_core s)" by (simp add: rx_flush_def rx_byte_def)
  from rx_bytes_packet [OF assms(4,5) this] receive_all_view [OF assms(1,6)] assms(7)
  have "map_option (\<lambda>s. ([], False, s)) (process_packet P p (rx_core s)) = Some (rx_view s')" by simp
  then obtain sp where sp: "process_packet P p s = Some sp" "rx_view s' = ([], False, rx_core sp)"
    by (auto simp: process_packet_core)
  have inv': "conn_inv P tinv s'" using receive_all_view [OF assms(1,6)] by simp
  have "length (rx_buf s') = capacity P" "0 < capacity P"
    using conn_inv_parts(3) [OF inv'] capacity_bounds(1) [of P s'] by (simp_all add: buffers_inv_def)
  then have rest: "rx_len s' = 0" "\<not> rx_discarding s'" "rx_core s' = rx_core sp"
    using sp(2) by (auto simp: rx_view_def)
  then show ?thesis
    unfolding MAX_PAYLOAD_def [symmetric] using sp(1) process_packet_exact [OF assms(1), of p] by simp
qed

theorem frame_handled_witness:
  "\<exists>s'. receive_all (trickle_params 32) [packet_frame (Data 7 0 [9])] example_conn = Some s' \<and>
     rx_next s' = 1 \<and> ack_pending s' = Some 0 \<and> take 1 (rx_payload s') = [9]"
proof -
  let ?P = "trickle_params 32" and ?p = "Data 7 0 [9]"
  have max: "1 \<le> max_payload 32" using max_payload_zero [of 32] by simp
  then have len: "length (packet_frame ?p) \<le> 32" using packet_frame_data_fits(1) [of "[9]" 32 7 0] by simp
  then have "rx_len example_conn + length (packet_frame ?p) \<le> capacity ?P"
    by (simp add: example_fields trickle_params_def)
  with process_received [OF example_inv this] obtain s' where
    s': "receive_all ?P [packet_frame ?p] example_conn = Some s'" by auto
  have "rx_core s' = rx_core (example_conn\<lparr>rx_payload := 9 # drop 1 (rx_payload example_conn), rx_start := 0,
      rx_end := 1, rx_next := 1, ack_pending := Some 0\<rparr>)"
    using frame_handled [OF example_inv _ _ _ _ s', of ?p] len max
    by (simp add: example_fields valid_packet_def trickle_params_def new_config_def)
  from arg_cong [OF this, of rx_next] arg_cong [OF this, of ack_pending] arg_cong [OF this, of rx_payload] s'
  show ?thesis by (simp add: rx_core_def)
qed

end
