(* ===== verification/Taped.thy ===== *)
theory Taped
  imports Connection_Failure
begin

text \<open>
  A link with a tape: what the connection has read from it, what it has written to it, and how
  often it has called it. The tape is ghost state: the connection over the taped link makes the
  same calls with the same answers (the theory \<open>Link_Map\<close> proves it). The packets on a stream of bytes are those the abstract
  receiver finds in it.
\<close>

section \<open>The taped link\<close>

record 't tape =
  inner :: 't
  tape_in :: "u8 list"
  tape_out :: "u8 list"
  tape_calls :: nat

definition tape_read ::
  "('t, 'e) transport_ops \<Rightarrow> waker \<Rightarrow> u8 list \<Rightarrow> 't tape \<Rightarrow>
     (('e + nat) poll \<times> u8 list \<times> 't tape) option" where
  "tape_read T cx buf t =
     map_option (\<lambda>(r, buf', t').
       (r, buf', t\<lparr>inner := t',
          tape_in := tape_in t @ (case r of Ready (Inr n) \<Rightarrow> take n buf' | _ \<Rightarrow> []),
          tape_calls := tape_calls t + 1\<rparr>))
       (t_poll_read T cx buf (inner t))"

definition tape_write ::
  "('t, 'e) transport_ops \<Rightarrow> waker \<Rightarrow> u8 list \<Rightarrow> 't tape \<Rightarrow> (('e + nat) poll \<times> 't tape) option" where
  "tape_write T cx buf t =
     map_option (\<lambda>(r, t').
       (r, t\<lparr>inner := t',
          tape_out := tape_out t @ (case r of Ready (Inr n) \<Rightarrow> take n buf | _ \<Rightarrow> []),
          tape_calls := tape_calls t + 1\<rparr>))
       (t_poll_write T cx buf (inner t))"

definition tape_flush ::
  "('t, 'e) transport_ops \<Rightarrow> waker \<Rightarrow> 't tape \<Rightarrow> (('e + unit) poll \<times> 't tape) option" where
  "tape_flush T cx t =
     map_option (\<lambda>(r, t'). (r, t\<lparr>inner := t', tape_calls := tape_calls t + 1\<rparr>))
       (t_poll_flush T cx (inner t))"

definition taped :: "('t, 'c, 'e) params \<Rightarrow> ('t tape, 'c, 'e) params" where
  "taped P =
     \<lparr>link = \<lparr>t_poll_read = tape_read (link P), t_poll_write = tape_write (link P),
             t_poll_flush = tape_flush (link P)\<rparr>,
      clock = clock P, capacity = capacity P\<rparr>"

definition blank_tape :: "'t \<Rightarrow> 't tape" where
  "blank_tape t = \<lparr>inner = t, tape_in = [], tape_out = [], tape_calls = 0\<rparr>"

lemma taped_simps [simp]:
  "capacity (taped P) = capacity P" "clock (taped P) = clock P"
  "MAX_PAYLOAD (taped P) = MAX_PAYLOAD P" "FINAL_INPUT (taped P) = FINAL_INPUT P"
  "t_poll_read (link (taped P)) = tape_read (link P)"
  "t_poll_write (link (taped P)) = tape_write (link P)"
  "t_poll_flush (link (taped P)) = tape_flush (link P)"
  by (simp_all add: taped_def MAX_PAYLOAD_def FINAL_INPUT_def)

text \<open>The taped link keeps the laws of its link.\<close>

lemma taped_total:
  assumes "transport_total (link P) tinv"
  shows "transport_total (link (taped P)) (\<lambda>t. tinv (inner t))"
proof -
  note total = transport_total.read_total [OF assms] transport_total.write_total [OF assms]
    transport_total.flush_total [OF assms]
  note keeps = transport_total.read_keeps [OF assms] transport_total.write_keeps [OF assms]
    transport_total.flush_keeps [OF assms]
  show ?thesis
    by unfold_locales
      (auto simp: tape_read_def tape_write_def tape_flush_def total [simplified] dest: keeps)
qed

lemma taped_link: "transport_total (link P) tinv \<Longrightarrow> reliable_link (taped P) (\<lambda>t. tinv (inner t))"
  by (simp add: reliable_link_def taped_total)

section \<open>The frames in a stream\<close>

text \<open>The bodies of the complete frames, the bytes of the frame under way, whether it is too long\<close>

type_synonym cut = "u8 list list \<times> u8 list \<times> bool"

definition cut_byte :: "nat \<Rightarrow> u8 \<Rightarrow> cut \<Rightarrow> cut" where
  "cut_byte n b c =
     (case c of (bodies, part, discarding) \<Rightarrow>
        if b = 0 then
          if discarding \<or> part = [] then (bodies, [], False) else (bodies @ [part], [], False)
        else if discarding \<or> length part + 1 = n then (bodies, [], True)
        else (bodies, part @ [b], False))"

definition cut_stream :: "nat \<Rightarrow> u8 list \<Rightarrow> cut" where
  "cut_stream n bs = fold (cut_byte n) bs ([], [], False)"

definition packets_in :: "nat \<Rightarrow> u8 list list \<Rightarrow> packet list" where
  "packets_in n bodies = List.map_filter (frame_packet n) bodies"

definition wire_packets :: "nat \<Rightarrow> u8 list \<Rightarrow> packet list" where
  "wire_packets n bs = packets_in n (fst (cut_stream n bs))"

lemma packets_in_simps [simp]:
  "packets_in n [] = []"
  "packets_in n (xs @ ys) = packets_in n xs @ packets_in n ys"
  "packets_in n [b] = (case frame_packet n b of None \<Rightarrow> [] | Some p \<Rightarrow> [p])"
  by (simp_all add: packets_in_def map_filter_def split: option.split)

text \<open>The packets in a sequence of frames, the last perhaps not complete\<close>

definition packet_fits :: "nat \<Rightarrow> packet \<Rightarrow> bool" where
  "packet_fits n p \<longleftrightarrow> valid_packet p \<and> length (packet_frame p) \<le> n + 1"

lemma cut_part:
  "0 \<notin> set bs \<Longrightarrow> length part + length bs < n \<Longrightarrow>
     fold (cut_byte n) bs (bodies, part, False) = (bodies, part @ bs, False)"
  by (induction bs arbitrary: part) (auto simp: cut_byte_def)

lemma cut_frame:
  assumes "packet_fits n p"
  shows "fold (cut_byte n) (packet_frame p) (bodies, [], False) =
    (bodies @ [cobs (packet_bytes p)], [], False)"
proof -
  have "length (cobs (packet_bytes p)) < n"
    using assms by (auto simp: packet_fits_def packet_frame_def)
  then show ?thesis
    using cut_part [of "cobs (packet_bytes p)" "[]" n bodies] cobs_no_zero [of "packet_bytes p"]
    by (simp add: packet_frame_def cut_byte_def)
qed

lemma frame_packet_fits: "packet_fits n p \<Longrightarrow> frame_packet n (cobs (packet_bytes p)) = Some p"
  using length_cobs_gt [of "packet_bytes p"]
  by (intro frame_packet_frame) (auto simp: packet_fits_def packet_frame_def)

lemma cut_frames:
  assumes "\<forall>p \<in> set ps. packet_fits n p"
  shows "fold (cut_byte n) (concat (map packet_frame ps)) (bodies, [], False) =
    (bodies @ map (\<lambda>p. cobs (packet_bytes p)) ps, [], False)"
  using assms by (induction ps arbitrary: bodies) (simp_all add: cut_frame)

lemma packets_in_cobs:
  "\<forall>p \<in> set ps. packet_fits n p \<Longrightarrow> packets_in n (map (\<lambda>p. cobs (packet_bytes p)) ps) = ps"
  by (induction ps) (auto simp: packets_in_def List.map_filter_simps frame_packet_fits)

text \<open>The part of a frame before its last byte adds no packet.\<close>

lemma cut_prefix:
  assumes "packet_fits n p" "k < length (packet_frame p)"
  shows "fst (fold (cut_byte n) (take k (packet_frame p)) (bodies, [], False)) = bodies"
proof (cases k)
  case (Suc j)
  let ?c = "cobs (packet_bytes p)"
  have "take k (packet_frame p) = 0 # take j ?c"
    using assms(2) Suc by (simp add: packet_frame_def)
  moreover have "length (take j ?c) < n" "0 \<notin> set (take j ?c)"
    using assms(1) cobs_no_zero [of "packet_bytes p"]
    by (auto simp: packet_fits_def packet_frame_def dest: in_set_takeD)
  ultimately show ?thesis
    using cut_part [of "take j ?c" "[]" n bodies] by (simp add: cut_byte_def)
qed simp

lemma wire_packets_frames:
  assumes "\<forall>p \<in> set ps. packet_fits n p" "packet_fits n q" "k < length (packet_frame q)"
  shows "wire_packets n (concat (map packet_frame ps) @ take k (packet_frame q)) = ps"
  using cut_frames [OF assms(1), of "[]"] cut_prefix [OF assms(2,3)] packets_in_cobs [OF assms(1)]
  by (simp add: wire_packets_def cut_stream_def)

lemma wire_packets_whole:
  "\<forall>p \<in> set ps. packet_fits n p \<Longrightarrow> wire_packets n (concat (map packet_frame ps)) = ps"
  using cut_frames [of ps n "[]"] packets_in_cobs [of ps n]
  by (simp add: wire_packets_def cut_stream_def)

end
