(* ===== verification/Delivery.thy ===== *)
theory Delivery
  imports Taped
begin

text \<open>
  What the bytes that went over the link of a connection have to do with what its application wrote
  and read. \<open>sent\<close> is the list of payloads accepted by writes, \<open>got\<close> the bytes returned by reads and
  \<open>rc\<close> the packets found in what the connection has read from its link. Every operation keeps the
  relation.
\<close>

section \<open>The relation\<close>

definition unread :: "('t, 'c, 'e) reliable \<Rightarrow> u8 list" where
  "unread s = take (rx_end s - rx_start s) (drop (rx_start s) (rx_payload s))"

text \<open>What has been delivered is the payloads of the first DATA packets received, in their order.\<close>

definition recv_ok :: "u8 list \<Rightarrow> packet list \<Rightarrow> ('t, 'c, 'e) reliable \<Rightarrow> bool" where
  "recv_ok got rc s \<longleftrightarrow>
     (\<exists>acc. length acc = unat (rx_next s) \<and>
        (\<forall>i < length acc. Data (session (config s)) (of_nat i) (acc ! i) \<in> set rc) \<and>
        got @ unread s = concat acc)"

text \<open>Every packet but the one under way has been acknowledged.\<close>

definition acked_ok :: "u8 list list \<Rightarrow> packet list \<Rightarrow> ('t, 'c, 'e) reliable \<Rightarrow> bool" where
  "acked_ok sent rc s \<longleftrightarrow>
     (\<forall>i < length sent - (if tx s = TxIdle then 0 else 1). Ack (session (config s)) (of_nat i) \<in> set rc)"

text \<open>
  What has been written is whole frames and the beginning of the one under way: DATA frames of the
  payloads accepted, each under its own number, and acknowledgments of packets retained.
\<close>

definition packet_of_conn :: "u8 list list \<Rightarrow> ('t, 'c, 'e) reliable \<Rightarrow> packet \<Rightarrow> bool" where
  "packet_of_conn sent s p \<longleftrightarrow>
     (case p of
        Data sess q payload \<Rightarrow>
          sess = session (config s) \<and> unat q < length sent \<and> payload = sent ! unat q
      | Ack sess q \<Rightarrow> sess = session (config s) \<and> unat q < unat (rx_next s))"

definition partial_frame :: "('t, 'c, 'e) reliable \<Rightarrow> u8 list" where
  "partial_frame s =
     (case out s of
        Writing AckFrame k \<Rightarrow> take k (ack_frame s)
      | Writing DataFrame k \<Rightarrow> take k (tx_frame s)
      | _ \<Rightarrow> [])"

definition tx_data_ok :: "u8 list list \<Rightarrow> ('t, 'c, 'e) reliable \<Rightarrow> bool" where
  "tx_data_ok sent s \<longleftrightarrow>
     (tx s \<noteq> TxIdle \<or> data_out (out s) \<longrightarrow>
       holds_frame (tx_frame s) (tx_len s)
         (Data (session (config s)) (ucast (tx_next s - 1)) (last sent)))"

definition written_ok :: "u8 list list \<Rightarrow> u8 list \<Rightarrow> ('t, 'c, 'e) reliable \<Rightarrow> bool" where
  "written_ok sent bytes s \<longleftrightarrow>
     (\<exists>ps. bytes = concat (map packet_frame ps) @ partial_frame s \<and>
        (\<forall>p \<in> set ps. packet_of_conn sent s p))"

definition payloads_ok :: "nat \<Rightarrow> u8 list list \<Rightarrow> ('t, 'c, 'e) reliable \<Rightarrow> bool" where
  "payloads_ok n sent s \<longleftrightarrow>
     length sent = unat (tx_next s) \<and> (\<forall>x \<in> set sent. x \<noteq> [] \<and> length x \<le> n)"

definition ghost_ok ::
  "nat \<Rightarrow> u8 list list \<Rightarrow> u8 list \<Rightarrow> packet list \<Rightarrow> u8 list \<Rightarrow> ('t, 'c, 'e) reliable \<Rightarrow> bool" where
  "ghost_ok n sent got rc bytes s \<longleftrightarrow>
     payloads_ok n sent s \<and> tx_data_ok sent s \<and> written_ok sent bytes s \<and> recv_ok got rc s \<and>
     acked_ok sent rc s"

lemmas ghost_defs = ghost_ok_def payloads_ok_def tx_data_ok_def recv_ok_def acked_ok_def

text \<open>The relation does not depend on the input buffer, nor on what is not protocol state.\<close>

lemma partial_frame_cong:
  "out s' = out s \<Longrightarrow> ack_frame s' = ack_frame s \<Longrightarrow> tx_frame s' = tx_frame s \<Longrightarrow>
     partial_frame s' = partial_frame s"
  by (simp add: partial_frame_def split: out.split frame.split)

lemma packet_of_conn_cong:
  "config s' = config s \<Longrightarrow> rx_next s' = rx_next s \<Longrightarrow> packet_of_conn sent s' = packet_of_conn sent s"
  by (simp add: packet_of_conn_def fun_eq_iff split: packet.split)

definition same_ghost :: "('t, 'c, 'e) reliable \<Rightarrow> ('u, 'd, 'f) reliable \<Rightarrow> bool" where
  "same_ghost s s' \<longleftrightarrow>
     config s' = config s \<and> tx s' = tx s \<and> tx_frame s' = tx_frame s \<and> tx_len s' = tx_len s \<and>
     tx_next s' = tx_next s \<and> out s' = out s \<and> ack_frame s' = ack_frame s \<and>
     rx_payload s' = rx_payload s \<and> rx_start s' = rx_start s \<and> rx_end s' = rx_end s \<and>
     rx_next s' = rx_next s"

lemma ghost_ok_cong:
  "same_ghost s s' \<Longrightarrow> ghost_ok n sent got rc bytes s' = ghost_ok n sent got rc bytes s"
  using partial_frame_cong [of s' s] packet_of_conn_cong [of s' s sent]
  by (simp add: same_ghost_def ghost_defs written_ok_def unread_def)

lemma ghost_ok_core [simp]: "ghost_ok n sent got rc bytes (rx_core s) = ghost_ok n sent got rc bytes s"
  by (intro ghost_ok_cong) (simp add: same_ghost_def rx_core_def)

section \<open>Receiving\<close>

lemma of_nat_unat_u32: "unat (q :: u32) = n \<Longrightarrow> of_nat n = q"
  by auto

lemma recv_ok_mono: "recv_ok got rc s \<Longrightarrow> set rc \<subseteq> set rc' \<Longrightarrow> recv_ok got rc' s"
  by (fastforce simp: recv_ok_def)

lemma acked_ok_mono: "acked_ok sent rc s \<Longrightarrow> set rc \<subseteq> set rc' \<Longrightarrow> acked_ok sent rc' s"
  by (auto simp: acked_ok_def)

lemma ghost_ok_mono:
  "ghost_ok n sent got rc bytes s \<Longrightarrow> set rc \<subseteq> set rc' \<Longrightarrow> ghost_ok n sent got rc' bytes s"
  by (auto simp: ghost_ok_def intro: recv_ok_mono acked_ok_mono)

lemma ghost_ok_acked:
  assumes "ghost_ok n sent got rc bytes s" "Ack (session (config s)) seq \<in> set rc"
    and "unat seq + 1 = unat (tx_next s)"
  shows "ghost_ok n sent got rc bytes (s\<lparr>tx := TxIdle, tx_retries := 0, final_input := None\<rparr>)"
proof -
  let ?s = "s\<lparr>tx := TxIdle, tx_retries := 0, final_input := None\<rparr>"
  have "Ack (session (config s)) (of_nat i) \<in> set rc" if "i < length sent" for i
  proof (cases "i < length sent - 1")
    case True
    then show ?thesis using assms(1) by (simp add: ghost_ok_def acked_ok_def split: if_splits)
  next
    case False
    with that have "i = length sent - 1" by linarith
    with assms(1,3) have "unat seq = i" by (simp add: ghost_ok_def payloads_ok_def)
    then have "seq = of_nat i" by (simp add: of_nat_unat_u32)
    then show ?thesis using assms(2) by simp
  qed
  then have "acked_ok sent rc ?s" by (simp add: acked_ok_def)
  moreover have "written_ok sent bytes ?s"
    using assms(1) partial_frame_cong [of ?s s] packet_of_conn_cong [of ?s s sent]
    by (simp add: ghost_ok_def written_ok_def)
  moreover have "recv_ok got rc ?s" using assms(1) by (simp add: ghost_ok_def recv_ok_def unread_def)
  ultimately show ?thesis
    using assms(1) by (auto simp: ghost_ok_def payloads_ok_def tx_data_ok_def)
qed

lemma packet_of_conn_rx_next:
  assumes "packet_of_conn sent s p" "config s' = config s" "unat (rx_next s) \<le> unat (rx_next s')"
  shows "packet_of_conn sent s' p"
  using assms by (cases p) (auto simp: packet_of_conn_def)

lemma ghost_ok_data:
  assumes "ghost_ok n sent got rc bytes s" "Data (session (config s)) seq payload \<in> set rc"
    and "ucast seq = rx_next s" "rx_start s = rx_end s"
    and "copy_from_slice 0 (length payload) payload (rx_payload s) = Some buf"
    and "add_checked (rx_next s) 1 = Some next"
  shows "ghost_ok n sent got rc bytes
    (s\<lparr>rx_payload := buf, rx_start := 0, rx_end := length payload, rx_next := next,
       ack_pending := Some seq\<rparr>)"
proof -
  let ?s = "s\<lparr>rx_payload := buf, rx_start := 0, rx_end := length payload, rx_next := next,
       ack_pending := Some seq\<rparr>"
  have next_seq: "unat next = unat (rx_next s) + 1"
    using assms(6) by (auto simp: add_checked_def unat_word_ariths split: if_splits)
  from assms(1) obtain acc where acc: "length acc = unat (rx_next s)"
      "\<forall>i < length acc. Data (session (config s)) (of_nat i) (acc ! i) \<in> set rc"
      "got @ unread s = concat acc"
    by (auto simp: ghost_ok_def recv_ok_def)
  have "unread ?s = payload" using assms(5) by (auto simp: unread_def copy_from_slice_def split: if_splits)
  moreover have "unread s = []" using assms(4) by (simp add: unread_def)
  moreover have "of_nat (length acc) = seq" using acc(1) seq_eq_u64 [OF assms(3)] by simp
  ultimately have "recv_ok got rc ?s"
    using acc assms(2) next_seq
    by (auto simp: recv_ok_def nth_append less_Suc_eq intro!: exI [of _ "acc @ [payload]"])
  moreover have "written_ok sent bytes ?s"
    using assms(1) partial_frame_cong [of ?s s] packet_of_conn_rx_next [of sent s _ ?s] next_seq
    by (fastforce simp: ghost_ok_def written_ok_def)
  moreover have "payloads_ok n sent ?s" "tx_data_ok sent ?s" "acked_ok sent rc ?s"
    using assms(1) by (simp_all add: ghost_ok_def payloads_ok_def tx_data_ok_def acked_ok_def)
  ultimately show ?thesis by (simp add: ghost_ok_def)
qed

lemma ghost_ok_packet:
  assumes "process_packet P p s = Some s'" "ghost_ok n sent got rc bytes s"
  shows "ghost_ok n sent got (rc @ [p]) bytes s'"
proof -
  have rc: "ghost_ok n sent got (rc @ [p]) bytes s"
    using assms(2) by (rule ghost_ok_mono) auto
  show ?thesis
  proof (cases p)
    case (Ack sess seq)
    let ?s = "s\<lparr>tx := TxIdle, tx_retries := 0, final_input := None\<rparr>"
    obtain nx where nx: "add_checked (ucast seq :: u64) 1 = Some nx" "unat nx = unat seq + 1"
      using add_checked_u64 [of "ucast seq"] unat_u32_less [of seq] by auto
    have s': "s' = (if sess = session (config s) \<and> tx s \<noteq> TxIdle \<and> nx = tx_next s then ?s else s)"
      using assms(1) nx(1) by (auto simp: process_packet_def Ack split: if_splits)
    show ?thesis
    proof (cases "sess = session (config s) \<and> tx s \<noteq> TxIdle \<and> nx = tx_next s")
      case True
      then have "ghost_ok n sent got (rc @ [p]) bytes ?s"
        using nx(2) by (intro ghost_ok_acked [OF rc]) (simp_all add: Ack)
      with True show ?thesis by (simp add: s')
    next
      case False
      with rc show ?thesis by (simp only: s' if_False)
    qed
  next
    case (Data sess seq payload)
    have pending: "ghost_ok n sent got (rc @ [p]) bytes (s\<lparr>ack_pending := a\<rparr>)" for a
      using rc by (subst ghost_ok_cong [of s]) (simp_all add: same_ghost_def)
    show ?thesis
      using assms(1) Data rc pending ghost_ok_data [OF rc, of seq payload]
      by (auto simp: process_packet_def elim!: bind_SomeE split: if_splits)
  qed
qed

text \<open>The abstract receiver and the cut of the stream go together.\<close>

lemma ghost_ok_bytes:
  "rx_bytes P bs (part, d, s) = Some (part', d', s') \<Longrightarrow>
   fold (cut_byte (capacity P)) bs (bodies, part, d) = (bodies', part'', d'') \<Longrightarrow>
   ghost_ok n sent got (packets_in (capacity P) bodies) bytes s \<Longrightarrow>
     part'' = part' \<and> d'' = d' \<and> ghost_ok n sent got (packets_in (capacity P) bodies') bytes s'"
proof (induction bs arbitrary: part d s bodies)
  case Nil
  then show ?case by simp
next
  case (Cons b bs)
  obtain part1 d1 s1 where b: "rx_byte P b (part, d, s) = Some (part1, d1, s1)"
      "rx_bytes P bs (part1, d1, s1) = Some (part', d', s')"
    using Cons.prems(1) by (auto elim!: bind_SomeE)
  obtain bodies1 where c: "cut_byte (capacity P) b (bodies, part, d) = (bodies1, part1, d1)"
      "ghost_ok n sent got (packets_in (capacity P) bodies1) bytes s1"
    using b(1) Cons.prems(3) ghost_ok_packet [of P _ s s1 n sent got _ bytes]
    by (auto simp: rx_byte_def cut_byte_def rx_frame_def split: if_splits option.splits)
  with Cons.prems(2) have "fold (cut_byte (capacity P)) bs (bodies1, part1, d1) = (bodies', part'', d'')"
    by simp
  from Cons.IH [OF b(2) this c(2)] show ?case .
qed

section \<open>Sending\<close>

lemma unat_seq_last:
  assumes "0 < (w :: u64)" "unat w \<le> 2 ^ 32"
  shows "unat (ucast (w - 1) :: u32) = unat w - 1"
proof -
  have "unat (w - 1) = unat w - 1" using assms(1) by (simp add: unat_minus_one word_neq_0_conv)
  moreover have "unat (ucast (w - 1) :: u32) = unat (w - 1) mod 2 ^ 32"
    by (simp add: unsigned_ucast_eq take_bit_eq_mod)
  moreover have "0 < unat w" using assms(1) by (simp add: word_less_nat_alt)
  ultimately show ?thesis using assms(2) by simp
qed

text \<open>The frame under way is that of a packet of the connection.\<close>

lemma frame_under_way:
  assumes "conn_inv P tinv s" "ghost_ok n sent got rc bytes s" "out s = Writing fr offset"
    and "len = (case fr of AckFrame \<Rightarrow> ack_len s | DataFrame \<Rightarrow> tx_len s)"
    and "buf = (case fr of AckFrame \<Rightarrow> ack_frame s | DataFrame \<Rightarrow> tx_frame s)"
  shows "\<exists>p. packet_of_conn sent s p \<and> take len buf = packet_frame p"
proof (cases fr)
  case AckFrame
  with assms obtain q where "ucast q < rx_next s"
      "holds_frame (ack_frame s) (ack_len s) (Ack (session (config s)) q)"
    by (auto simp: conn_inv_def inv_defs)
  with AckFrame assms(4,5) show ?thesis
    by (intro exI [of _ "Ack (session (config s)) q"])
      (auto simp: packet_of_conn_def holds_frame_def word_less_nat_alt)
next
  case DataFrame
  with assms(3) have "data_out (out s)" by simp
  with assms(1,2) have tx: "0 < tx_next s" "unat (tx_next s) \<le> 2 ^ 32" "length sent = unat (tx_next s)"
      "holds_frame (tx_frame s) (tx_len s) (Data (session (config s)) (ucast (tx_next s - 1)) (last sent))"
    by (auto simp: conn_inv_def inv_defs ghost_ok_def tx_data_ok_def payloads_ok_def)
  then have "0 < length sent" by (simp add: word_less_nat_alt)
  then have "last sent = sent ! (length sent - 1)" by (simp add: last_conv_nth)
  then have "packet_of_conn sent s (Data (session (config s)) (ucast (tx_next s - 1)) (last sent))"
    using unat_seq_last [OF tx(1,2)] tx(3) \<open>0 < length sent\<close> by (simp add: packet_of_conn_def)
  with DataFrame tx(4) assms(4,5) show ?thesis by (auto simp: holds_frame_def)
qed

lemma ghost_written:
  assumes "conn_inv P tinv s" "ghost_ok n sent got rc bytes s" "out s = Writing fr offset"
    and "len = (case fr of AckFrame \<Rightarrow> ack_len s | DataFrame \<Rightarrow> tx_len s)"
    and "buf = (case fr of AckFrame \<Rightarrow> ack_frame s | DataFrame \<Rightarrow> tx_frame s)"
    and "offset + k \<le> len"
  shows "ghost_ok n sent got rc (bytes @ take k (take (len - offset) (drop offset buf)))
    (s\<lparr>transport := t, out := (if offset + k = len then Flushing fr else Writing fr (offset + k))\<rparr>)"
proof -
  let ?s = "s\<lparr>transport := t, out := (if offset + k = len then Flushing fr else Writing fr (offset + k))\<rparr>"
  have "take k (take (len - offset) (drop offset buf)) = take k (drop offset buf)"
    using assms(6) by (simp add: min_def)
  then have bytes: "take offset buf @ take k (take (len - offset) (drop offset buf)) = take (offset + k) buf"
    by (simp add: take_add)
  have part: "partial_frame s = take offset buf"
    using assms(3,5) by (cases fr) (simp_all add: partial_frame_def)
  have part': "partial_frame ?s = (if offset + k = len then [] else take (offset + k) buf)"
    using assms(5) by (cases fr) (simp_all add: partial_frame_def)
  obtain ps where ps: "bytes = concat (map packet_frame ps) @ take offset buf"
      "\<forall>p \<in> set ps. packet_of_conn sent s p"
    using assms(2) part by (auto simp: ghost_ok_def written_ok_def)
  obtain p where p: "packet_of_conn sent s p" "take len buf = packet_frame p"
    using frame_under_way [OF assms(1-5)] by blast
  have same: "packet_of_conn sent ?s = packet_of_conn sent s" by (rule packet_of_conn_cong) simp_all
  have "written_ok sent (bytes @ take k (take (len - offset) (drop offset buf))) ?s"
  proof (cases "offset + k = len")
    case True
    with bytes p ps show ?thesis
      unfolding written_ok_def part' same by (intro exI [of _ "ps @ [p]"]) simp
  next
    case False
    with bytes ps show ?thesis
      unfolding written_ok_def part' same by (intro exI [of _ ps]) simp
  qed
  moreover have "data_out (out ?s) = data_out (out s)" using assms(3) by simp
  ultimately show ?thesis
    using assms(2) by (simp add: ghost_ok_def payloads_ok_def tx_data_ok_def recv_ok_def
        acked_ok_def unread_def)
qed

lemma ghost_select:
  assumes "ghost_ok n sent got rc bytes s" "select_frame s = Some (b, s')"
  shows "ghost_ok n sent got rc bytes s'"
proof (cases "out s = OutIdle")
  case True
  then have part: "partial_frame s = []" by (simp add: partial_frame_def)
  have "partial_frame s' = []" "packet_of_conn sent s' = packet_of_conn sent s"
    using assms(2) True by (auto simp: select_frame_def partial_frame_def packet_of_conn_def fun_eq_iff
        elim!: bind_SomeE split: option.splits if_splits packet.split)
  then have "written_ok sent bytes s'"
    using assms(1) part by (simp add: ghost_ok_def written_ok_def)
  moreover have "payloads_ok n sent s'" "recv_ok got rc s'" "acked_ok sent rc s'" "tx_data_ok sent s'"
    using assms True by (auto simp: ghost_defs select_frame_def unread_def
        elim!: bind_SomeE split: option.splits if_splits)
  ultimately show ?thesis by (simp add: ghost_ok_def)
qed (use assms in \<open>auto simp: select_frame_def\<close>)

text \<open>The transmit state after a flush and after a timeout\<close>

lemma written_ok_cong:
  "partial_frame s' = partial_frame s \<Longrightarrow> config s' = config s \<Longrightarrow> rx_next s' = rx_next s \<Longrightarrow>
     written_ok sent bytes s' = written_ok sent bytes s"
  using packet_of_conn_cong [of s' s sent] by (simp add: written_ok_def)

lemma ghost_flushed:
  assumes "ghost_ok n sent got rc bytes s" "out s = Flushing fr"
  shows "ghost_ok n sent got rc bytes (s\<lparr>transport := t, out := OutIdle\<rparr>)"
    and "tx s = TxSending \<Longrightarrow> ghost_ok n sent got rc bytes
      (s\<lparr>transport := t, tx := TxWaiting, final_input := None, timer := c, tx_deadline := d, out := OutIdle\<rparr>)"
proof -
  have part: "partial_frame s = []" using assms(2) by (simp add: partial_frame_def)
  show "ghost_ok n sent got rc bytes (s\<lparr>transport := t, out := OutIdle\<rparr>)"
    using assms(1) part written_ok_cong [of "s\<lparr>transport := t, out := OutIdle\<rparr>" s sent bytes]
    by (simp add: ghost_defs partial_frame_def [of "_ \<lparr>out := _\<rparr>"] unread_def)
  let ?s = "s\<lparr>transport := t, tx := TxWaiting, final_input := None, timer := c, tx_deadline := d, out := OutIdle\<rparr>"
  show "ghost_ok n sent got rc bytes ?s" if "tx s = TxSending"
    using assms(1) part that written_ok_cong [of ?s s sent bytes]
    by (simp add: ghost_defs partial_frame_def [of ?s] unread_def)
qed

lemma ghost_retransmit:
  assumes "ghost_ok n sent got rc bytes s" "tx s = TxWaiting"
  shows "ghost_ok n sent got rc bytes (s\<lparr>final_input := f, tx_retries := r, tx := TxQueued\<rparr>)"
  using assms written_ok_cong [OF partial_frame_cong,
      of "s\<lparr>final_input := f, tx_retries := r, tx := TxQueued\<rparr>" s sent bytes]
  by (simp add: ghost_defs unread_def)

lemma ghost_queued:
  assumes "conn_inv P tinv s" "ghost_ok n sent got rc bytes s" "write_ready s"
    and "conn_inv P tinv s'" "payload \<noteq> []" "length payload \<le> n"
    and "s' = queued (len, scr, fr) s" "unat (tx_next s + 1) = unat (tx_next s) + 1"
    and "holds_frame fr len (Data (session (config s)) (ucast (tx_next s)) payload)"
  shows "ghost_ok n (sent @ [payload]) got rc bytes s'"
proof -
  from assms(3) have idle: "tx s = TxIdle" "\<not> data_out (out s)"
    by (auto simp: write_ready_def data_out_busy_eq)
  have part: "partial_frame s' = partial_frame s"
    using idle(2) by (auto simp: assms(7) queued_def partial_frame_def data_out_def
        split: out.split frame.split)
  have "packet_of_conn (sent @ [payload]) s' p" if "packet_of_conn sent s p" for p
    using that by (cases p) (auto simp: packet_of_conn_def assms(7) queued_def nth_append)
  then have "written_ok (sent @ [payload]) bytes s'"
    using assms(2) part by (auto simp: ghost_ok_def written_ok_def)
  moreover have "recv_ok got rc s'" "acked_ok (sent @ [payload]) rc s'"
    using assms(2) idle by (auto simp: ghost_defs assms(7) queued_def unread_def)
  moreover have "payloads_ok n (sent @ [payload]) s'" "tx_data_ok (sent @ [payload]) s'"
    using assms(2,5,6,8,9) by (auto simp: ghost_defs assms(7) queued_def)
  ultimately show ?thesis by (simp add: ghost_ok_def)
qed

end
