(* ===== verification/Delivery_Run.thy ===== *)
theory Delivery_Run
  imports Delivery Sequence
begin

text \<open>
  The relation of \<open>Delivery\<close> along the engine and the operations of the application, on every link
  that keeps the laws: what a run of a connection has read, written, accepted and delivered.
\<close>

section \<open>The relation with the tape\<close>

definition tape_inv :: "('t \<Rightarrow> bool) \<Rightarrow> 't tape \<Rightarrow> bool" where
  "tape_inv tinv t \<longleftrightarrow> tinv (inner t)"

lemma taped_reliable_link: "transport_total (link P) tinv \<Longrightarrow> reliable_link (taped P) (tape_inv tinv)"
  using taped_link [of P tinv] by (simp add: tape_inv_def [abs_def])

definition link_ok ::
  "('t, 'c, 'e) params \<Rightarrow> ('t \<Rightarrow> bool) \<Rightarrow> u8 list list \<Rightarrow> u8 list \<Rightarrow> ('t tape, 'c, 'e) reliable \<Rightarrow> bool" where
  "link_ok P tinv sent got s \<longleftrightarrow>
     conn_inv (taped P) (tape_inv tinv) s \<and>
     snd (cut_stream (capacity P) (tape_in (transport s))) =
       (take (rx_len s) (rx_buf s), rx_discarding s) \<and>
     ghost_ok (MAX_PAYLOAD P) sent got (wire_packets (capacity P) (tape_in (transport s)))
       (tape_out (transport s)) s"

lemma link_ok_cong:
  assumes "link_ok P tinv sent got s" "conn_inv (taped P) (tape_inv tinv) s'"
    and "same_ghost s s'"
    and "take (rx_len s') (rx_buf s') = take (rx_len s) (rx_buf s)" "rx_discarding s' = rx_discarding s"
    and "tape_in (transport s') = tape_in (transport s)" "tape_out (transport s') = tape_out (transport s)"
  shows "link_ok P tinv sent got s'"
  using assms ghost_ok_cong [OF assms(3)] by (simp add: link_ok_def)

lemma link_ok_new:
  assumes "new_reliable (taped P) (blank_tape t) c cfg = Inr s" "tinv t"
  shows "link_ok P tinv [] [] s"
proof -
  have "conn_inv (taped P) (tape_inv tinv) s"
    by (rule new_reliable_inv [OF assms(1)]) (simp add: tape_inv_def blank_tape_def assms(2))
  moreover have "tape_in (transport s) = []" "tape_out (transport s) = []" "tx s = TxIdle" "out s = OutIdle"
      "rx_next s = 0" "tx_next s = 0" "rx_start s = 0" "rx_end s = 0" "rx_len s = 0" "rx_discarding s = False"
    using assms(1) by (auto simp: new_reliable_def blank_tape_def split: if_splits)
  ultimately show ?thesis
    by (auto simp: link_ok_def cut_stream_def ghost_defs written_ok_def partial_frame_def unread_def
        intro!: exI [of _ "[]"])
qed

text \<open>The tape of each call\<close>

lemma tape_write_out:
  assumes "tape_write T cx buf t = Some (r, t')"
  shows "tape_in t' = tape_in t"
    and "tape_out t' = tape_out t @ (case r of Ready (Inr n) \<Rightarrow> take n buf | _ \<Rightarrow> [])"
    and "tape_calls t' = tape_calls t + 1"
  using assms by (auto simp: tape_write_def)

lemma tape_flush_out:
  assumes "tape_flush T cx t = Some (r, t')"
  shows "tape_in t' = tape_in t" "tape_out t' = tape_out t" "tape_calls t' = tape_calls t + 1"
  using assms by (auto simp: tape_flush_def)

lemma tape_read_in:
  assumes "tape_read T cx buf t = Some (r, buf', t')"
  shows "tape_in t' = tape_in t @ (case r of Ready (Inr n) \<Rightarrow> take n buf' | _ \<Rightarrow> [])"
    and "tape_out t' = tape_out t" and "tape_calls t' = tape_calls t + 1"
  using assms by (auto simp: tape_read_def)

section \<open>The engine\<close>

context reliable_link
begin

lemmas taped_ok = taped_reliable_link [OF transport_total_axioms]

lemma link_ok_inv: "link_ok P tinv sent got s \<Longrightarrow> conn_inv (taped P) (tape_inv tinv) s"
  by (simp add: link_ok_def)

lemma link_ok_select:
  assumes "link_ok P tinv sent got s" "select_frame s = Some (b, s')"
  shows "link_ok P tinv sent got s'"
proof -
  have "conn_inv (taped P) (tape_inv tinv) s'"
    using select_frame_inv [OF link_ok_inv [OF assms(1)]] assms(2) by auto
  moreover have "same_input s s' \<and> transport s' = transport s"
    using assms(2) by (auto simp: select_frame_def same_input_def elim!: bind_SomeE
        split: if_splits option.splits)
  ultimately show ?thesis
    using assms(1) ghost_select [OF _ assms(2)] by (simp add: link_ok_def same_input_def)
qed

text \<open>A write of a frame passes on some of the bytes that are left, or nothing.\<close>

lemma poll_writing_cases [consumes 3, case_names kept wrote]:
  fixes s :: "('t tape, 'c, 'e) reliable" and fr :: frame and offset :: nat
  defines "n \<equiv> (case fr of AckFrame \<Rightarrow> ack_len s | DataFrame \<Rightarrow> tx_len s)"
    and "buf \<equiv> (case fr of AckFrame \<Rightarrow> ack_frame s | DataFrame \<Rightarrow> tx_frame s)"
  assumes "conn_inv (taped P) (tape_inv tinv) s" "out s = Writing fr offset"
    and "poll_writing (taped P) cx fr offset s = Some (r, s')"
  obtains t where "s' = s\<lparr>transport := t\<rparr>" "tape_in t = tape_in (transport s)" "tape_out t = tape_out (transport s)"
  | t k where "offset + k \<le> n" "tape_in t = tape_in (transport s)"
      "tape_out t = tape_out (transport s) @ take k (take (n - offset) (drop offset buf))"
      "s' = s\<lparr>transport := t, out := (if offset + k = n then Flushing fr else Writing fr (offset + k))\<rparr>"
proof -
  define pending where "pending = take (n - offset) (drop offset buf)"
  have slice: "offset < n" "n \<le> length buf" "slice offset n buf = Some pending"
    using pending_slice [OF assms(3,4), of n buf] by (simp_all add: n_def buf_def pending_def)
  have n_fold: "(case fr of AckFrame \<Rightarrow> ack_len s | DataFrame \<Rightarrow> tx_len s) = n"
    and buf_fold: "(case fr of AckFrame \<Rightarrow> ack_frame s | DataFrame \<Rightarrow> tx_frame s) = buf"
    by (simp_all add: n_def buf_def)
  from assms(5) obtain w t where w: "tape_write (link P) cx pending (transport s) = Some (w, t)"
    unfolding poll_writing_def Let_def n_fold buf_fold slice(3) by (auto elim!: bind_SomeE)
  let ?s = "s\<lparr>transport := t\<rparr>"
  let ?next = "\<lambda>k. ?s\<lparr>out := (if offset + k = n then Flushing fr else Writing fr (offset + k))\<rparr>"
  have s': "s' = (case w of
      Ready (Inr k) \<Rightarrow> if k = 0 then ?s else ?next (min k (length pending))
    | _ \<Rightarrow> ?s)"
    using assms(5) w
    unfolding poll_writing_def Let_def n_fold buf_fold slice(3)
    by (auto split: poll.splits sum.splits if_splits)
  show thesis
  proof (cases "\<exists>k. w = Ready (Inr k) \<and> k \<noteq> 0")
    case True
    then obtain k where k: "w = Ready (Inr k)" "k \<noteq> 0" by blast
    have "take k pending = take (min k (length pending)) pending" by (cases "k \<le> length pending") simp_all
    then have "tape_out t = tape_out (transport s) @ take (min k (length pending)) pending"
      using tape_write_out(2) [OF w] k by simp
    moreover have "offset + min k (length pending) \<le> n" using slice(1) by (simp add: pending_def)
    ultimately show thesis
      using s' k tape_write_out(1) [OF w] by (intro that(2) [of "min k (length pending)" t, folded pending_def]) simp_all
  next
    case False
    then show thesis
      using s' tape_write_out(1,2) [OF w] by (intro that(1) [of t]) (auto split: poll.splits sum.splits)
  qed
qed

lemma link_ok_writing:
  assumes "link_ok P tinv sent got s" "out s = Writing fr offset"
    and "poll_writing (taped P) cx fr offset s = Some (r, s')"
  shows "link_ok P tinv sent got s'"
proof -
  have inv: "conn_inv (taped P) (tape_inv tinv) s" by (rule link_ok_inv [OF assms(1)])
  have inv': "conn_inv (taped P) (tape_inv tinv) s'"
    using reliable_link.poll_writing_inv [OF taped_ok inv assms(2), of cx] assms(3) by auto
  from inv assms(2,3) show ?thesis
  proof (cases rule: poll_writing_cases)
    case (kept t)
    with inv' show ?thesis by (intro link_ok_cong [OF assms(1)]) (simp_all add: same_ghost_def)
  next
    case (wrote t k)
    let ?next = "s\<lparr>transport := t, out := (if offset + k = (case fr of AckFrame \<Rightarrow> ack_len s | DataFrame \<Rightarrow> tx_len s)
      then Flushing fr else Writing fr (offset + k))\<rparr>"
    have "ghost_ok (MAX_PAYLOAD P) sent got (wire_packets (capacity P) (tape_in (transport s))) (tape_out t) ?next"
      unfolding wrote(3)
      by (rule ghost_written [OF inv _ assms(2) refl refl wrote(1)]) (use assms(1) in \<open>simp add: link_ok_def\<close>)
    with assms(1) inv' wrote(2,4) show ?thesis by (simp add: link_ok_def)
  qed
qed

lemma link_ok_flushing:
  assumes "link_ok P tinv sent got s" "out s = Flushing fr"
    and "poll_flushing (taped P) cx fr s = Some (r, s')"
  shows "link_ok P tinv sent got s'"
proof -
  have inv: "conn_inv (taped P) (tape_inv tinv) s" by (rule link_ok_inv [OF assms(1)])
  have inv': "conn_inv (taped P) (tape_inv tinv) s'"
    using reliable_link.poll_flushing_inv [OF taped_ok inv assms(2), of cx] assms(3) by auto
  from assms(3) obtain w t where w: "tape_flush (link P) cx (transport s) = Some (w, t)"
    by (auto simp: poll_flushing_def elim!: bind_SomeE)
  note ghost = ghost_flushed [OF _ assms(2), of "MAX_PAYLOAD P" sent got
      "wire_packets (capacity P) (tape_in (transport s))" "tape_out (transport s)", where t = t]
  have "ghost_ok (MAX_PAYLOAD P) sent got (wire_packets (capacity P) (tape_in (transport s)))
      (tape_out (transport s)) s" using assms(1) by (simp add: link_ok_def)
  note ghost = ghost [OF this]
  show ?thesis
  proof (cases "\<exists>x. w = Ready (Inr x)")
    case True
    obtain ticks c where c: "c_now (clock P) (timer s) = (ticks, c)" by fastforce
    with True assms(3) w have "s' =
        (if fr = DataFrame \<and> tx s = TxSending
         then s\<lparr>transport := t, tx := TxWaiting, final_input := None, timer := c,
                tx_deadline := saturating_add ticks (retransmit_timeout (config s)), out := OutIdle\<rparr>
         else s\<lparr>transport := t, out := OutIdle\<rparr>)"
      by (auto simp: poll_flushing_def Let_def split: if_splits)
    with ghost assms(1) inv' tape_flush_out [OF w] show ?thesis
      by (auto simp: link_ok_def split: if_splits)
  next
    case False
    with assms(3) w have "s' = s\<lparr>transport := t\<rparr>"
      by (auto simp: poll_flushing_def Let_def split: poll.splits sum.splits)
    with inv' tape_flush_out [OF w] show ?thesis
      by (intro link_ok_cong [OF assms(1)]) (simp_all add: same_ghost_def)
  qed
qed

lemma link_ok_output:
  assumes "link_ok P tinv sent got s" "poll_output (taped P) cx (b, s) = Some (r, b', s')"
  shows "link_ok P tinv sent got s'"
proof -
  from assms(2) obtain sel s1 where sel: "select_frame s = Some (sel, s1)"
    by (auto simp: poll_output_def elim!: bind_SomeE)
  have "link_ok P tinv sent got s1" using link_ok_select [OF assms(1) sel] .
  with sel assms(2) show ?thesis
    by (auto simp: poll_output_def Let_def elim!: bind_SomeE split: if_splits prod.splits out.splits
        dest: link_ok_writing link_ok_flushing)
qed

text \<open>The input: what was read goes through the abstract receiver.\<close>

lemma link_ok_received:
  assumes "link_ok P tinv sent got s" "process_input (taped P) s2 = Some s'"
    and "core_inv (taped P) (tape_inv tinv) s2" "rx_len s2 \<le> capacity P"
    and "same_ghost s s2" "rx_discarding s2 = rx_discarding s"
    and "take (rx_len s2) (rx_buf s2) = take (rx_len s) (rx_buf s) @ bs"
    and "tape_in (transport s2) = tape_in (transport s) @ bs"
    and "tape_out (transport s2) = tape_out (transport s)"
  shows "link_ok P tinv sent got s'"
proof -
  let ?part = "take (rx_len s) (rx_buf s)"
  obtain bodies where cut: "cut_stream (capacity P) (tape_in (transport s)) = (bodies, ?part, rx_discarding s)"
    using assms(1) by (metis link_ok_def prod.collapse)
  have len: "rx_len s2 \<le> capacity (taped P)" using assms(4) by simp
  obtain s'' where s'': "process_input (taped P) s2 = Some s''" "conn_inv (taped P) (tape_inv tinv) s''"
      "same_output s2 s''"
    using process_input_inv [OF assms(3) len] by blast
  then have out: "conn_inv (taped P) (tape_inv tinv) s'" "transport s' = transport s2"
    using assms(2) by (simp_all add: same_output_def)
  have "rx_bytes (taped P) (?part @ bs) ([], rx_discarding s, rx_core s2) = Some (rx_view s')"
    using process_input_refines [OF assms(3) len] assms(2,6,7) by simp
  then have rx: "rx_bytes (taped P) bs (?part, rx_discarding s, rx_core s2) =
      Some (take (rx_len s') (rx_buf s'), rx_discarding s', rx_core s')"
    using input_inv_bytes [of "taped P" s] conn_inv_parts(7) [OF link_ok_inv [OF assms(1)]]
    by (simp add: rx_bytes_append rx_view_def)
  obtain bodies' part' d' where cut': "fold (cut_byte (capacity P)) bs (bodies, ?part, rx_discarding s) =
      (bodies', part', d')"
    by (metis prod_cases3)
  have "ghost_ok (MAX_PAYLOAD P) sent got (packets_in (capacity P) bodies) (tape_out (transport s)) (rx_core s2)"
    using assms(1) cut ghost_ok_cong [OF assms(5)] by (simp add: link_ok_def wire_packets_def)
  from ghost_ok_bytes [OF rx, of bodies bodies' part' d'] cut' this
  have "part' = take (rx_len s') (rx_buf s')" "d' = rx_discarding s'"
    "ghost_ok (MAX_PAYLOAD P) sent got (packets_in (capacity P) bodies') (tape_out (transport s)) s'"
    by simp_all
  moreover have "cut_stream (capacity P) (tape_in (transport s')) = (bodies', part', d')"
    using cut cut' assms(8) out(2) by (simp add: cut_stream_def)
  ultimately show ?thesis using out assms(9) by (simp add: link_ok_def wire_packets_def)
qed

lemma link_ok_input:
  assumes "link_ok P tinv sent got s" "poll_input (taped P) cx (b, s) = Some (r, b', s')"
  shows "link_ok P tinv sent got s'"
proof -
  obtain sp b1 where sp: "spend b = (sp, b1)" by fastforce
  obtain w free t where
    w: "tape_read (link P) cx (drop (rx_len s) (rx_buf s)) (transport s) = Some (w, free, t)"
      "rx_len s + length free = capacity P" "conn_inv (taped P) (tape_inv tinv) (after_read t free s)"
      "poll_input (taped P) cx (b, s) = (if \<not> sp then Some (Inr Yield, b1, s)
         else input_outcome (taped P) w (length free) b1 (after_read t free s))"
    by (rule reliable_link.poll_input_eq [OF taped_ok link_ok_inv [OF assms(1)] sp, unfolded taped_simps])
  let ?s = "after_read t free s"
  have part: "take (rx_len s) (rx_buf ?s) = take (rx_len s) (rx_buf s)"
    "length (take (rx_len s) (rx_buf s)) = rx_len s" "same_ghost s ?s"
    using link_ok_inv [OF assms(1)] by (auto simp: after_read_def same_ghost_def conn_inv_def inv_defs)
  note tape = tape_read_in [OF w(1)]
  consider "\<not> sp" "s' = s" | n where "w = Ready (Inr n)" "n \<noteq> 0"
      "process_input (taped P) (taking_in (min n (length free)) ?s) = Some s'"
    | "\<And>n. w = Ready (Inr n) \<Longrightarrow> n = 0" "s' = ?s"
    using assms(2) unfolding w(4) input_outcome_def
    by (auto elim!: bind_SomeE split: if_splits poll.splits sum.splits)
  then show ?thesis
  proof cases
    case 1
    with assms(1) show ?thesis by simp
  next
    case (2 n)
    let ?k = "min n (length free)"
    have core: "core_inv (taped P) (tape_inv tinv) (taking_in ?k ?s)" "rx_len (taking_in ?k ?s) \<le> capacity P"
      using reliable_link.taking_in_core [OF taped_ok w(3), of ?k] w(2) by simp_all
    have "take (rx_len s + ?k) (take (rx_len s) (rx_buf s) @ free) = take (rx_len s) (rx_buf s) @ take n free"
      using part(2) by (simp add: min_def)
    then show ?thesis
      using link_ok_received [OF assms(1) 2(3) core, of "take n free"] part(3) tape 2(1)
      by (simp add: taking_in_def after_read_def same_ghost_def)
  next
    case 3
    then have "tape_in t = tape_in (transport s)" using tape(1) by (auto split: poll.splits sum.splits)
    then show ?thesis
      using w(3) part tape(2) unfolding 3(2)
      by (intro link_ok_cong [OF assms(1)]) (simp_all add: after_read_def)
  qed
qed

lemma link_ok_timer:
  assumes "link_ok P tinv sent got s" "poll_timer (taped P) cx i (b, s) = Some (r, b', s')"
  shows "link_ok P tinv sent got s'"
proof -
  have inv': "conn_inv (taped P) (tape_inv tinv) s'"
    using reliable_link.poll_timer_inv [OF taped_ok link_ok_inv [OF assms(1)], of cx i b] assms(2) by auto
  consider (same) "same_ghost s s'" "same_input s s'" "transport s' = transport s"
    | (again) f n where "tx s = TxWaiting" "s' = s\<lparr>final_input := f, tx_retries := n, tx := TxQueued\<rparr>"
    using assms(2)
    by (auto simp: poll_timer_def Let_def same_ghost_def same_input_def elim!: bind_SomeE
        split: if_splits option.splits prod.splits)
  then show ?thesis
  proof cases
    case same
    with inv' show ?thesis
      by (intro link_ok_cong [OF assms(1)]) (simp_all add: same_input_def)
  next
    case (again f n)
    with inv' assms(1) show ?thesis by (simp add: link_ok_def ghost_retransmit)
  qed
qed

lemma link_ok_step:
  assumes "link_ok P tinv sent got s" "step (taped P) cx (b, s) = Some (r, b', s')"
  shows "link_ok P tinv sent got s'"
  using assms unfolding step_def
  by (auto elim!: try_bind_SomeE) (meson link_ok_output link_ok_input link_ok_timer)+

lemma link_ok_fail:
  assumes "link_ok P tinv sent got s"
  shows "link_ok P tinv sent got (fail e s)"
proof (rule link_ok_cong [OF assms])
  show "conn_inv (taped P) (tape_inv tinv) (fail e s)"
    using link_ok_inv [OF assms] by (rule conn_inv_fail)
qed (simp_all add: fail_def Let_def same_ghost_def split: health.split)

lemma link_ok_drive_loop:
  "drive_loop (taped P) cx bs = Some (w, b', s') \<Longrightarrow> link_ok P tinv sent got (snd bs) \<Longrightarrow>
     link_ok P tinv sent got s'"
proof (induction "taped P" cx bs rule: drive_loop.induct)
  case (1 cx bs)
  from "1.prems"(1) obtain r b1 s1 where st: "step (taped P) cx bs = Some (r, b1, s1)"
    by (subst (asm) drive_loop.simps) (auto elim!: bind_SomeE)
  then have ok: "link_ok P tinv sent got s1"
    using link_ok_step [of sent got "snd bs" cx "fst bs"] "1.prems"(2) by simp
  show ?case
  proof (cases "r = Inr Progress")
    case True
    with "1.prems"(1) st have "drive_loop (taped P) cx (b1, s1) = Some (w, b', s')"
      by (subst (asm) drive_loop.simps) simp
    with True ok show ?thesis using "1.hyps" [OF st refl] by simp
  next
    case False
    moreover have "link_ok P tinv sent got (s1\<lparr>woken := woken s1 @ [cx]\<rparr>)"
      using ok link_ok_inv [OF ok]
      by (intro link_ok_cong [OF ok]) (simp_all add: same_ghost_def conn_inv_woken)
    ultimately show ?thesis
      using "1.prems"(1) st ok link_ok_fail [OF ok]
      by (subst (asm) drive_loop.simps) (auto split: sum.splits work.splits)
  qed
qed

lemma link_ok_drive:
  "link_ok P tinv sent got s \<Longrightarrow> drive (taped P) cx (b, s) = Some (w, b', s') \<Longrightarrow>
     link_ok P tinv sent got s'"
  using link_ok_drive_loop [of cx "(b, s)" w b' s'] by (auto simp: drive_def split: if_splits)

text \<open>What the operations of the application add\<close>

lemma link_ok_set_waiters: "link_ok P tinv sent got s \<Longrightarrow> link_ok P tinv sent got (set_waiters w new s)"
  by (rule link_ok_cong)
    (simp_all add: set_waiters_def same_ghost_def conn_inv_waiters conn_inv_woken link_ok_inv)

lemma link_ok_finish:
  "link_ok P tinv sent got s \<Longrightarrow> finish op cx p s = (p', s') \<Longrightarrow> link_ok P tinv sent got s' \<and> p' = p"
  by (auto simp: finish_eq link_ok_set_waiters)

lemma link_ok_failure:
  "link_ok P tinv sent got s \<Longrightarrow> failure s = (e, s') \<Longrightarrow> link_ok P tinv sent got s'"
  using link_ok_cong [of P tinv sent got s "s\<lparr>health := HealthReported\<rparr>"]
  by (auto simp: failure_def same_ghost_def conn_inv_health link_ok_inv split: health.splits)

lemma link_ok_queued:
  assumes "link_ok P tinv sent got s" "write_ready s" "\<not> tx_next s > ucast (- 1 :: u32)"
    and "payload \<noteq> []" "length payload \<le> MAX_PAYLOAD P"
    and "encode_data (session (config s)) (ucast (tx_next s)) payload (scratch s) (tx_frame s) = Some enc"
  shows "link_ok P tinv (sent @ [payload]) got (queued enc s)"
    and "add_checked (tx_next s) 1 = Some (tx_next s + 1)"
proof -
  let ?p = "Data (session (config s)) (ucast (tx_next s)) payload"
  have inv: "conn_inv (taped P) (tape_inv tinv) s" by (rule link_ok_inv [OF assms(1)])
  have pl: "length payload \<le> MAX_PAYLOAD (taped P)" using assms(5) by simp
  note q = queue_data [OF inv assms(2-4) pl]
  then show next_seq: "add_checked (tx_next s) 1 = Some (tx_next s + 1)" by blast
  from q assms(6) have inv': "conn_inv (taped P) (tape_inv tinv) (queued enc s)" by auto
  from next_seq have nx: "unat (tx_next s + 1) = unat (tx_next s) + 1"
    by (auto simp: add_checked_def unat_word_ariths split: if_splits)
  have fits: "length (packet_frame ?p) \<le> capacity P" "OVERHEAD + length payload \<le> capacity P"
    using assms(4,5) by (auto intro!: packet_frame_data_fits simp: MAX_PAYLOAD_def)
  have len: "length (tx_frame s) = capacity P" "length (scratch s) = capacity P"
    using inv by (simp_all add: conn_inv_def inv_defs)
  obtain n scr fr where enc: "enc = (n, scr, fr)" by (cases enc)
  with assms(6) fits len have "holds_frame fr n ?p"
    by (auto simp: encode_data_eq holds_frame_def)
  then have "ghost_ok (MAX_PAYLOAD P) (sent @ [payload]) got
      (wire_packets (capacity P) (tape_in (transport s))) (tape_out (transport s)) (queued enc s)"
    using assms(1) by (intro ghost_queued [OF inv _ assms(2) inv' assms(4,5)]) (auto simp: enc nx link_ok_def)
  then show "link_ok P tinv (sent @ [payload]) got (queued enc s)"
    using assms(1) inv' by (simp add: link_ok_def queued_def enc)
qed

end

definition accepted :: "('x + nat) poll \<Rightarrow> u8 list \<Rightarrow> u8 list list \<Rightarrow> u8 list list" where
  "accepted r buf sent =
     (case r of Ready (Inr n) \<Rightarrow> if n = 0 then sent else sent @ [take n buf] | _ \<Rightarrow> sent)"

definition delivered :: "('x + nat) poll \<Rightarrow> u8 list \<Rightarrow> u8 list \<Rightarrow> u8 list" where
  "delivered r buf got = (case r of Ready (Inr n) \<Rightarrow> got @ take n buf | _ \<Rightarrow> got)"

context reliable_link
begin

lemma link_ok_queue_packet:
  assumes "link_ok P tinv sent got s" "buf \<noteq> []" "queue_packet (taped P) cx buf s = Some (r, s')"
  shows "link_ok P tinv (accepted r buf sent) got s'"
  using assms(3)
proof (cases rule: queue_packet_cases)
  case (error w b s1 e)
  have "link_ok P tinv sent got (seq_check s1)"
    using link_ok_drive [OF assms(1) error(1)] by (simp add: seq_check_def link_ok_fail)
  from link_ok_failure [OF this error(2)] show ?thesis by (simp add: error(3) accepted_def)
next
  case (busy w b)
  with link_ok_drive [OF assms(1) busy(1)] show ?thesis by (simp add: accepted_def)
next
  case (accept w b s1 enc)
  let ?payload = "take (min (length buf) (MAX_PAYLOAD P)) buf"
  have s1: "link_ok P tinv sent got s1" using link_ok_drive [OF assms(1) accept(1)] .
  then have "0 < MAX_PAYLOAD P" using conn_inv_parts(3) [OF link_ok_inv [OF s1]] by (simp add: buffers_inv_def)
  then have payload: "?payload \<noteq> []" "length ?payload \<le> MAX_PAYLOAD P" "min (length buf) (MAX_PAYLOAD P) \<noteq> 0"
    using assms(2) by auto
  have q: "link_ok P tinv (sent @ [?payload]) got (queued enc s1)"
    using link_ok_queued [OF s1 accept(3,4) payload(1,2)] accept(5) by simp
  have "link_ok P tinv (sent @ [?payload]) got s'"
    using q accept(7) link_ok_drive [OF q] by (auto split: if_splits)
  moreover have "accepted r buf sent = sent @ [?payload]"
    using payload(3) unfolding accept(6) by (simp add: accepted_def)
  ultimately show ?thesis by simp
qed

lemma link_ok_write:
  assumes "link_ok P tinv sent got s" "poll_write (taped P) cx buf s = Some (r, s')"
  shows "link_ok P tinv (accepted r buf sent) got s'"
proof (cases "buf = []")
  case True
  with assms show ?thesis by (auto simp: poll_write_def accepted_def)
next
  case False
  with assms(2) obtain p s1 where q: "queue_packet (taped P) cx buf s = Some (p, s1)"
      "finish OpWrite cx p s1 = (r, s')"
    by (auto simp: poll_write_def elim!: bind_SomeE)
  from link_ok_finish [OF link_ok_queue_packet [OF assms(1) False q(1)] q(2)] show ?thesis by simp
qed

lemma link_ok_flush:
  assumes "link_ok P tinv sent got s" "poll_flush (taped P) cx s = Some (r, s')"
  shows "link_ok P tinv sent got s'"
proof -
  from assms(2) obtain w b s1 where d: "drive (taped P) cx (new_budget, s) = Some (w, b, s1)"
    by (auto simp: poll_flush_def elim!: bind_SomeE)
  obtain e s2 where f: "failure s1 = (e, s2)" by fastforce
  have "link_ok P tinv sent got s2" using link_ok_failure [OF link_ok_drive [OF assms(1) d] f] .
  moreover have "\<exists>p. finish OpFlush cx p s2 = (r, s')"
    using assms(2) d f by (auto simp: poll_flush_def Let_def)
  ultimately show ?thesis using link_ok_finish by blast
qed

lemma link_ok_progress:
  assumes "link_ok P tinv sent got s" "poll_progress (taped P) cx s = Some (r, s')"
  shows "link_ok P tinv sent got s'"
proof -
  from assms(2) obtain w b s1 where d: "drive (taped P) cx (new_budget, s) = Some (w, b, s1)"
    by (auto simp: poll_progress_def elim!: bind_SomeE)
  obtain e s2 where f: "failure s1 = (e, s2)" by fastforce
  have "link_ok P tinv sent got s2" using link_ok_failure [OF link_ok_drive [OF assms(1) d] f] .
  moreover have "\<exists>p. finish OpProgress cx p s2 = (r, s')"
    using assms(2) d f by (auto simp: poll_progress_def Let_def)
  ultimately show ?thesis using link_ok_finish by blast
qed

lemma link_ok_cancel:
  "link_ok P tinv sent got s \<Longrightarrow> link_ok P tinv sent got (cancel_pending operation s)"
  by (simp add: cancel_pending_eq link_ok_set_waiters)

text \<open>Reading moves bytes from the retained payload to the application.\<close>

lemma link_ok_take:
  assumes "link_ok P tinv sent got s" "n \<le> rx_end s - rx_start s" "rx_start s \<le> rx_end s"
  shows "link_ok P tinv sent (got @ take n (drop (rx_start s) (rx_payload s)))
    (s\<lparr>rx_start := rx_start s + n\<rparr>)"
proof -
  let ?s = "s\<lparr>rx_start := rx_start s + n\<rparr>"
  have "unread s = take n (drop (rx_start s) (rx_payload s)) @ unread ?s"
    using take_add [of n "rx_end s - rx_start s - n" "drop (rx_start s) (rx_payload s)"] assms(2)
    unfolding le_add_diff_inverse [OF assms(2)] by (simp add: unread_def add.commute)
  moreover have "conn_inv (taped P) (tape_inv tinv) ?s"
    using link_ok_inv [OF assms(1)] assms(2,3) by (simp add: conn_inv_def inv_defs)
  ultimately show ?thesis
    using assms(1) written_ok_cong [OF partial_frame_cong, of ?s s]
    by (auto simp: link_ok_def ghost_defs)
qed

lemma link_ok_read:
  assumes "link_ok P tinv sent got s" "poll_read (taped P) cx buf s = Some (r, buf', s')"
  shows "link_ok P tinv sent (delivered r buf' got) s'"
proof (cases "buf = []")
  case True
  with assms show ?thesis by (auto simp: poll_read_def delivered_def)
next
  case False
  with assms(2) obtain w b s1 where d: "drive (taped P) cx (new_budget, s) = Some (w, b, s1)"
    by (auto simp: poll_read_def elim!: bind_SomeE)
  have s1: "link_ok P tinv sent got s1" using link_ok_drive [OF assms(1) d] .
  note parts = conn_inv_parts(3,6) [OF link_ok_inv [OF s1]]
  show ?thesis
  proof (cases "rx_start s1 < rx_end s1")
    case True
    let ?n = "min (length buf) (rx_end s1 - rx_start s1)"
    let ?data = "take ?n (drop (rx_start s1) (rx_payload s1))"
    let ?s = "s1\<lparr>rx_start := rx_start s1 + ?n\<rparr>"
    from poll_read_data [OF d True parts False refl] assms(2)
    have r: "r = Ready (Inr ?n)" "buf' = ?data @ drop ?n buf" "\<exists>w new. s' = set_waiters w new ?s"
      by (auto simp: finish_eq)
    have "length (rx_payload s1) = capacity P" "rx_end s1 \<le> MAX_PAYLOAD P"
      using parts by (simp_all add: inv_defs)
    moreover have "MAX_PAYLOAD P + 20 \<le> capacity P"
      using capacity_bounds(2) [OF parts(1)] by simp
    ultimately have "length ?data = ?n" by simp
    then have "take ?n buf' = ?data" using r(2) by simp
    then have "delivered r buf' got = got @ ?data" using r(1) by (simp add: delivered_def)
    moreover have "link_ok P tinv sent (got @ ?data) ?s"
      using True by (intro link_ok_take [OF s1]) simp_all
    ultimately show ?thesis using r(3) by (auto simp: link_ok_set_waiters)
  next
    case no: False
    obtain e s2 where f: "failure s1 = (e, s2)" by fastforce
    have "link_ok P tinv sent got s2" using link_ok_failure [OF s1 f] .
    moreover have "(\<forall>n. r \<noteq> Ready (Inr n)) \<and> (\<exists>w new. s' = set_waiters w new s2)"
      using assms(2) False d no f
      by (cases e) (auto simp: poll_read_def Let_def finish_eq)
    ultimately show ?thesis
      by (auto simp: delivered_def link_ok_set_waiters split: poll.split sum.split)
  qed
qed

end

end
