(* ===== verification/Call_Budget.thy ===== *)
theory Call_Budget
  imports Delivery_Run
begin

text \<open>
  How often a poll calls the link: every call spends a unit of the budget, and a poll has one
  budget of \<open>STEP_BUDGET\<close> units, also where it drives the connection twice.
\<close>

definition link_calls :: "('t tape, 'c, 'e) reliable \<Rightarrow> nat" where
  "link_calls s = tape_calls (transport s)"

lemma select_frame_transport: "select_frame s = Some (b, s') \<Longrightarrow> transport s' = transport s"
  by (auto simp: select_frame_def elim!: bind_SomeE split: if_splits option.splits)

lemma spend_cases:
  obtains "b = 0" "spend b = (False, 0)" | b' where "b = Suc b'" "spend b = (True, b')"
  by (cases b) (auto simp: spend_def checked_sub_def)

lemma poll_writing_calls:
  "poll_writing (taped P) cx fr offset s = Some (r, s') \<Longrightarrow> link_calls s' = link_calls s + 1"
  by (auto simp: poll_writing_def Let_def link_calls_def elim!: bind_SomeE dest!: tape_write_out(3)
      split: poll.splits sum.splits if_splits)

lemma poll_flushing_calls:
  "poll_flushing (taped P) cx fr s = Some (r, s') \<Longrightarrow> link_calls s' = link_calls s + 1"
  by (auto simp: poll_flushing_def Let_def link_calls_def elim!: bind_SomeE dest!: tape_flush_out(3)
      split: poll.splits sum.splits if_splits prod.splits)

lemma poll_output_calls:
  assumes "poll_output (taped P) cx (b, s) = Some (r, b', s')"
  shows "link_calls s' + b' \<le> link_calls s + b"
proof -
  from assms obtain sel s1 where sel: "select_frame s = Some (sel, s1)"
    by (auto simp: poll_output_def elim!: bind_SomeE)
  then have "link_calls s1 = link_calls s" by (simp add: link_calls_def select_frame_transport)
  with sel assms show ?thesis
    by (cases b rule: spend_cases)
      (auto simp: poll_output_def Let_def elim!: bind_SomeE dest!: poll_writing_calls poll_flushing_calls
        split: if_splits out.splits)
qed

lemma poll_input_calls:
  assumes "poll_input (taped P) cx (b, s) = Some (r, b', s')"
  shows "link_calls s' + b' \<le> link_calls s + b"
  using assms
  by (cases b rule: spend_cases)
    (auto simp: poll_input_def Let_def link_calls_def same_output_def elim!: bind_SomeE
      dest!: tape_read_in(3) process_input_same_output split: if_splits poll.splits sum.splits)

lemma poll_timer_calls:
  assumes "poll_timer (taped P) cx i (b, s) = Some (r, b', s')"
  shows "link_calls s' + b' \<le> link_calls s + b"
  using assms
  by (auto simp: poll_timer_def Let_def link_calls_def elim!: bind_SomeE
      split: if_splits option.splits prod.splits)

lemma step_calls:
  assumes "step (taped P) cx (b, s) = Some (r, b', s')"
  shows "link_calls s' + b' \<le> link_calls s + b"
  using assms unfolding step_def
  by (auto elim!: try_bind_SomeE dest!: poll_output_calls poll_input_calls poll_timer_calls)

lemma link_calls_fail [simp]: "link_calls (fail e s) = link_calls s"
  by (auto simp: link_calls_def fail_def Let_def split: health.split)

lemma drive_loop_calls:
  "drive_loop (taped P) cx bs = Some (w, b', s') \<Longrightarrow>
     link_calls s' + b' \<le> link_calls (snd bs) + fst bs"
proof (induction "taped P" cx bs rule: drive_loop.induct)
  case (1 cx bs)
  from "1.prems" obtain r b1 s1 where st: "step (taped P) cx bs = Some (r, b1, s1)"
    by (subst (asm) drive_loop.simps) (auto elim!: bind_SomeE)
  then have le: "link_calls s1 + b1 \<le> link_calls (snd bs) + fst bs"
    using step_calls [of P cx "fst bs" "snd bs"] by simp
  show ?case
  proof (cases "r = Inr Progress")
    case True
    with "1.prems" st have "drive_loop (taped P) cx (b1, s1) = Some (w, b', s')"
      by (subst (asm) drive_loop.simps) simp
    with True le show ?thesis using "1.hyps" [OF st refl] by simp
  next
    case False
    with "1.prems" st le show ?thesis
      by (subst (asm) drive_loop.simps) (auto simp: link_calls_def [of "_ \<lparr>woken := _\<rparr>"]
          link_calls_def [symmetric] split: sum.splits work.splits)
  qed
qed

lemma drive_calls:
  "drive (taped P) cx (b, s) = Some (w, b', s') \<Longrightarrow> link_calls s' + b' \<le> link_calls s + b"
  using drive_loop_calls [of P cx "(b, s)" w b' s'] by (auto simp: drive_def split: if_splits)

lemma link_calls_unchanged:
  "link_calls (set_waiters w new s) = link_calls s"
  "failure s = (e, s') \<Longrightarrow> link_calls s' = link_calls s"
  "finish op cx p s = (p', s') \<Longrightarrow> link_calls s' = link_calls s"
  by (auto simp: link_calls_def failure_def finish_eq split: health.splits)

lemma poll_flush_calls:
  assumes "poll_flush (taped P) cx s = Some (r, s')"
  shows "link_calls s' \<le> link_calls s + STEP_BUDGET"
proof -
  from assms obtain w b s1 where d: "drive (taped P) cx (new_budget, s) = Some (w, b, s1)"
    by (auto simp: poll_flush_def elim!: bind_SomeE)
  obtain e s2 where f: "failure s1 = (e, s2)" by fastforce
  with assms d have "\<exists>p. finish OpFlush cx p s2 = (r, s')" by (auto simp: poll_flush_def Let_def)
  with drive_calls [OF d] f show ?thesis by (auto simp: new_budget_def dest!: link_calls_unchanged(2,3))
qed

lemma poll_progress_calls:
  assumes "poll_progress (taped P) cx s = Some (r, s')"
  shows "link_calls s' \<le> link_calls s + STEP_BUDGET"
proof -
  from assms obtain w b s1 where d: "drive (taped P) cx (new_budget, s) = Some (w, b, s1)"
    by (auto simp: poll_progress_def elim!: bind_SomeE)
  obtain e s2 where f: "failure s1 = (e, s2)" by fastforce
  with assms d have "\<exists>p. finish OpProgress cx p s2 = (r, s')" by (auto simp: poll_progress_def Let_def)
  with drive_calls [OF d] f show ?thesis by (auto simp: new_budget_def dest!: link_calls_unchanged(2,3))
qed

lemma poll_read_calls:
  assumes "poll_read (taped P) cx buf s = Some (r, buf', s')"
  shows "link_calls s' \<le> link_calls s + STEP_BUDGET"
proof (cases "buf = []")
  case False
  with assms obtain w b s1 where d: "drive (taped P) cx (new_budget, s) = Some (w, b, s1)"
    by (auto simp: poll_read_def elim!: bind_SomeE)
  have "link_calls s' = link_calls s1"
    using assms False d
    by (auto simp: poll_read_def Let_def elim!: bind_SomeE dest!: link_calls_unchanged(2,3)
        split: if_splits prod.splits option.splits) (simp_all add: link_calls_def)
  with drive_calls [OF d] show ?thesis by (simp add: new_budget_def)
qed (use assms in \<open>auto simp: poll_read_def\<close>)

lemma queue_packet_calls:
  assumes "queue_packet (taped P) cx buf s = Some (r, s')"
  shows "link_calls s' \<le> link_calls s + STEP_BUDGET"
proof -
  from assms obtain w b s1 where d: "drive (taped P) cx (new_budget, s) = Some (w, b, s1)"
    by (auto simp: queue_packet_def elim!: bind_SomeE)
  define s2 where "s2 = (if write_ready s1 \<and> tx_next s1 > ucast (- 1 :: u32)
      then fail SequenceExhausted s1 else s1)"
  obtain e s3 where f: "failure s2 = (e, s3)" by fastforce
  have s3: "link_calls s3 = link_calls s1"
    using link_calls_unchanged(2) [OF f] by (simp add: s2_def)
  have "link_calls s' \<le> link_calls s1 + b"
  proof (cases "e = None \<and> write_ready s1")
    case False
    then have "s' = s3"
      using assms d f by (auto simp: queue_packet_def Let_def s2_def split: option.splits)
    with s3 show ?thesis by simp
  next
    case True
    with assms d f [unfolded s2_def] s3 show ?thesis
      by (auto simp: queue_packet_def Let_def elim!: bind_SomeE
          dest!: drive_calls split: if_splits) (simp_all add: link_calls_def)
  qed
  with drive_calls [OF d] show ?thesis by (simp add: new_budget_def)
qed

lemma poll_write_calls:
  assumes "poll_write (taped P) cx buf s = Some (r, s')"
  shows "link_calls s' \<le> link_calls s + STEP_BUDGET"
  using assms
  by (auto simp: poll_write_def elim!: bind_SomeE dest!: queue_packet_calls link_calls_unchanged(3)
      split: if_splits)

end
