(* ===== verification/Progress_Properties.thy ===== *)
theory Progress_Properties
  imports Sequence Call_Budget Connection_Properties
begin

text \<open>
  The properties of polling: a poll makes a bounded number of calls, and one that is pending will be
  polled again; what a write accepts, and what exhausts the sequence numbers.
\<close>

section \<open>Bounded work\<close>

text \<open>
  C12: A poll returns after at most \<open>STEP_BUDGET\<close> = 16 calls of its link, also where it drives the
  connection twice, and whatever the link answers: a link that is always ready cannot hold it.
\<close>

theorem poll_call_budget:
  assumes "transport_total (link P) tinv" "conn_inv (taped P) (tape_inv tinv) s"
  shows "(\<exists>r buf' s'. poll_read (taped P) cx buf s = Some (r, buf', s') \<and> link_calls s' \<le> link_calls s + 16) \<and>
    (\<exists>r s'. poll_write (taped P) cx buf s = Some (r, s') \<and> link_calls s' \<le> link_calls s + 16) \<and>
    (\<exists>r s'. poll_flush (taped P) cx s = Some (r, s') \<and> link_calls s' \<le> link_calls s + 16) \<and>
    (\<exists>r s'. poll_progress (taped P) cx s = Some (r, s') \<and> link_calls s' \<le> link_calls s + 16)"
proof -
  note ok = taped_reliable_link [OF assms(1)]
  note [simp] = STEP_BUDGET_def
  show ?thesis
    using reliable_link.poll_read_inv [OF ok assms(2), of cx buf] poll_read_calls [of P cx buf s]
      reliable_link.poll_write_inv [OF ok assms(2), of cx buf] poll_write_calls [of P cx buf s]
      reliable_link.poll_flush_inv [OF ok assms(2), of cx] poll_flush_calls [of P cx s]
      reliable_link.poll_progress_inv [OF ok assms(2), of cx] poll_progress_calls [of P cx s]
    by simp blast
qed

theorem poll_call_budget_witness:
  "\<exists>s r s'. new_reliable (taped (trickle_params 32)) (blank_tape default_trickle) default_clock (new_config 7) = Inr s \<and>
     poll_write (taped (trickle_params 32)) (Waker 1 0) [1, 2, 3] s = Some (r, s') \<and> link_calls s' \<le> 16"
proof -
  obtain s where s: "new_reliable (taped (trickle_params 32)) (blank_tape default_trickle) default_clock
      (new_config 7) = Inr s"
    using new_reliable_cases(1) [of "taped (trickle_params 32)" "blank_tape default_trickle" default_clock "new_config 7"]
    by (auto simp: trickle_params_def)
  have "conn_inv (taped (trickle_params 32)) (tape_inv (\<lambda>_. True)) s"
    by (rule new_reliable_inv [OF s]) (simp add: tape_inv_def)
  moreover have "link_calls s = 0"
    using new_reliable_fields(9) [OF s] by (simp add: link_calls_def blank_tape_def)
  ultimately show ?thesis
    using poll_call_budget [OF trickle_total, of 32 s "Waker 1 0" "[1, 2, 3]"] s by auto
qed

section \<open>Pending polls\<close>

text \<open>
  C10: A poll that is pending is polled again: the caller's waker was woken during the poll, or else
  every source of progress has been asked with that waker and answered \<open>Pending\<close> in the state left
  behind: the write or flush of the frame under way (there is none only where nothing is to send),
  the read of input into a buffer with room, and the deadline of a packet that waits for its
  acknowledgment.
\<close>

theorem pending_polls_registered:
  assumes "transport_total (link P) tinv" "conn_inv P tinv s"
  shows "(\<forall>buf buf' s'. poll_read P cx buf s = Some (Pending, buf', s') \<longrightarrow> wakes_again P cx s s') \<and>
    (\<forall>buf s'. poll_write P cx buf s = Some (Pending, s') \<longrightarrow> wakes_again P cx s s') \<and>
    (\<forall>s'. poll_flush P cx s = Some (Pending, s') \<longrightarrow> wakes_again P cx s s') \<and>
    (\<forall>s'. poll_progress P cx s = Some (Pending, s') \<longrightarrow> wakes_again P cx s s')"
proof -
  have ok: "reliable_link P tinv" using assms(1) by (simp add: reliable_link_def)
  show ?thesis
    using reliable_link.poll_read_wakes_again [OF ok assms(2)]
      reliable_link.poll_write_wakes_again [OF ok assms(2)]
      reliable_link.poll_flush_wakes_again [OF ok assms(2)]
      reliable_link.poll_progress_wakes_again [OF ok assms(2)]
    by blast
qed

text \<open>A step of an idle connection on a link without input\<close>

lemma example_step:
  assumes "s = set_sequences n m example_conn"
  shows "step (trickle_params 32) (Waker 2 0) (16, s) = Some (Inr Blocked, 15,
    s\<lparr>transport := default_trickle\<lparr>reads := 1, trickle_reader := Some (Waker 2 0)\<rparr>,
       rx_buf := replicate 32 0\<rparr>)"
proof -
  have "trickle_read (Waker 2 0) buf default_trickle =
      Some (Pending, buf, default_trickle\<lparr>reads := 1, trickle_reader := Some (Waker 2 0)\<rparr>)" for buf
    by (simp add: trickle_read_def default_trickle_def Let_def)
  then show ?thesis
    by (simp add: assms step_def poll_output_def select_frame_def poll_input_def poll_timer_def spend_def
        checked_sub_def slice_def trickle_params_def trickle_ops_def example_fields
        max_def less_eq_work_def set_sequences_def)
qed

lemmas example_poll = drive_def is_healthy_iff example_fields new_budget_def STEP_BUDGET_def
  drive_loop.simps failure_def finish_eq set_sequences_def

lemma example_pending:
  "\<exists>s'. poll_progress (trickle_params 32) (Waker 2 0) example_conn = Some (Pending, s')"
proof -
  have "example_conn = set_sequences 0 0 example_conn"
    by (simp add: set_sequences_def example_fields)
  from example_step [OF this] show ?thesis by (simp add: poll_progress_def example_poll)
qed

theorem pending_polls_registered_witness:
  "\<exists>s'. poll_progress (trickle_params 32) (Waker 2 0) example_conn = Some (Pending, s') \<and>
     wakes_again (trickle_params 32) (Waker 2 0) example_conn s'"
  using pending_polls_registered [OF trickle_total example_inv] example_pending by blast

section \<open>Sequence numbers\<close>

text \<open>
  C18: A write that is accepted takes as many bytes as fit a packet and the next sequence number,
  which is one of the 2^32 of the session (no wrap-around); one that is pending or fails takes none.
  A healthy connection reports \<open>SequenceExhausted\<close> only when all numbers are used and the packet
  before has been released.
\<close>

theorem write_takes_next_number:
  assumes "poll_write P cx buf s = Some (r, s')" "buf \<noteq> []"
  shows "case r of
      Ready (Inr n) \<Rightarrow> n = min (length buf) (max_payload (capacity P)) \<and>
        unat (tx_next s) < 2 ^ 32 \<and> unat (tx_next s') = unat (tx_next s) + 1
    | Ready (Inl e) \<Rightarrow> tx_next s' = tx_next s \<and>
        (health s = HealthOk \<and> e = SequenceExhausted \<longrightarrow> 2 ^ 32 \<le> unat (tx_next s) \<and> write_ready s')
    | Pending \<Rightarrow> tx_next s' = tx_next s \<and> \<not> write_ready s'"
  using poll_write_result [OF assms] unfolding write_result_def MAX_PAYLOAD_def .

text \<open>The limit of the sequence numbers: the test \<open>set_sequences\<close> is for\<close>

lemma example_exhausted:
  "\<exists>s'. poll_write (trickle_params 32) (Waker 2 0) [1] (set_sequences (2 ^ 32) 0 example_conn) =
     Some (Ready (Inl SequenceExhausted), s')"
proof -
  have "(ucast (- 1 :: u32) :: u64) < 2 ^ 32" by (simp add: unat_gt_u32_max)
  with example_step [OF refl, of "2 ^ 32" 0] show ?thesis
    by (simp add: poll_write_def queue_packet_def example_poll write_ready_def data_out_busy_def
        fail_def Let_def)
qed

theorem write_takes_next_number_witness:
  "\<exists>s'. poll_write (trickle_params 32) (Waker 2 0) [1] (set_sequences (2 ^ 32) 0 example_conn) =
     Some (Ready (Inl SequenceExhausted), s') \<and> tx_next s' = 2 ^ 32 \<and> write_ready s'"
proof -
  obtain s' where "poll_write (trickle_params 32) (Waker 2 0) [1] (set_sequences (2 ^ 32) 0 example_conn) =
     Some (Ready (Inl SequenceExhausted), s')" using example_exhausted by blast
  with write_takes_next_number [OF this] show ?thesis by (simp add: set_sequences_def example_fields)
qed

end
