(* ===== verification/Prompt_Link.thy ===== *)
theory Prompt_Link
  imports Sequence Taped
begin

text \<open>
  Connections over a prompt link: one that takes every byte offered, hands over at once whatever has
  arrived, and whose clock stands still while a poll runs. The steps of a connection on such a link,
  and what one write, one read and one flush do on it.
\<close>

section \<open>The link\<close>

text \<open>
  \<open>avail\<close> is what has arrived and has not been read, \<open>traffic\<close> a history of the link that reads and
  writes extend, \<open>time\<close> the reading of the clock.
\<close>

locale prompt_link = reliable_link P tinv
  for P :: "('t, 'c, 'e) params" and tinv :: "'t \<Rightarrow> bool" +
  fixes avail :: "'t \<Rightarrow> u8 list"
    and traffic :: "'t \<Rightarrow> 'h"
    and took wrote :: "u8 list \<Rightarrow> 'h \<Rightarrow> 'h"
    and time :: "'c \<Rightarrow> u64"
  assumes read_avail: "tinv t \<Longrightarrow> buf \<noteq> [] \<Longrightarrow> avail t \<noteq> [] \<Longrightarrow> length (avail t) \<le> length buf \<Longrightarrow>
      length buf \<le> capacity P \<Longrightarrow>
      \<exists>t'. t_poll_read (link P) cx buf t =
        Some (Ready (Inr (length (avail t))), avail t @ drop (length (avail t)) buf, t') \<and>
        avail t' = [] \<and> traffic t' = took (avail t) (traffic t)"
    and read_none: "tinv t \<Longrightarrow> avail t = [] \<Longrightarrow>
      \<exists>t'. t_poll_read (link P) cx buf t = Some (Pending, buf, t') \<and> avail t' = [] \<and>
        traffic t' = traffic t"
    and write_all: "tinv t \<Longrightarrow> buf \<noteq> [] \<Longrightarrow> length buf \<le> capacity P \<Longrightarrow>
      \<exists>t'. t_poll_write (link P) cx buf t = Some (Ready (Inr (length buf)), t') \<and>
        avail t' = avail t \<and> traffic t' = wrote buf (traffic t)"
    and flush_now: "tinv t \<Longrightarrow>
      \<exists>t'. t_poll_flush (link P) cx t = Some (Ready (Inr ()), t') \<and> avail t' = avail t \<and>
        traffic t' = traffic t"
    and clock_now: "\<exists>c'. c_now (clock P) c = (time c, c') \<and> time c' = time c"
    and clock_waits: "time c < d \<Longrightarrow>
      \<exists>c'. c_poll_deadline (clock P) cx d c = (Pending, c') \<and> time c' = time c"

text \<open>The loop, step by step\<close>

lemma drive_loop_progress:
  "step P cx bs = Some (Inr Progress, bs') \<Longrightarrow> drive_loop P cx bs = drive_loop P cx bs'"
  by (subst drive_loop.simps) simp

lemma drive_loop_blocked:
  "step P cx bs = Some (Inr Blocked, bs') \<Longrightarrow> drive_loop P cx bs = Some (Blocked, bs')"
  by (subst drive_loop.simps) simp

lemma spend_pos: "0 < b \<Longrightarrow> spend b = (True, b - 1)"
  by (simp add: spend_def checked_sub_def)

lemma max_work [simp]:
  "max Blocked w = w" "max w Blocked = w" "max Progress Progress = Progress"
  by (cases w; simp add: max_def less_eq_work_def)+

context prompt_link
begin

section \<open>Steps\<close>

lemma input_none:
  assumes "conn_inv P tinv s" "avail (transport s) = []" "0 < b"
  shows "\<exists>t. poll_input P cx (b, s) = Some (Inr Blocked, b - 1, s\<lparr>transport := t\<rparr>) \<and>
    avail t = [] \<and> traffic t = traffic (transport s)"
proof -
  have "rx_len s \<le> length (rx_buf s)"
    using conn_inv_parts(3,7) [OF assms(1)] by (simp add: buffers_inv_def input_inv_def)
  then have sl: "slice (rx_len s) (length (rx_buf s)) (rx_buf s) = Some (drop (rx_len s) (rx_buf s))"
    by (simp add: slice_def)
  obtain t where t: "t_poll_read (link P) cx (drop (rx_len s) (rx_buf s)) (transport s) =
      Some (Pending, drop (rx_len s) (rx_buf s), t)" "avail t = []"
      "traffic t = traffic (transport s)"
    using read_none [OF conn_inv_parts(2) [OF assms(1)] assms(2)] by blast
  then show ?thesis
    using assms(3) by (intro exI [of _ t]) (simp add: poll_input_def spend_pos sl)
qed

definition clock_idle :: "('t, 'c, 'e) reliable \<Rightarrow> bool" where
  "clock_idle s \<longleftrightarrow> tx s = TxWaiting \<longrightarrow> final_input s = None \<and> time (timer s) < tx_deadline s"

lemma timer_idle:
  assumes "clock_idle s"
  shows "\<exists>c. poll_timer P cx i (b, s) = Some (Inr Blocked, b, s\<lparr>timer := c\<rparr>) \<and> time c = time (timer s)"
proof (cases "tx s = TxWaiting")
  case True
  with assms obtain c where "c_poll_deadline (clock P) cx (tx_deadline s) (timer s) = (Pending, c)"
      "time c = time (timer s)" "final_input s = None"
    using clock_waits [of "timer s" "tx_deadline s" cx] by (auto simp: clock_idle_def)
  with True show ?thesis by (intro exI [of _ c]) (simp add: poll_timer_def)
next
  case False
  then show ?thesis by (intro exI [of _ "timer s"]) (simp add: poll_timer_def)
qed

lemma quiet_step:
  assumes "conn_inv P tinv s" "avail (transport s) = []" "0 < b"
    and "out s = OutIdle" "ack_pending s = None" "tx s \<noteq> TxQueued" "clock_idle s"
  shows "\<exists>t c. step P cx (b, s) = Some (Inr Blocked, b - 1, s\<lparr>transport := t, timer := c\<rparr>) \<and>
    avail t = [] \<and> traffic t = traffic (transport s) \<and> time c = time (timer s)"
proof -
  obtain t where t: "poll_input P cx (b, s) = Some (Inr Blocked, b - 1, s\<lparr>transport := t\<rparr>)"
      "avail t = []" "traffic t = traffic (transport s)"
    using input_none [OF assms(1-3)] by blast
  have "clock_idle (s\<lparr>transport := t\<rparr>)" using assms(7) by (simp add: clock_idle_def)
  from timer_idle [OF this, of cx Blocked "b - 1"] obtain c where
    "poll_timer P cx Blocked (b - 1, s\<lparr>transport := t\<rparr>) =
       Some (Inr Blocked, b - 1, s\<lparr>transport := t, timer := c\<rparr>)" "time c = time (timer s)"
    by auto
  with t assms(4-6) show ?thesis
    by (intro exI [of _ t] exI [of _ c]) (simp add: step_def poll_output_def select_frame_def)
qed

text \<open>A frame is written whole in one step, and flushed in the next.\<close>

lemma write_step:
  assumes "conn_inv P tinv s1" "select_frame s = Some (True, s1)" "out s1 = Writing fr 0"
    and "transport s1 = transport s" "avail (transport s) = []" "1 < b" "tx s1 \<noteq> TxWaiting"
    and "holds_frame (case fr of AckFrame \<Rightarrow> ack_frame s1 | DataFrame \<Rightarrow> tx_frame s1)
           (case fr of AckFrame \<Rightarrow> ack_len s1 | DataFrame \<Rightarrow> tx_len s1) p"
  shows "\<exists>t. step P cx (b, s) = Some (Inr Progress, b - 2, s1\<lparr>transport := t, out := Flushing fr\<rparr>) \<and>
    avail t = [] \<and> traffic t = wrote (packet_frame p) (traffic (transport s))"
proof -
  define n where "n = (case fr of AckFrame \<Rightarrow> ack_len s1 | DataFrame \<Rightarrow> tx_len s1)"
  define buf where "buf = (case fr of AckFrame \<Rightarrow> ack_frame s1 | DataFrame \<Rightarrow> tx_frame s1)"
  note sl = pending_slice [OF assms(1,3) n_def buf_def]
  have p: "n = length (packet_frame p)" "take n buf = packet_frame p"
    using assms(8) [folded n_def buf_def, unfolded holds_frame_def] by blast+
  have bounds: "length buf \<le> capacity P"
    using conn_inv_parts(3) [OF assms(1)] capacity_bounds(1) [of P s1]
    by (cases fr) (simp_all add: buf_def buffers_inv_def ACK_FRAME_LEN_20)
  then have le: "packet_frame p \<noteq> []" "length (packet_frame p) \<le> capacity P" using sl p by auto
  obtain t where t: "t_poll_write (link P) cx (packet_frame p) (transport s1) =
      Some (Ready (Inr (length (packet_frame p))), t)" "avail t = []"
      "traffic t = wrote (packet_frame p) (traffic (transport s))"
    using write_all [OF conn_inv_parts(2) [OF assms(1)] le] assms(4,5) by fastforce
  let ?s2 = "s1\<lparr>transport := t, out := Flushing fr\<rparr>"
  have "poll_writing P cx fr 0 s1 = Some (Inr Progress, ?s2)"
    unfolding poll_writing_def Let_def n_def [symmetric] buf_def [symmetric] sl(3)
    using t p le(1) by simp
  then have o: "poll_output P cx (b, s) = Some (Inr Progress, b - 1, ?s2)"
    using assms(2,3,6) by (simp add: poll_output_def spend_pos)
  have inv: "conn_inv P tinv ?s2" using poll_output_inv [of s cx b] o
    using poll_writing_inv [OF assms(1,3), of cx] \<open>poll_writing P cx fr 0 s1 = _\<close> by auto
  have "avail (transport ?s2) = []" "0 < b - 1" using t(2) assms(6) by simp_all
  from input_none [OF inv this, of cx] obtain t' where
    i: "poll_input P cx (b - 1, ?s2) = Some (Inr Blocked, b - 2, ?s2\<lparr>transport := t'\<rparr>)"
      "avail t' = []" "traffic t' = traffic t"
    by (auto simp: numeral_2_eq_2)
  moreover have "?s2\<lparr>transport := t'\<rparr> = s1\<lparr>transport := t', out := Flushing fr\<rparr>" by simp
  ultimately show ?thesis
    using o t(3) assms(7) by (intro exI [of _ t']) (simp add: step_def poll_timer_def)
qed

lemma flush_step:
  assumes "conn_inv P tinv s" "out s = Flushing fr" "avail (transport s) = []" "1 < b"
    and "if fr = DataFrame \<and> tx s = TxSending
         then time (timer s) < saturating_add (time (timer s)) (retransmit_timeout (config s))
         else clock_idle s"
  shows "\<exists>t c. step P cx (b, s) = Some (Inr Progress, b - 2,
      (if fr = DataFrame \<and> tx s = TxSending
       then s\<lparr>transport := t, tx := TxWaiting, final_input := None, timer := c,
         tx_deadline := saturating_add (time (timer s)) (retransmit_timeout (config s)), out := OutIdle\<rparr>
       else s\<lparr>transport := t, timer := c, out := OutIdle\<rparr>)) \<and>
    avail t = [] \<and> traffic t = traffic (transport s) \<and> time c = time (timer s)"
proof -
  obtain t where t: "t_poll_flush (link P) cx (transport s) = Some (Ready (Inr ()), t)" "avail t = []"
      "traffic t = traffic (transport s)"
    using flush_now [OF conn_inv_parts(2) [OF assms(1)]] assms(3) by fastforce
  obtain c where c: "c_now (clock P) (timer s) = (time (timer s), c)" "time c = time (timer s)"
    using clock_now by blast
  define s2 where "s2 = (if fr = DataFrame \<and> tx s = TxSending
       then s\<lparr>transport := t, tx := TxWaiting, final_input := None, timer := c,
         tx_deadline := saturating_add (time (timer s)) (retransmit_timeout (config s)), out := OutIdle\<rparr>
       else s\<lparr>transport := t, out := OutIdle\<rparr>)"
  have f: "poll_flushing P cx fr s = Some (Inr Progress, s2)"
    using t c by (simp add: poll_flushing_def s2_def Let_def)
  then have o: "poll_output P cx (b, s) = Some (Inr Progress, b - 1, s2)"
    using assms(2,4) by (simp add: poll_output_def select_frame_def spend_pos)
  have inv: "conn_inv P tinv s2" using poll_flushing_inv [OF assms(1,2), of cx] f by simp
  have "avail (transport s2) = []" "0 < b - 1" using t(2) assms(4) by (simp_all add: s2_def)
  from input_none [OF inv this] obtain t' where
    i: "poll_input P cx (b - 1, s2) = Some (Inr Blocked, b - 2, s2\<lparr>transport := t'\<rparr>)"
      "avail t' = []" "traffic t' = traffic (transport s2)"
    by (auto simp: numeral_2_eq_2)
  have "clock_idle (s2\<lparr>transport := t'\<rparr>)"
    using assms(5) c(2) by (simp add: clock_idle_def s2_def split: if_splits)
  from timer_idle [OF this, of cx Blocked "b - 2"] obtain c' where
    "poll_timer P cx Blocked (b - 2, s2\<lparr>transport := t'\<rparr>) =
       Some (Inr Blocked, b - 2, s2\<lparr>transport := t', timer := c'\<rparr>)" "time c' = time (timer s2)"
    by auto
  with o i have st: "step P cx (b, s) = Some (Inr Progress, b - 2, s2\<lparr>transport := t', timer := c'\<rparr>)"
    by (simp add: step_def)
  have "traffic t' = traffic (transport s)" "time c' = time (timer s)"
    using i(3) t(3) \<open>time c' = time (timer s2)\<close> c(2) by (simp_all add: s2_def split: if_splits)
  then show ?thesis
    using st i(2) by (intro exI [of _ t'] exI [of _ c']) (simp add: s2_def)
qed

text \<open>A frame that has arrived is read whole, and its packet processed.\<close>

lemma input_frame:
  assumes "conn_inv P tinv s" "rx_len s = 0" "\<not> rx_discarding s" "final_input s = None" "0 < b"
    and "avail (transport s) = packet_frame p" "packet_fits (capacity P) p"
    and "length (packet_frame p) \<le> capacity P"
  shows "\<exists>t sp s'. poll_input P cx (b, s) = Some (Inr Progress, b - 1, s') \<and>
    process_packet P p (s\<lparr>transport := t\<rparr>) = Some sp \<and> rx_core s' = rx_core sp \<and>
    rx_len s' = 0 \<and> \<not> rx_discarding s' \<and> avail t = [] \<and> traffic t = took (packet_frame p) (traffic (transport s)) \<and>
    conn_inv P tinv s'"
proof -
  let ?f = "packet_frame p"
  have len: "length (rx_buf s) = capacity P"
    using conn_inv_parts(3) [OF assms(1)] by (simp add: buffers_inv_def)
  have pos: "?f \<noteq> []" by (simp add: packet_frame_def)
  then have buf: "rx_buf s \<noteq> []" "length (avail (transport s)) \<le> length (rx_buf s)"
    using len assms(6,8) by auto
  obtain t where t: "t_poll_read (link P) cx (rx_buf s) (transport s) =
      Some (Ready (Inr (length ?f)), ?f @ drop (length ?f) (rx_buf s), t)" "avail t = []"
      "traffic t = took (packet_frame p) (traffic (transport s))"
    using read_avail [OF conn_inv_parts(2) [OF assms(1)] buf(1) _ buf(2) _, of cx] assms(6) pos len by auto
  let ?s0 = "s\<lparr>transport := t\<rparr>"
  have "tinv t" using read_keeps [OF conn_inv_parts(2) [OF assms(1)] t(1)] by simp
  then have inv0: "conn_inv P tinv ?s0" by (rule conn_inv_transport [OF assms(1)])
  have fits: "rx_len ?s0 + length ?f \<le> capacity P" using assms(2,8) by simp
  from process_received [OF inv0 fits] obtain s' where
    s': "process_input P (received ?f ?s0) = Some s'" "conn_inv P tinv s'"
      "rx_bytes P ?f (rx_view ?s0) = Some (rx_view s')" by auto
  have v: "rx_view ?s0 = ([], False, rx_core ?s0)" using assms(2,3) by (simp add: rx_view_def)
  have "rx_flush P (rx_view ?s0) = Some ([], False, rx_core ?s0)"
    by (simp add: v rx_flush_def rx_byte_def)
  from rx_bytes_packet [OF _ _ this, of p] assms(7) s'(3)
  have "map_option (\<lambda>s. ([], False, s)) (process_packet P p (rx_core ?s0)) = Some (rx_view s')"
    by (simp add: packet_fits_def)
  then obtain sp where sp: "process_packet P p ?s0 = Some sp" "rx_view s' = ([], False, rx_core sp)"
    by (auto simp: process_packet_core)
  have "length (rx_buf s') = capacity P" "0 < capacity P"
    using conn_inv_parts(3) [OF s'(2)] capacity_bounds(1) [of P s'] by (simp_all add: buffers_inv_def)
  then have rest: "rx_len s' = 0" "\<not> rx_discarding s'" "rx_core s' = rx_core sp"
    using sp(2) by (auto simp: rx_view_def)
  have eq: "?s0\<lparr>rx_buf := ?f @ drop (length ?f) (rx_buf s), rx_len := length ?f, final_input := None\<rparr> =
      received ?f ?s0"
    using assms(2,4) by (intro reliable.equality) (simp_all add: received_def)
  have "slice (rx_len s) (length (rx_buf s)) (rx_buf s) = Some (rx_buf s)"
    using assms(2) by (simp add: slice_def)
  then have "poll_input P cx (b, s) = Some (Inr Progress, b - 1, s')"
    using t(1) assms(2,4,5) pos s'(1) eq buf(2) assms(6)
    by (simp add: poll_input_def spend_pos Let_def)
  then show ?thesis using sp(1) rest t(2,3) s'(2) by blast
qed

lemma receive_step:
  assumes "conn_inv P tinv s" "rx_len s = 0" "\<not> rx_discarding s" "final_input s = None" "0 < b"
    and "avail (transport s) = packet_frame p" "packet_fits (capacity P) p"
    and "length (packet_frame p) \<le> capacity P"
    and "out s = OutIdle" "ack_pending s = None" "tx s \<noteq> TxQueued"
    and "\<And>t sp. process_packet P p (s\<lparr>transport := t\<rparr>) = Some sp \<Longrightarrow> tx sp \<noteq> TxWaiting"
  shows "\<exists>t sp s'. step P cx (b, s) = Some (Inr Progress, b - 1, s') \<and>
    process_packet P p (s\<lparr>transport := t\<rparr>) = Some sp \<and> rx_core s' = rx_core sp \<and>
    rx_len s' = 0 \<and> \<not> rx_discarding s' \<and> avail t = [] \<and> traffic t = took (packet_frame p) (traffic (transport s)) \<and>
    conn_inv P tinv s'"
proof -
  obtain t sp s' where i: "poll_input P cx (b, s) = Some (Inr Progress, b - 1, s')"
      "process_packet P p (s\<lparr>transport := t\<rparr>) = Some sp" "rx_core s' = rx_core sp"
      "rx_len s' = 0" "\<not> rx_discarding s'" "avail t = []" "traffic t = took (packet_frame p) (traffic (transport s))"
      "conn_inv P tinv s'"
    using input_frame [OF assms(1-8)] by blast
  have "tx s' = tx sp" using arg_cong [OF i(3), of tx] by (simp add: rx_core_def)
  then have "tx s' \<noteq> TxWaiting" using assms(12) [OF i(2)] by simp
  then have "step P cx (b, s) = Some (Inr Progress, b - 1, s')"
    using i(1) assms(9-11) by (simp add: step_def poll_output_def select_frame_def poll_timer_def)
  with i show ?thesis by blast
qed

end

section \<open>Connections at rest\<close>

text \<open>Nothing is under way in either direction; or only an acknowledgment is awaited.\<close>

definition at_rest :: "('t, 'c, 'e) reliable \<Rightarrow> bool" where
  "at_rest s \<longleftrightarrow>
     health s = HealthOk \<and> tx s = TxIdle \<and> out s = OutIdle \<and> ack_pending s = None \<and>
     rx_len s = 0 \<and> \<not> rx_discarding s \<and> final_input s = None"

definition awaits_ack :: "('t, 'c, 'e) reliable \<Rightarrow> bool" where
  "awaits_ack s \<longleftrightarrow>
     health s = HealthOk \<and> tx s = TxWaiting \<and> out s = OutIdle \<and> ack_pending s = None \<and>
     rx_len s = 0 \<and> \<not> rx_discarding s \<and> final_input s = None"

lemma at_rest_set_waiters [simp]:
  "at_rest (set_waiters v new s) = at_rest s" "config (set_waiters v new s) = config s"
  "rx_next (set_waiters v new s) = rx_next s"
  by (simp_all add: at_rest_def set_waiters_def)

lemma conn_inv_set_waiters: "conn_inv P tinv s \<Longrightarrow> conn_inv P tinv (set_waiters v new s)"
  by (simp add: set_waiters_def conn_inv_waiters conn_inv_woken)

lemma queued_frame:
  assumes "conn_inv P tinv s" "payload \<noteq> []" "length payload \<le> MAX_PAYLOAD P"
    and "encode_data (session (config s)) (ucast (tx_next s)) payload (scratch s) (tx_frame s) = Some enc"
  shows "holds_frame (tx_frame (queued enc s)) (tx_len (queued enc s))
    (Data (session (config s)) (ucast (tx_next s)) payload)"
proof -
  let ?p = "Data (session (config s)) (ucast (tx_next s)) payload"
  have fits: "length (packet_frame ?p) \<le> capacity P" "OVERHEAD + length payload \<le> capacity P"
    using assms(2,3) by (auto intro!: packet_frame_data_fits simp: MAX_PAYLOAD_def)
  have len: "length (tx_frame s) = capacity P" "length (scratch s) = capacity P"
    using assms(1) by (simp_all add: conn_inv_def inv_defs)
  show ?thesis
    using assms(4) fits len by (cases enc) (auto simp: encode_data_eq holds_frame_def queued_def)
qed

context prompt_link
begin

lemma drive_quiet:
  assumes "conn_inv P tinv s" "health s = HealthOk" "avail (transport s) = []" "0 < b"
    and "out s = OutIdle" "ack_pending s = None" "tx s \<noteq> TxQueued" "clock_idle s"
  shows "\<exists>t c. drive_loop P cx (b, s) = Some (Blocked, b - 1, s\<lparr>transport := t, timer := c\<rparr>) \<and>
    avail t = [] \<and> traffic t = traffic (transport s) \<and> time c = time (timer s) \<and>
    conn_inv P tinv (s\<lparr>transport := t, timer := c\<rparr>)"
  using quiet_step [OF assms(1,3-8), of cx] drive_loop_blocked step_keeps_inv [OF _ assms(1)] by blast

text \<open>A packet under way goes over the link, and the connection waits for its acknowledgment.\<close>

lemma drive_sends:
  assumes "conn_inv P tinv s" "health s = HealthOk" "avail (transport s) = []" "4 < b"
    and "out s = OutIdle" "ack_pending s = None" "tx s = TxQueued"
    and "time (timer s) < saturating_add (time (timer s)) (retransmit_timeout (config s))"
    and "holds_frame (tx_frame s) (tx_len s) p"
  shows "\<exists>t c. drive_loop P cx (b, s) = Some (Blocked, b - 5,
      s\<lparr>transport := t, timer := c, tx := TxWaiting, final_input := None, out := OutIdle,
        tx_deadline := saturating_add (time (timer s)) (retransmit_timeout (config s))\<rparr>) \<and>
    avail t = [] \<and> traffic t = wrote (packet_frame p) (traffic (transport s)) \<and> time c = time (timer s)"
proof -
  let ?s1 = "s\<lparr>tx := TxSending, out := Writing DataFrame 0\<rparr>"
  have sel: "select_frame s = Some (True, ?s1)" using assms(5-7) by (simp add: select_frame_def)
  have inv1: "conn_inv P tinv ?s1" using select_frame_inv [OF assms(1)] sel by auto
  obtain t2 where s2: "step P cx (b, s) = Some (Inr Progress, b - 2, ?s1\<lparr>transport := t2, out := Flushing DataFrame\<rparr>)"
      "avail t2 = []" "traffic t2 = wrote (packet_frame p) (traffic (transport s))"
    using write_step [OF inv1 sel, of DataFrame b p cx] assms(3,4,9) by auto
  let ?s2 = "?s1\<lparr>transport := t2, out := Flushing DataFrame\<rparr>"
  have inv2: "conn_inv P tinv ?s2" by (rule step_keeps_inv [OF s2(1) assms(1)])
  let ?d = "saturating_add (time (timer s)) (retransmit_timeout (config s))"
  have b: "1 < b - 2" "0 < b - 4" using assms(4) by linarith+
  from flush_step [OF inv2 _ _ b(1), of DataFrame cx] s2(2) assms(8) obtain t3 c3 where s3:
    "step P cx (b - 2, ?s2) = Some (Inr Progress, b - 4, ?s2\<lparr>transport := t3, tx := TxWaiting,
       final_input := None, timer := c3, tx_deadline := ?d, out := OutIdle\<rparr>)"
    "avail t3 = []" "traffic t3 = traffic t2" "time c3 = time (timer s)"
    by auto
  let ?s3 = "?s2\<lparr>transport := t3, tx := TxWaiting, final_input := None, timer := c3, tx_deadline := ?d, out := OutIdle\<rparr>"
  have inv3: "conn_inv P tinv ?s3" by (rule step_keeps_inv [OF s3(1) inv2])
  from drive_quiet [OF inv3 _ _ b(2), of cx] s3(2,4) assms(2,6,8) obtain t4 c4 where s4:
    "drive_loop P cx (b - 4, ?s3) = Some (Blocked, b - 5, ?s3\<lparr>transport := t4, timer := c4\<rparr>)"
    "avail t4 = []" "traffic t4 = traffic t3" "time c4 = time c3"
    by (auto simp: clock_idle_def)
  have "drive_loop P cx (b, s) = Some (Blocked, b - 5, ?s3\<lparr>transport := t4, timer := c4\<rparr>)"
    using drive_loop_progress [OF s2(1)] drive_loop_progress [OF s3(1)] s4(1) by simp
  moreover have "?s3\<lparr>transport := t4, timer := c4\<rparr> = s\<lparr>transport := t4, timer := c4, tx := TxWaiting,
      final_input := None, out := OutIdle, tx_deadline := ?d\<rparr>" by simp
  ultimately show ?thesis
    using s2(3) s3(3,4) s4(2-4) by (intro exI [of _ t4] exI [of _ c4]) simp
qed

text \<open>A write that finds no packet under way accepts one, and drives it.\<close>

lemma queue_packet_accepts:
  assumes "conn_inv P tinv s" "buf \<noteq> []" "drive P cx (16, s) = Some (Blocked, b, s1)" "conn_inv P tinv s1"
    and "health s1 = HealthOk" "tx s1 = TxIdle" "out s1 = OutIdle" "unat (tx_next s1) < 2 ^ 32"
    and "payload = take (min (length buf) (MAX_PAYLOAD P)) buf"
  shows "\<exists>enc w b' q. queue_packet P cx buf s = Some (Ready (Inr (length payload)), q) \<and>
    drive P cx (b, queued enc s1) = Some (w, b', q) \<and> conn_inv P tinv (queued enc s1) \<and> conn_inv P tinv q \<and>
    holds_frame (tx_frame (queued enc s1)) (tx_len (queued enc s1))
      (Data (session (config s1)) (ucast (tx_next s1)) payload)"
proof -
  have pl: "payload \<noteq> []" "length payload \<le> MAX_PAYLOAD P" "length payload = min (length buf) (MAX_PAYLOAD P)"
    using assms(2,9) conn_inv_parts(3) [OF assms(1)] by (auto simp: buffers_inv_def)
  have free: "write_ready s1" "failure s1 = (None, s1)" "\<not> ucast (- 1 :: u32) < tx_next s1"
    using assms(5-8) unat_gt_u32_max [of "tx_next s1"]
    by (simp_all add: write_ready_def data_out_busy_def failure_def)
  obtain enc where enc: "encode_data (session (config s1)) (ucast (tx_next s1)) payload (scratch s1) (tx_frame s1) = Some enc"
      "conn_inv P tinv (queued enc s1)"
    using queue_data [OF assms(4) free(1,3) pl(1,2)] by auto
  obtain r q where q: "queue_packet P cx buf s = Some (r, q)" "conn_inv P tinv q"
    using queue_packet_inv [OF assms(1,2)] by blast
  have d: "drive P cx (new_budget, s) = Some (Blocked, b, s1)"
    using assms(3) by (simp add: new_budget_def STEP_BUDGET_def)
  from q(1) have "r = Ready (Inr (length payload)) \<and> (\<exists>w' b'. drive P cx (b, queued enc s1) = Some (w', b', q))"
  proof (cases rule: queue_packet_cases)
    case (error w b s1' e)
    with d free(2,3) show ?thesis by (auto simp: seq_check_def)
  next
    case (busy w b)
    with d free(1) show ?thesis by auto
  next
    case (accept w b' s1' enc')
    with d enc(1) show ?thesis by (auto simp: pl(3) simp flip: assms(9))
  qed
  with q enc(2) queued_frame [OF assms(4) pl(1,2) enc(1)] show ?thesis by blast
qed

text \<open>One write\<close>

lemma write_prompt:
  assumes "conn_inv P tinv s" "at_rest s" "avail (transport s) = []" "buf \<noteq> []"
    and "unat (tx_next s) < 2 ^ 32"
    and "time (timer s) < saturating_add (time (timer s)) (retransmit_timeout (config s))"
    and "payload = take (min (length buf) (MAX_PAYLOAD P)) buf"
  shows "\<exists>s'. poll_write P cx buf s = Some (Ready (Inr (length payload)), s') \<and>
    conn_inv P tinv s' \<and> awaits_ack s' \<and> avail (transport s') = [] \<and>
    traffic (transport s') =
      wrote (packet_frame (Data (session (config s)) (ucast (tx_next s)) payload)) (traffic (transport s)) \<and>
    config s' = config s \<and> tx_next s' = tx_next s + 1 \<and> time (timer s') = time (timer s) \<and>
    tx_deadline s' = saturating_add (time (timer s)) (retransmit_timeout (config s)) \<and>
    tx_retries s' = 0 \<and> holds_frame (tx_frame s') (tx_len s')
      (Data (session (config s)) (ucast (tx_next s)) payload) \<and>
    rx_next s' = rx_next s \<and> rx_start s' = rx_start s \<and> rx_end s' = rx_end s"
proof -
  note rest = assms(2) [unfolded at_rest_def]
  have idle: "clock_idle s" using rest by (simp add: clock_idle_def)
  let ?p = "Data (session (config s)) (ucast (tx_next s)) payload"
    and ?d = "saturating_add (time (timer s)) (retransmit_timeout (config s))"
  obtain t c where d: "drive P cx (16, s) = Some (Blocked, 15, s\<lparr>transport := t, timer := c\<rparr>)"
      "avail t = []" "traffic t = traffic (transport s)" "time c = time (timer s)"
      "conn_inv P tinv (s\<lparr>transport := t, timer := c\<rparr>)"
    using drive_quiet [OF assms(1) _ assms(3) _ _ _ _ idle, of 16 cx] rest
    by (auto simp: drive_def is_healthy_iff)
  from queue_packet_accepts [OF assms(1,4) d(1,5) _ _ _ _ assms(7)] rest assms(5) obtain enc w b' q where
    q: "queue_packet P cx buf s = Some (Ready (Inr (length payload)), q)" "conn_inv P tinv q"
      "drive P cx (15, queued enc (s\<lparr>transport := t, timer := c\<rparr>)) = Some (w, b', q)"
      "conn_inv P tinv (queued enc (s\<lparr>transport := t, timer := c\<rparr>))"
      "holds_frame (tx_frame (queued enc (s\<lparr>transport := t, timer := c\<rparr>)))
        (tx_len (queued enc (s\<lparr>transport := t, timer := c\<rparr>))) ?p"
    by auto
  obtain n scr fr where e: "enc = (n, scr, fr)" by (cases enc)
  let ?s2 = "queued enc (s\<lparr>transport := t, timer := c\<rparr>)"
  from drive_sends [OF q(4) _ _ _ _ _ _ _ q(5), of 15 cx] rest d(2-4) assms(6) obtain t' c' where
    "drive_loop P cx (15, ?s2) = Some (Blocked, 10, ?s2\<lparr>transport := t', timer := c', tx := TxWaiting,
       final_input := None, out := OutIdle, tx_deadline := ?d\<rparr>)"
    and sent': "avail t' = []" "traffic t' = wrote (packet_frame ?p) (traffic (transport s))" "time c' = time (timer s)"
    by (auto simp: queued_def e)
  then have q': "q = ?s2\<lparr>transport := t', timer := c', tx := TxWaiting, final_input := None,
      out := OutIdle, tx_deadline := ?d\<rparr>"
    using q(3) rest by (simp add: drive_def is_healthy_iff queued_def e)
  let ?r = "Ready (Inr (length payload)) :: ('e connection_error + nat) poll"
  have "poll_write P cx buf s = Some (?r, snd (finish OpWrite cx ?r q))"
    using assms(4) q(1) by (simp add: poll_write_def) (simp add: finish_eq)
  then show ?thesis
    using finish_inv [OF q(2), of OpWrite cx ?r] rest sent' assms(6) q(5)
    by (intro exI [of _ "snd (finish OpWrite cx ?r q)"])
      (simp add: finish_eq awaits_ack_def q' queued_def e set_waiters_def)
qed

text \<open>An acknowledgment goes over the link.\<close>

lemma drive_acks:
  assumes "conn_inv P tinv s" "health s = HealthOk" "avail (transport s) = []" "4 < b"
    and "out s = OutIdle" "ack_pending s = Some q" "tx s = TxIdle"
  shows "\<exists>t c n fr. drive_loop P cx (b, s) = Some (Blocked, b - 5,
      s\<lparr>transport := t, timer := c, ack_pending := None, ack_len := n, ack_frame := fr, out := OutIdle\<rparr>) \<and>
    avail t = [] \<and> traffic t = wrote (packet_frame (Ack (session (config s)) q)) (traffic (transport s)) \<and>
    time c = time (timer s)"
proof -
  let ?p = "Ack (session (config s)) q"
  have "length (packet_frame ?p) \<le> length (ack_frame s)"
    using conn_inv_parts(3) [OF assms(1)] ack_frame_fits by (simp add: buffers_inv_def)
  then obtain fr where enc: "encode_ack (session (config s)) q (ack_frame s) = Some (length (packet_frame ?p), fr)"
      "holds_frame fr (length (packet_frame ?p)) ?p"
    by (simp add: encode_ack_eq holds_frame_def)
  let ?n = "length (packet_frame ?p)"
  let ?s1 = "s\<lparr>ack_pending := None, ack_len := ?n, ack_frame := fr, out := Writing AckFrame 0\<rparr>"
  have sel: "select_frame s = Some (True, ?s1)" using assms(5,6) enc(1) by (simp add: select_frame_def)
  have inv1: "conn_inv P tinv ?s1" using select_frame_inv [OF assms(1)] sel by auto
  obtain t2 where s2: "step P cx (b, s) = Some (Inr Progress, b - 2, ?s1\<lparr>transport := t2, out := Flushing AckFrame\<rparr>)"
      "avail t2 = []" "traffic t2 = wrote (packet_frame ?p) (traffic (transport s))"
    using write_step [OF inv1 sel, of AckFrame b ?p cx] assms(3,4,7) enc(2) by auto
  let ?s2 = "?s1\<lparr>transport := t2, out := Flushing AckFrame\<rparr>"
  have inv2: "conn_inv P tinv ?s2" by (rule step_keeps_inv [OF s2(1) assms(1)])
  have b: "1 < b - 2" "0 < b - 4" using assms(4) by linarith+
  from flush_step [OF inv2 _ _ b(1), of AckFrame cx] s2(2) assms(7) obtain t3 c3 where s3:
    "step P cx (b - 2, ?s2) = Some (Inr Progress, b - 4, ?s2\<lparr>transport := t3, timer := c3, out := OutIdle\<rparr>)"
    "avail t3 = []" "traffic t3 = traffic t2" "time c3 = time (timer s)"
    by (auto simp: clock_idle_def)
  let ?s3 = "?s2\<lparr>transport := t3, timer := c3, out := OutIdle\<rparr>"
  have inv3: "conn_inv P tinv ?s3" by (rule step_keeps_inv [OF s3(1) inv2])
  from drive_quiet [OF inv3 _ _ b(2), of cx] s3(2) assms(2,7) obtain t4 c4 where s4:
    "drive_loop P cx (b - 4, ?s3) = Some (Blocked, b - 5, ?s3\<lparr>transport := t4, timer := c4\<rparr>)"
    "avail t4 = []" "traffic t4 = traffic t3" "time c4 = time c3"
    by (auto simp: clock_idle_def)
  have "drive_loop P cx (b, s) = Some (Blocked, b - 5, ?s3\<lparr>transport := t4, timer := c4\<rparr>)"
    using drive_loop_progress [OF s2(1)] drive_loop_progress [OF s3(1)] s4(1) by simp
  moreover have "?s3\<lparr>transport := t4, timer := c4\<rparr> = s\<lparr>transport := t4, timer := c4, ack_pending := None,
      ack_len := ?n, ack_frame := fr, out := OutIdle\<rparr>" by simp
  ultimately show ?thesis
    using s2(3) s3(3,4) s4(2-4) by (intro exI [of _ t4] exI [of _ c4] exI [of _ ?n] exI [of _ fr]) simp
qed

text \<open>The fields of the connection but its input buffers\<close>

lemma rx_core_fields:
  assumes "rx_core s = rx_core s'"
  shows "health s = health s'" "tx s = tx s'" "out s = out s'" "ack_pending s = ack_pending s'"
    "config s = config s'" "rx_start s = rx_start s'" "rx_end s = rx_end s'" "rx_next s = rx_next s'"
    "rx_payload s = rx_payload s'" "transport s = transport s'" "timer s = timer s'"
    "tx_next s = tx_next s'" "final_input s = final_input s'"
  using arg_cong [OF assms, of health] arg_cong [OF assms, of tx] arg_cong [OF assms, of out]
    arg_cong [OF assms, of ack_pending] arg_cong [OF assms, of config] arg_cong [OF assms, of
    rx_start] arg_cong [OF assms, of rx_end] arg_cong [OF assms, of rx_next] arg_cong [OF assms, of
    rx_payload] arg_cong [OF assms, of transport] arg_cong [OF assms, of timer] arg_cong [OF assms,
    of tx_next] arg_cong [OF assms, of final_input]
  by (simp_all add: rx_core_def)

text \<open>The receiver: the payload is retained and acknowledged.\<close>

lemma drive_answers:
  fixes q :: u32
  assumes "conn_inv P tinv s" "at_rest s" "p = Data (session (config s)) q payload"
    and "payload \<noteq> []" "length payload \<le> MAX_PAYLOAD P" "avail (transport s) = packet_frame p"
    and "\<And>t. process_packet P p (s\<lparr>transport := t\<rparr>) = Some (s\<lparr>transport := t, rx_payload := buf,
      rx_start := i, rx_end := j, rx_next := next, ack_pending := Some q\<rparr>)"
  shows "\<exists>s'. drive P cx (16, s) = Some (Blocked, 10, s') \<and> conn_inv P tinv s' \<and> at_rest s' \<and>
    avail (transport s') = [] \<and>
    traffic (transport s') =
      wrote (packet_frame (Ack (session (config s)) q)) (took (packet_frame p) (traffic (transport s))) \<and>
    config s' = config s \<and> tx_next s' = tx_next s \<and> rx_next s' = next \<and>
    rx_start s' = i \<and> rx_end s' = j \<and> rx_payload s' = buf \<and> time (timer s') = time (timer s)"
proof -
  note rest = assms(2) [unfolded at_rest_def]
  have fits: "packet_fits (capacity P) p" "length (packet_frame p) \<le> capacity P"
    using assms(3-5) packet_frame_data_fits(1) [of payload "capacity P"]
    by (auto simp: packet_fits_def valid_packet_def MAX_PAYLOAD_def le_SucI)
  obtain t sp s1 where s1: "step P cx (16, s) = Some (Inr Progress, 15, s1)"
      "process_packet P p (s\<lparr>transport := t\<rparr>) = Some sp" "rx_core s1 = rx_core sp"
      "rx_len s1 = 0" "\<not> rx_discarding s1" "avail t = []" "traffic t = took (packet_frame p) (traffic (transport s))"
      "conn_inv P tinv s1"
    using receive_step [OF assms(1) _ _ _ _ assms(6) fits, of 16 cx] rest assms(7) by auto
  note f = rx_core_fields [OF s1(3)]
  have sp: "sp = s\<lparr>transport := t, rx_payload := buf, rx_start := i, rx_end := j, rx_next := next,
      ack_pending := Some q\<rparr>"
    using s1(2) assms(7) by simp
  from drive_acks [OF s1(8), of 15 q cx] f s1(6,7) rest obtain t' c' n fr where d:
    "drive_loop P cx (15, s1) = Some (Blocked, 10,
      s1\<lparr>transport := t', timer := c', ack_pending := None, ack_len := n, ack_frame := fr, out := OutIdle\<rparr>)"
    "avail t' = []" "traffic t' =
      wrote (packet_frame (Ack (session (config s)) q)) (took (packet_frame p) (traffic (transport s)))"
    "time c' = time (timer s)"
    by (auto simp: sp)
  let ?s' = "s1\<lparr>transport := t', timer := c', ack_pending := None, ack_len := n, ack_frame := fr, out := OutIdle\<rparr>"
  have dr: "drive P cx (16, s) = Some (Blocked, 10, ?s')"
    using drive_loop_progress [OF s1(1)] d(1) rest by (simp add: drive_def is_healthy_iff)
  have inv': "conn_inv P tinv ?s'" using drive_inv [OF assms(1), of cx 16] dr by simp
  have fields: "at_rest ?s'" "config ?s' = config s" "tx_next ?s' = tx_next s" "rx_next ?s' = next"
      "rx_start ?s' = i" "rx_end ?s' = j" "rx_payload ?s' = buf"
    using f rest s1(4,5) by (simp_all add: at_rest_def sp)
  show ?thesis
    using dr inv' fields d(2-4) by (intro exI [of _ ?s'] conjI) simp_all
qed

lemma drive_receives:
  assumes "conn_inv P tinv s" "at_rest s" "rx_start s = rx_end s"
    and "payload \<noteq> []" "length payload \<le> MAX_PAYLOAD P" "ucast q = rx_next s"
    and "avail (transport s) = packet_frame (Data (session (config s)) q payload)"
  shows "\<exists>s'. drive P cx (16, s) = Some (Blocked, 10, s') \<and> conn_inv P tinv s' \<and> at_rest s' \<and>
    avail (transport s') = [] \<and>
    traffic (transport s') = wrote (packet_frame (Ack (session (config s)) q)) (took (packet_frame (Data (session (config s)) q payload)) (traffic (transport s))) \<and>
    config s' = config s \<and> tx_next s' = tx_next s \<and> rx_next s' = rx_next s + 1 \<and>
    rx_start s' = 0 \<and> rx_end s' = length payload \<and> take (length payload) (rx_payload s') = payload \<and>
    time (timer s') = time (timer s)"
proof -
  have "process_packet P (Data (session (config s)) q payload) (s\<lparr>transport := t\<rparr>) =
      Some (s\<lparr>transport := t, rx_payload := payload @ drop (length payload) (rx_payload s),
        rx_start := 0, rx_end := length payload, rx_next := rx_next s + 1, ack_pending := Some q\<rparr>)" for t
    using assms(3,5) seq_eq_u64 [OF assms(6)] by (simp add: process_packet_any [OF assms(1)])
  from drive_answers [OF assms(1,2) refl assms(4,5,7) this, of cx] show ?thesis by force
qed

text \<open>A packet retained before is acknowledged again, and nothing else changes.\<close>

lemma drive_repeats:
  assumes "conn_inv P tinv s" "at_rest s"
    and "payload \<noteq> []" "length payload \<le> MAX_PAYLOAD P" "unat (rx_next s) = unat q + 1"
    and "avail (transport s) = packet_frame (Data (session (config s)) q payload)"
  shows "\<exists>s'. drive P cx (16, s) = Some (Blocked, 10, s') \<and> conn_inv P tinv s' \<and> at_rest s' \<and>
    avail (transport s') = [] \<and>
    traffic (transport s') = wrote (packet_frame (Ack (session (config s)) q)) (took (packet_frame (Data (session (config s)) q payload)) (traffic (transport s))) \<and>
    config s' = config s \<and> tx_next s' = tx_next s \<and> rx_next s' = rx_next s \<and>
    rx_start s' = rx_start s \<and> rx_end s' = rx_end s \<and> rx_payload s' = rx_payload s"
proof -
  note rest = assms(2) [unfolded at_rest_def]
  have "process_packet P (Data (session (config s)) q payload) (s\<lparr>transport := t\<rparr>) =
      Some (s\<lparr>transport := t, rx_payload := rx_payload s, rx_start := rx_start s, rx_end := rx_end s,
        rx_next := rx_next s, ack_pending := Some q\<rparr>)" for t
    using assms(4,5) rest by (simp add: process_packet_any [OF assms(1)])
  from drive_answers [OF assms(1,2) refl assms(3,4,6) this, of cx] show ?thesis by blast
qed

lemma read_prompt:
  assumes "conn_inv P tinv s" "at_rest s" "rx_start s = rx_end s" "buf \<noteq> []"
    and "payload \<noteq> []" "length payload \<le> MAX_PAYLOAD P" "ucast q = rx_next s"
    and "avail (transport s) = packet_frame (Data (session (config s)) q payload)"
    and "m = min (length buf) (length payload)"
  shows "\<exists>s'. poll_read P cx buf s = Some (Ready (Inr m), take m payload @ drop m buf, s') \<and>
    conn_inv P tinv s' \<and> at_rest s' \<and> avail (transport s') = [] \<and>
    traffic (transport s') = wrote (packet_frame (Ack (session (config s)) q)) (took (packet_frame (Data (session (config s)) q payload)) (traffic (transport s))) \<and>
    config s' = config s \<and> tx_next s' = tx_next s \<and> rx_next s' = rx_next s + 1 \<and>
    rx_start s' = m \<and> rx_end s' = length payload \<and> take (length payload) (rx_payload s') = payload \<and>
    time (timer s') = time (timer s)"
proof -
  from drive_receives [OF assms(1-3,5-8)] obtain s1 where
    d: "drive P cx (16, s) = Some (Blocked, 10, s1)" "conn_inv P tinv s1" "at_rest s1"
      "avail (transport s1) = []"
      "traffic (transport s1) = wrote (packet_frame (Ack (session (config s)) q)) (took (packet_frame (Data (session (config s)) q payload)) (traffic (transport s)))"
      "config s1 = config s" "tx_next s1 = tx_next s" "rx_next s1 = rx_next s + 1"
      "rx_start s1 = 0" "rx_end s1 = length payload" "take (length payload) (rx_payload s1) = payload"
      "time (timer s1) = time (timer s)"
    by blast
  have d': "drive P cx (new_budget, s) = Some (Blocked, 10, s1)"
    using d(1) by (simp add: new_budget_def STEP_BUDGET_def)
  have m: "m = min (length buf) (rx_end s1 - rx_start s1)" "rx_start s1 < rx_end s1"
    using assms(5,9) d(9,10) by auto
  have "take m (rx_payload s1) = take m (take (length payload) (rx_payload s1))"
    using assms(9) by (simp add: min_def)
  then have bytes: "take m (drop (rx_start s1) (rx_payload s1)) = take m payload"
    using d(9,11) by simp
  let ?p = "Ready (Inr m) :: ('e connection_error + nat) poll"
  let ?s' = "snd (finish OpRead cx ?p (s1\<lparr>rx_start := rx_start s1 + m\<rparr>))"
  have pr: "poll_read P cx buf s = Some (Ready (Inr m), take m payload @ drop m buf, ?s')"
    using poll_read_data [OF d' m(2) conn_inv_parts(3,6) [OF d(2)] assms(4) m(1)] bytes by simp
  have "conn_inv P tinv ?s'" using poll_read_inv [OF assms(1), of cx buf] pr by auto
  moreover have "at_rest ?s'" "transport ?s' = transport s1" "config ?s' = config s1"
      "tx_next ?s' = tx_next s1" "rx_next ?s' = rx_next s1" "rx_start ?s' = m" "rx_end ?s' = rx_end s1"
      "rx_payload ?s' = rx_payload s1" "timer ?s' = timer s1"
    using d(3,9) by (simp_all add: finish_eq set_waiters_def at_rest_def)
  ultimately show ?thesis using pr d(4-8,10-12) by (intro exI [of _ ?s']) simp
qed

text \<open>The acknowledgment releases the packet.\<close>

lemma drive_released:
  assumes "conn_inv P tinv s" "awaits_ack s" "unat q + 1 = unat (tx_next s)"
    and "avail (transport s) = packet_frame (Ack (session (config s)) q)"
  shows "\<exists>s'. drive P cx (16, s) = Some (Blocked, 14, s') \<and> conn_inv P tinv s' \<and> at_rest s' \<and>
    avail (transport s') = [] \<and> traffic (transport s') = took (packet_frame (Ack (session (config s)) q)) (traffic (transport s)) \<and>
    config s' = config s \<and> tx_next s' = tx_next s \<and> rx_next s' = rx_next s \<and>
    rx_start s' = rx_start s \<and> rx_end s' = rx_end s \<and> time (timer s') = time (timer s)"
proof -
  let ?p = "Ack (session (config s)) q"
  note wait = assms(2) [unfolded awaits_ack_def]
  have fits: "packet_fits (capacity P) ?p" "length (packet_frame ?p) \<le> capacity P"
    using ack_frame_fits [of "session (config s)" q] capacity_bounds(1) [OF conn_inv_parts(3) [OF assms(1)]]
    by (simp_all add: packet_fits_def valid_packet_def ACK_FRAME_LEN_20)
  have proc: "process_packet P ?p (s\<lparr>transport := t\<rparr>) =
      Some (s\<lparr>transport := t, tx := TxIdle, tx_retries := 0, final_input := None\<rparr>)" for t
    using wait assms(3) by (simp add: process_packet_any [OF assms(1)])
  obtain t sp s1 where s1: "step P cx (16, s) = Some (Inr Progress, 15, s1)"
      "process_packet P ?p (s\<lparr>transport := t\<rparr>) = Some sp" "rx_core s1 = rx_core sp"
      "rx_len s1 = 0" "\<not> rx_discarding s1" "avail t = []" "traffic t = took (packet_frame ?p) (traffic (transport s))"
      "conn_inv P tinv s1"
    using receive_step [OF assms(1) _ _ _ _ assms(4) fits, of 16 cx] wait proc by auto
  note f = rx_core_fields [OF s1(3)]
  have sp: "sp = s\<lparr>transport := t, tx := TxIdle, tx_retries := 0, final_input := None\<rparr>"
    using s1(2) proc by simp
  from drive_quiet [OF s1(8), of 15 cx] f s1(6,7) wait obtain t' c' where d:
    "drive_loop P cx (15, s1) = Some (Blocked, 14, s1\<lparr>transport := t', timer := c'\<rparr>)"
    "avail t' = []" "traffic t' = took (packet_frame ?p) (traffic (transport s))"
    "time c' = time (timer s)" "conn_inv P tinv (s1\<lparr>transport := t', timer := c'\<rparr>)"
    by (auto simp: sp clock_idle_def)
  have "drive P cx (16, s) = Some (Blocked, 14, s1\<lparr>transport := t', timer := c'\<rparr>)"
    using drive_loop_progress [OF s1(1)] d(1) wait by (simp add: drive_def is_healthy_iff)
  then show ?thesis
    using d(2-5) f wait s1(4,5)
    by (intro exI [of _ "s1\<lparr>transport := t', timer := c'\<rparr>"]) (simp add: at_rest_def sp)
qed

text \<open>What a poll returns that leaves the connection at rest\<close>

lemma polls_at_rest:
  assumes "drive P cx (16, s) = Some (w, b, s1)" "at_rest s1"
  shows "\<exists>v new. poll_flush P cx s = Some (Ready (Inr ()), set_waiters v new s1)"
    and "\<exists>v new. poll_progress P cx s = Some (Pending, set_waiters v new s1)"
    and "rx_start s1 = rx_end s1 \<Longrightarrow> buf \<noteq> [] \<Longrightarrow>
      \<exists>v new. poll_read P cx buf s = Some (Pending, buf, set_waiters v new s1)"
  using assms
  by (auto simp: poll_flush_def poll_progress_def poll_read_def new_budget_def STEP_BUDGET_def failure_def
      at_rest_def flush_ready_def finish_eq Let_def)

text \<open>A poll of a connection at rest to which nothing has arrived\<close>

lemma drive_rest:
  assumes "conn_inv P tinv s" "at_rest s" "avail (transport s) = []"
  shows "\<exists>t c. drive P cx (16, s) = Some (Blocked, 15, s\<lparr>transport := t, timer := c\<rparr>) \<and>
    avail t = [] \<and> traffic t = traffic (transport s) \<and> time c = time (timer s) \<and>
    conn_inv P tinv (s\<lparr>transport := t, timer := c\<rparr>)"
proof -
  note rest = assms(2) [unfolded at_rest_def]
  have "clock_idle s" using rest by (simp add: clock_idle_def)
  from drive_quiet [OF assms(1) _ assms(3) _ _ _ _ this, of 16 cx] rest show ?thesis
    by (simp add: drive_def is_healthy_iff)
qed

text \<open>With the acknowledgment a flush completes.\<close>

lemma flush_prompt:
  assumes "conn_inv P tinv s" "awaits_ack s" "unat q + 1 = unat (tx_next s)"
    and "avail (transport s) = packet_frame (Ack (session (config s)) q)"
  shows "\<exists>s'. poll_flush P cx s = Some (Ready (Inr ()), s') \<and> conn_inv P tinv s' \<and> at_rest s' \<and>
    avail (transport s') = [] \<and> traffic (transport s') = took (packet_frame (Ack (session (config s)) q)) (traffic (transport s)) \<and>
    config s' = config s \<and> tx_next s' = tx_next s \<and> time (timer s') = time (timer s)"
proof -
  obtain s1 where s1: "drive P cx (16, s) = Some (Blocked, 14, s1)" "conn_inv P tinv s1" "at_rest s1"
    "avail (transport s1) = []" "traffic (transport s1) = took (packet_frame (Ack (session (config s)) q)) (traffic (transport s))"
    "config s1 = config s" "tx_next s1 = tx_next s" "time (timer s1) = time (timer s)"
    using drive_released [OF assms, of cx] by blast
  obtain v new where "poll_flush P cx s = Some (Ready (Inr ()), set_waiters v new s1)"
    using polls_at_rest(1) [OF s1(1,3)] by blast
  with s1 conn_inv_set_waiters [OF s1(2)] show ?thesis by simp
qed

text \<open>Without the acknowledgment a flush stays pending.\<close>

lemma flush_waits:
  assumes "conn_inv P tinv s" "awaits_ack s" "avail (transport s) = []" "time (timer s) < tx_deadline s"
  shows "\<exists>s'. poll_flush P cx s = Some (Pending, s')"
proof -
  note wait = assms(2) [unfolded awaits_ack_def]
  have "clock_idle s" using wait assms(4) by (simp add: clock_idle_def)
  then obtain t c where "drive_loop P cx (16, s) = Some (Blocked, 15, s\<lparr>transport := t, timer := c\<rparr>)"
    using drive_quiet [OF assms(1) _ assms(3), of 16 cx] wait by auto
  with wait show ?thesis
    by (simp add: poll_flush_def drive_def is_healthy_iff new_budget_def STEP_BUDGET_def failure_def
        flush_ready_def finish_eq)
qed

end

end
