(* ===== verification/Recovery.thy ===== *)
theory Recovery
  imports Prompt_Link
begin

text \<open>
  What a connection does when an acknowledgment does not arrive: at the deadline it looks at its input
  once more, then sends the packet again or, after the last retry, reports \<open>Timeout\<close>. And what the
  peer does with a packet it has retained before.
\<close>

section \<open>A link with a clock that fires\<close>

locale timed_link = prompt_link P tinv avail traffic took wrote time
  for P :: "('t, 'c, 'e) params" and tinv :: "'t \<Rightarrow> bool" and avail :: "'t \<Rightarrow> u8 list"
    and traffic :: "'t \<Rightarrow> 'h" and took wrote :: "u8 list \<Rightarrow> 'h \<Rightarrow> 'h" and time :: "'c \<Rightarrow> u64" +
  assumes clock_fires: "d \<le> time c \<Longrightarrow>
      \<exists>c'. c_poll_deadline (clock P) cx d c = (Ready (), c') \<and> time c' = time c"

text \<open>Waiting for the acknowledgment of a packet, whose frame is kept\<close>

definition awaits_packet :: "packet \<Rightarrow> ('t, 'c, 'e) reliable \<Rightarrow> bool" where
  "awaits_packet p s \<longleftrightarrow> awaits_ack s \<and> holds_frame (tx_frame s) (tx_len s) p"

text \<open>The payload of a retained packet is in the slot.\<close>

definition slot_holds :: "u8 list \<Rightarrow> ('t, 'c, 'e) reliable \<Rightarrow> bool" where
  "slot_holds payload s \<longleftrightarrow>
     rx_start s = 0 \<and> rx_end s = length payload \<and> take (length payload) (rx_payload s) = payload"

context timed_link
begin

section \<open>The deadline\<close>

lemma deadline_step:
  assumes "conn_inv P tinv s" "awaits_ack s" "avail (transport s) = []" "0 < b"
    and "tx_deadline s \<le> time (timer s)"
  shows "\<exists>t c. step P cx (b, s) = Some (Inr Progress, b - 1,
      s\<lparr>transport := t, timer := c, final_input := Some (FINAL_INPUT P)\<rparr>) \<and>
    avail t = [] \<and> traffic t = traffic (transport s) \<and> time c = time (timer s)"
proof -
  note wait = assms(2) [unfolded awaits_ack_def]
  obtain t where t: "poll_input P cx (b, s) = Some (Inr Blocked, b - 1, s\<lparr>transport := t\<rparr>)"
      "avail t = []" "traffic t = traffic (transport s)"
    using input_none [OF assms(1,3,4)] by blast
  obtain c where "c_poll_deadline (clock P) cx (tx_deadline s) (timer s) = (Ready (), c)"
      "time c = time (timer s)"
    using clock_fires [OF assms(5)] by blast
  with t wait show ?thesis
    by (intro exI [of _ t] exI [of _ c])
      (simp add: step_def poll_output_def select_frame_def poll_timer_def is_pending_def)
qed

text \<open>After the last look at the input the packet is queued again, or the connection gives up.\<close>

lemma final_step:
  assumes "conn_inv P tinv s" "avail (transport s) = []" "0 < b"
    and "tx s = TxWaiting" "out s = OutIdle" "ack_pending s = None" "final_input s = Some left"
  shows "\<exists>t. avail t = [] \<and> traffic t = traffic (transport s) \<and>
    (if tx_retries s \<ge> max_retries (config s)
     then step P cx (b, s) = Some (Inl Timeout, b - 1, s\<lparr>transport := t, final_input := None\<rparr>)
     else step P cx (b, s) = Some (Inr Progress, b - 1, s\<lparr>transport := t, final_input := None,
       tx_retries := tx_retries s + 1, tx := TxQueued\<rparr>))"
proof -
  obtain t where t: "poll_input P cx (b, s) = Some (Inr Blocked, b - 1, s\<lparr>transport := t\<rparr>)"
      "avail t = []" "traffic t = traffic (transport s)"
    using input_none [OF assms(1-3)] by blast
  have "add_checked (tx_retries s) 1 = Some (tx_retries s + 1)"
    if "tx_retries s < max_retries (config s)"
    using that by (rule add_checked_less(1))
  with t assms(4-7) show ?thesis
    by (intro exI [of _ t]) (auto simp: step_def poll_output_def select_frame_def poll_timer_def)
qed

section \<open>A poll after the deadline\<close>

lemma drive_final:
  assumes "conn_inv P tinv s" "awaits_ack s" "avail (transport s) = []" "1 < b"
    and "tx_deadline s \<le> time (timer s)"
  shows "\<exists>t c. time c = time (timer s) \<and> avail t = [] \<and> traffic t = traffic (transport s) \<and>
    (if tx_retries s \<ge> max_retries (config s)
     then drive P cx (b, s) = Some (Blocked, b - 2, fail Timeout (s\<lparr>transport := t, timer := c\<rparr>))
     else \<exists>s1. s1 = s\<lparr>transport := t, timer := c, tx_retries := tx_retries s + 1, tx := TxQueued\<rparr> \<and>
       drive P cx (b, s) = drive_loop P cx (b - 2, s1) \<and> conn_inv P tinv s1)"
proof -
  note wait = assms(2) [unfolded awaits_ack_def]
  from deadline_step [OF assms(1-3) _ assms(5), of b cx] assms(4) obtain t c where s1:
    "step P cx (b, s) = Some (Inr Progress, b - 1,
      s\<lparr>transport := t, timer := c, final_input := Some (FINAL_INPUT P)\<rparr>)"
    "avail t = []" "traffic t = traffic (transport s)" "time c = time (timer s)"
    by auto
  define s1 where "s1 = s\<lparr>transport := t, timer := c, final_input := Some (FINAL_INPUT P)\<rparr>"
  have inv1: "conn_inv P tinv s1" unfolding s1_def by (rule step_keeps_inv [OF s1(1) assms(1)])
  have d: "drive P cx (b, s) = drive_loop P cx (b - 1, s1)"
    using wait drive_loop_progress [OF s1(1)] by (simp add: drive_def is_healthy_iff s1_def)
  have b: "0 < b - 1" "b - 1 - 1 = b - 2" using assms(4) by auto
  have f: "tx s1 = TxWaiting" "out s1 = OutIdle" "ack_pending s1 = None"
      "final_input s1 = Some (FINAL_INPUT P)" "avail (transport s1) = []"
      "tx_retries s1 = tx_retries s" "config s1 = config s" "traffic (transport s1) = traffic (transport s)"
    using wait s1(2,3) by (simp_all add: s1_def)
  have none: "s1\<lparr>transport := t', final_input := None\<rparr> = s\<lparr>transport := t', timer := c\<rparr>" for t'
    using wait by (intro reliable.equality) (simp_all add: s1_def)
  have again: "s1\<lparr>transport := t', final_input := None, tx_retries := r, tx := TxQueued\<rparr> =
      s\<lparr>transport := t', timer := c, tx_retries := r, tx := TxQueued\<rparr>" for t' r
    using wait by (intro reliable.equality) (simp_all add: s1_def)
  obtain t' where t': "avail t' = []" "traffic t' = traffic (transport s)"
    and st: "if tx_retries s \<ge> max_retries (config s)
     then step P cx (b - 1, s1) = Some (Inl Timeout, b - 2, s\<lparr>transport := t', timer := c\<rparr>)
     else step P cx (b - 1, s1) = Some (Inr Progress, b - 2,
       s\<lparr>transport := t', timer := c, tx_retries := tx_retries s + 1, tx := TxQueued\<rparr>)"
    using final_step [OF inv1 f(5) b(1) f(1-4), of cx] unfolding f(6-8) b(2) none again by blast
  show ?thesis
  proof (cases "tx_retries s \<ge> max_retries (config s)")
    case True
    with st have "drive P cx (b, s) = Some (Blocked, b - 2, fail Timeout (s\<lparr>transport := t', timer := c\<rparr>))"
      unfolding d by (subst drive_loop.simps) simp
    with True t' s1(4) show ?thesis by auto
  next
    case False
    with st have st': "step P cx (b - 1, s1) = Some (Inr Progress, b - 2,
       s\<lparr>transport := t', timer := c, tx_retries := tx_retries s + 1, tx := TxQueued\<rparr>)" by simp
    from False d drive_loop_progress [OF st'] step_keeps_inv [OF st' inv1] t' s1(4) show ?thesis by auto
  qed
qed

text \<open>The packet goes over the link again, and the connection waits for its acknowledgment again.\<close>

lemma flush_resends:
  assumes "conn_inv P tinv s" "awaits_packet p s" "avail (transport s) = []"
    and "tx_deadline s \<le> time (timer s)" "tx_retries s < max_retries (config s)"
    and "time (timer s) < saturating_add (time (timer s)) (retransmit_timeout (config s))"
  shows "\<exists>s'. poll_flush P cx s = Some (Pending, s') \<and> conn_inv P tinv s' \<and> awaits_packet p s' \<and>
    avail (transport s') = [] \<and> traffic (transport s') = wrote (packet_frame p) (traffic (transport s)) \<and>
    config s' = config s \<and> tx_next s' = tx_next s \<and> time (timer s') = time (timer s) \<and>
    tx_retries s' = tx_retries s + 1 \<and>
    tx_deadline s' = saturating_add (time (timer s)) (retransmit_timeout (config s))"
proof -
  have wait: "awaits_ack s" "holds_frame (tx_frame s) (tx_len s) p"
    using assms(2) by (simp_all add: awaits_packet_def)
  note w = wait(1) [unfolded awaits_ack_def]
  have left: "\<not> max_retries (config s) \<le> tx_retries s" using assms(5) by simp
  have "1 < (16 :: nat)" by simp
  from drive_final [OF assms(1) wait(1) assms(3) this assms(4), of cx, unfolded if_not_P [OF left]]
  obtain t c where q: "drive P cx (16, s) = drive_loop P cx (14, s\<lparr>transport := t, timer := c,
        tx_retries := tx_retries s + 1, tx := TxQueued\<rparr>)"
      "conn_inv P tinv (s\<lparr>transport := t, timer := c, tx_retries := tx_retries s + 1, tx := TxQueued\<rparr>)"
      "avail t = []" "traffic t = traffic (transport s)" "time c = time (timer s)"
    by fastforce
  from drive_sends [OF q(2) _ _ _ _ _ _ _ , of 14 p cx] w wait(2) q(3-5) assms(6) obtain t' c' where
    d: "drive P cx (16, s) = Some (Blocked, 9, s\<lparr>tx_retries := tx_retries s + 1, transport := t',
        timer := c', tx := TxWaiting, final_input := None, out := OutIdle,
        tx_deadline := saturating_add (time (timer s)) (retransmit_timeout (config s))\<rparr>)"
      "avail t' = []" "traffic t' = wrote (packet_frame p) (traffic (transport s))" "time c' = time (timer s)"
    unfolding q(1) by auto
  let ?s2 = "s\<lparr>tx_retries := tx_retries s + 1, transport := t', timer := c', tx := TxWaiting,
    final_input := None, out := OutIdle,
    tx_deadline := saturating_add (time (timer s)) (retransmit_timeout (config s))\<rparr>"
  let ?r = "Pending :: ('e connection_error + unit) poll"
  have pf: "poll_flush P cx s = Some (?r, snd (finish OpFlush cx ?r ?s2))"
    using d(1) w by (simp add: poll_flush_def new_budget_def STEP_BUDGET_def failure_def flush_ready_def)
      (simp add: finish_eq)
  have "conn_inv P tinv (snd (finish OpFlush cx ?r ?s2))"
    using poll_flush_inv [OF assms(1), of cx] pf by auto
  then show ?thesis
    using pf w wait(2) d(2-4)
    by (intro exI [of _ "snd (finish OpFlush cx ?r ?s2)"])
      (simp add: finish_eq set_waiters_def awaits_packet_def awaits_ack_def)
qed

lemma flush_gives_up:
  assumes "conn_inv P tinv s" "awaits_ack s" "avail (transport s) = []"
    and "tx_deadline s \<le> time (timer s)" "tx_retries s \<ge> max_retries (config s)"
  shows "\<exists>s'. poll_flush P cx s = Some (Ready (Inl Timeout), s')"
proof -
  from drive_final [OF assms(1-3) _ assms(4), of 16 cx] assms(5) obtain t c where
    "drive P cx (16, s) = Some (Blocked, 14, fail Timeout (s\<lparr>transport := t, timer := c\<rparr>))"
    by auto
  then show ?thesis
    using assms(2)
    by (simp add: poll_flush_def new_budget_def STEP_BUDGET_def failure_def fail_def awaits_ack_def finish_eq)
qed

section \<open>The receiver\<close>

text \<open>A poll that finds the packet acknowledges it, whether it is new or has been retained before.\<close>

lemma progress_acks:
  assumes "conn_inv P tinv s" "at_rest s" "payload \<noteq> []" "length payload \<le> MAX_PAYLOAD P"
    and "rx_next s = ucast q \<and> rx_start s = rx_end s \<or> unat (rx_next s) = unat q + 1 \<and> slot_holds payload s"
    and "avail (transport s) = packet_frame (Data (session (config s)) q payload)"
  shows "\<exists>s'. poll_progress P cx s = Some (Pending, s') \<and> conn_inv P tinv s' \<and> at_rest s' \<and>
    avail (transport s') = [] \<and> traffic (transport s') = wrote (packet_frame (Ack (session (config s)) q))
      (took (packet_frame (Data (session (config s)) q payload)) (traffic (transport s))) \<and>
    config s' = config s \<and> unat (rx_next s') = unat q + 1 \<and> slot_holds payload s'"
proof -
  obtain s1 where d: "drive P cx (16, s) = Some (Blocked, 10, s1)" "conn_inv P tinv s1" "at_rest s1"
      "avail (transport s1) = []" "traffic (transport s1) = wrote (packet_frame (Ack (session (config s)) q))
        (took (packet_frame (Data (session (config s)) q payload)) (traffic (transport s)))"
      "config s1 = config s" "unat (rx_next s1) = unat q + 1" "slot_holds payload s1"
    using assms(5)
  proof
    assume new: "rx_next s = ucast q \<and> rx_start s = rx_end s"
    then have "unat (rx_next s + 1) = unat q + 1"
      using add_checked_u64 [of "rx_next s"] unat_u32_less [of q] seq_eq_u64 [of q "rx_next s"] by simp
    with new drive_receives [OF assms(1,2) _ assms(3,4) _ assms(6), of cx] that show thesis
      by (auto simp: slot_holds_def)
  next
    assume "unat (rx_next s) = unat q + 1 \<and> slot_holds payload s"
    with drive_repeats [OF assms(1-4) _ assms(6), of cx] that show thesis
      by (auto simp: slot_holds_def)
  qed
  let ?r = "Pending :: 'e connection_error poll"
  have pp: "poll_progress P cx s = Some (?r, snd (finish OpProgress cx ?r s1))"
    using d(1,3) by (simp add: poll_progress_def new_budget_def STEP_BUDGET_def failure_def at_rest_def)
      (simp add: finish_eq)
  have "conn_inv P tinv (snd (finish OpProgress cx ?r s1))"
    using poll_progress_inv [OF assms(1), of cx] pp by auto
  then show ?thesis
    using pp d(3-8)
    by (intro exI [of _ "snd (finish OpProgress cx ?r s1)"])
      (simp add: finish_eq set_waiters_def at_rest_def slot_holds_def)
qed

text \<open>A read at rest hands the retained payload over.\<close>

lemma read_rest:
  assumes "conn_inv P tinv s" "at_rest s" "avail (transport s) = []" "slot_holds payload s"
    and "payload \<noteq> []" "length payload \<le> length buf"
  shows "\<exists>s'. poll_read P cx buf s =
      Some (Ready (Inr (length payload)), payload @ drop (length payload) buf, s') \<and>
    conn_inv P tinv s' \<and> at_rest s' \<and> avail (transport s') = [] \<and>
    traffic (transport s') = traffic (transport s) \<and>
    config s' = config s \<and> rx_next s' = rx_next s \<and> rx_start s' = rx_end s'"
proof -
  note rest = assms(2) [unfolded at_rest_def]
  have "clock_idle s" using rest by (simp add: clock_idle_def)
  from drive_quiet [OF assms(1) _ assms(3) _ _ _ _ this, of 16 cx] rest obtain t c where
    d: "drive_loop P cx (16, s) = Some (Blocked, 15, s\<lparr>transport := t, timer := c\<rparr>)"
      "avail t = []" "traffic t = traffic (transport s)" "conn_inv P tinv (s\<lparr>transport := t, timer := c\<rparr>)"
    by auto
  let ?s1 = "s\<lparr>transport := t, timer := c\<rparr>"
  have dr: "drive P cx (new_budget, s) = Some (Blocked, 15, ?s1)"
    using d(1) rest by (simp add: drive_def is_healthy_iff new_budget_def STEP_BUDGET_def)
  have slot: "rx_start ?s1 < rx_end ?s1" "buf \<noteq> []"
      "length payload = min (length buf) (rx_end ?s1 - rx_start ?s1)"
      "take (length payload) (drop (rx_start ?s1) (rx_payload ?s1)) = payload"
    using assms(4-6) by (auto simp: slot_holds_def)
  let ?p = "Ready (Inr (length payload)) :: ('e connection_error + nat) poll"
  let ?s2 = "snd (finish OpRead cx ?p (?s1\<lparr>rx_start := rx_start ?s1 + length payload\<rparr>))"
  have pr: "poll_read P cx buf s = Some (?p, payload @ drop (length payload) buf, ?s2)"
    using poll_read_data [OF dr slot(1) conn_inv_parts(3,6) [OF d(4)] slot(2,3)] slot(4) by simp
  have "conn_inv P tinv ?s2" using poll_read_inv [OF assms(1), of cx buf] pr by auto
  moreover have "at_rest ?s2" "transport ?s2 = t" "config ?s2 = config s" "rx_next ?s2 = rx_next s"
      "rx_start ?s2 = rx_end ?s2"
    using rest assms(4) by (simp_all add: finish_eq set_waiters_def at_rest_def slot_holds_def)
  ultimately show ?thesis using pr d(2,3) by (intro exI [of _ ?s2]) simp
qed

end

end
