(* ===== verification/End_To_End.thy ===== *)
theory End_To_End
  imports Delivery_Run
begin

text \<open>
  Runs of a connection: any sequence of operations of the application, with any behaviour of the
  link and the clock between and during them. A run records the payloads that writes have accepted
  and the bytes that reads have delivered; the tape of the link has the bytes that went over it.
\<close>

section \<open>Runs\<close>

inductive conn_run ::
  "('t, 'c, 'e) params \<Rightarrow> ('t \<Rightarrow> bool) \<Rightarrow> u8 list list \<Rightarrow> u8 list \<Rightarrow>
     ('t tape, 'c, 'e) reliable \<Rightarrow> bool"
  for P tinv where
    run_start: "tinv t \<Longrightarrow> new_reliable (taped P) (blank_tape t) c cfg = Inr s \<Longrightarrow> conn_run P tinv [] [] s"
  | run_write: "conn_run P tinv sent got s \<Longrightarrow> poll_write (taped P) cx buf s = Some (r, s') \<Longrightarrow>
      conn_run P tinv (accepted r buf sent) got s'"
  | run_read: "conn_run P tinv sent got s \<Longrightarrow> poll_read (taped P) cx buf s = Some (r, buf', s') \<Longrightarrow>
      conn_run P tinv sent (delivered r buf' got) s'"
  | run_flush: "conn_run P tinv sent got s \<Longrightarrow> poll_flush (taped P) cx s = Some (r, s') \<Longrightarrow>
      conn_run P tinv sent got s'"
  | run_progress: "conn_run P tinv sent got s \<Longrightarrow> poll_progress (taped P) cx s = Some (r, s') \<Longrightarrow>
      conn_run P tinv sent got s'"
  | run_cancel: "conn_run P tinv sent got s \<Longrightarrow> conn_run P tinv sent got (cancel_pending operation s)"
  | run_world: "conn_run P tinv sent got s \<Longrightarrow> tinv t \<Longrightarrow>
      conn_run P tinv sent got (s\<lparr>transport := (transport s)\<lparr>inner := t\<rparr>, timer := c\<rparr>)"

inductive_cases conn_run_cases: "conn_run P tinv sent got s"

context reliable_link
begin

lemma link_ok_world:
  assumes "link_ok P tinv sent got s" "tinv t"
  shows "link_ok P tinv sent got (s\<lparr>transport := (transport s)\<lparr>inner := t\<rparr>, timer := c\<rparr>)"
  using assms link_ok_inv [OF assms(1)]
  by (intro link_ok_cong [OF assms(1)])
    (simp_all add: same_ghost_def conn_inv_def inv_defs tape_inv_def)

lemma conn_run_ok: "conn_run P tinv sent got s \<Longrightarrow> link_ok P tinv sent got s"
proof (induction rule: conn_run.induct)
  case (run_start t c cfg s)
  then show ?case by (blast intro: link_ok_new)
next
  case (run_write sent got s cx buf r s')
  then show ?case by (blast intro: link_ok_write)
next
  case (run_read sent got s cx buf r buf' s')
  then show ?case by (blast intro: link_ok_read)
next
  case (run_flush sent got s cx r s')
  then show ?case by (blast intro: link_ok_flush)
next
  case (run_progress sent got s cx r s')
  then show ?case by (blast intro: link_ok_progress)
next
  case (run_cancel sent got s operation)
  then show ?case by (blast intro: link_ok_cancel)
next
  case (run_world sent got s t c)
  then show ?case by (blast intro: link_ok_world)
qed

text \<open>The packets on the wire are packets of the connection.\<close>

lemma packet_of_conn_fits:
  assumes "link_ok P tinv sent got s" "packet_of_conn sent s p"
  shows "packet_fits (capacity P) p"
proof (cases p)
  case (Data sess q payload)
  with assms have "payload \<in> set sent" by (auto simp: packet_of_conn_def)
  with assms(1) have "payload \<noteq> []" "length payload \<le> max_payload (capacity P)"
    by (auto simp: link_ok_def ghost_ok_def payloads_ok_def MAX_PAYLOAD_def)
  then show ?thesis
    using Data packet_frame_data_fits(1) [of payload "capacity P" sess q]
    by (simp add: packet_fits_def valid_packet_def)
next
  case (Ack sess q)
  have "21 \<le> capacity (taped P)"
    using capacity_bounds(1) [OF conn_inv_parts(3) [OF link_ok_inv [OF assms(1)]]] .
  with Ack show ?thesis
    using ack_frame_fits [of sess q]
    by (simp add: packet_fits_def valid_packet_def ACK_FRAME_LEN_20)
qed

lemma partial_frame_cases:
  assumes "link_ok P tinv sent got s"
  obtains (none) "partial_frame s = []"
  | (part) p k where "packet_of_conn sent s p" "k < length (packet_frame p)"
      "partial_frame s = take k (packet_frame p)"
proof (cases "\<exists>fr k. out s = Writing fr k")
  case True
  then obtain fr k where out: "out s = Writing fr k" by blast
  define n where "n = (case fr of AckFrame \<Rightarrow> ack_len s | DataFrame \<Rightarrow> tx_len s)"
  define buf where "buf = (case fr of AckFrame \<Rightarrow> ack_frame s | DataFrame \<Rightarrow> tx_frame s)"
  note inv = link_ok_inv [OF assms]
  note sl = pending_slice [OF inv out n_def buf_def]
  obtain p where p: "packet_of_conn sent s p" "take n buf = packet_frame p"
    using frame_under_way [OF inv _ out n_def buf_def, of "MAX_PAYLOAD P" sent got] assms
    unfolding link_ok_def by blast
  have "n = length (packet_frame p)"
    using arg_cong [OF p(2), of length] sl(2) by simp
  moreover have "partial_frame s = take k buf" by (cases fr) (simp_all add: partial_frame_def out buf_def)
  moreover have "take k buf = take k (packet_frame p)"
    using sl(1) unfolding p(2) [symmetric] by (simp add: min_def)
  ultimately show thesis by (intro part [OF p(1), of k]) (use sl(1) in simp_all)
next
  case False
  then show thesis by (intro none) (auto simp: partial_frame_def split: out.split)
qed

lemma wire_packets_written:
  assumes "link_ok P tinv sent got s"
  obtains ps where "tape_out (transport s) = concat (map packet_frame ps) @ partial_frame s"
    "\<forall>p \<in> set ps. packet_of_conn sent s p"
    "wire_packets (capacity P) (tape_out (transport s)) = ps"
proof -
  obtain ps where ps: "tape_out (transport s) = concat (map packet_frame ps) @ partial_frame s"
      "\<forall>p \<in> set ps. packet_of_conn sent s p"
    using assms by (auto simp: link_ok_def ghost_ok_def written_ok_def)
  have fits: "\<forall>p \<in> set ps. packet_fits (capacity P) p"
    using ps(2) packet_of_conn_fits [OF assms] by blast
  have "wire_packets (capacity P) (tape_out (transport s)) = ps"
    using assms
  proof (cases rule: partial_frame_cases)
    case none
    then show ?thesis using ps(1) wire_packets_whole [OF fits] by simp
  next
    case (part p k)
    then show ?thesis
      using ps(1) wire_packets_frames [OF fits packet_of_conn_fits [OF assms part(1)] part(2)] by simp
  qed
  with ps that show thesis by blast
qed

lemma run_packets:
  assumes "link_ok P tinv sent got s" "p \<in> set (wire_packets (capacity P) (tape_out (transport s)))"
  shows "packet_of_conn sent s p"
  using wire_packets_written [OF assms(1)] assms(2) by metis

text \<open>What a connection has delivered, and what has been acknowledged to it\<close>

lemma run_received:
  assumes "link_ok P tinv sent got s"
  obtains acc where "length acc = unat (rx_next s)" "length acc \<le> 2 ^ 32" "got @ unread s = concat acc"
    "\<forall>i < length acc. Data (session (config s)) (of_nat i) (acc ! i) \<in>
      set (wire_packets (capacity P) (tape_in (transport s)))"
proof -
  have "unat (rx_next s) \<le> 2 ^ 32"
    using conn_inv_parts(6) [OF link_ok_inv [OF assms]] by (simp add: rx_inv_def)
  moreover obtain acc where "length acc = unat (rx_next s)" "got @ unread s = concat acc"
    "\<forall>i < length acc. Data (session (config s)) (of_nat i) (acc ! i) \<in>
      set (wire_packets (capacity P) (tape_in (transport s)))"
    using assms by (auto simp: link_ok_def ghost_ok_def recv_ok_def)
  ultimately show thesis using that [of acc] by simp
qed

lemma run_acked:
  assumes "link_ok P tinv sent got s" "tx s = TxIdle" "i < length sent"
  shows "Ack (session (config s)) (of_nat i) \<in> set (wire_packets (capacity P) (tape_in (transport s)))"
  using assms by (simp add: link_ok_def ghost_ok_def acked_ok_def)

lemma sent_bound: "link_ok P tinv sent got s \<Longrightarrow> length sent \<le> 2 ^ 32"
  using conn_inv_parts(4) [OF link_ok_inv, of sent got s]
  by (simp add: tx_inv_def link_ok_def ghost_ok_def payloads_ok_def)

end

lemma unat_of_nat_u32: "i < 2 ^ 32 \<Longrightarrow> unat (of_nat i :: u32) = i"
  by (simp add: unat_of_nat)

section \<open>Two connections\<close>

text \<open>
  The network may lose, delay, duplicate, reorder, damage and make up frames, as long as every
  packet of the session that a connection finds in what it reads is one its peer wrote: what the
  checksum and the session identifier are for.
\<close>

definition genuine ::
  "('t, 'c, 'e) params \<Rightarrow> ('t tape, 'c, 'e) reliable \<Rightarrow>
     ('u, 'd, 'f) params \<Rightarrow> ('u tape, 'd, 'f) reliable \<Rightarrow> bool" where
  "genuine Pa a Pb b \<longleftrightarrow>
     (\<forall>p \<in> set (wire_packets (capacity Pb) (tape_in (transport b))).
        session_of p = session (config b) \<longrightarrow>
        p \<in> set (wire_packets (capacity Pa) (tape_out (transport a))))"

lemma delivery_prefix:
  assumes "reliable_link Pa ta" "reliable_link Pb tb"
    and "link_ok Pa ta sentA gotA a" "link_ok Pb tb sentB gotB b"
    and "session (config a) = session (config b)" "genuine Pa a Pb b"
  shows "unat (rx_next b) \<le> length sentA \<and> gotB @ unread b = concat (take (unat (rx_next b)) sentA)"
proof -
  obtain acc where acc: "length acc = unat (rx_next b)" "length acc \<le> 2 ^ 32" "gotB @ unread b = concat acc"
    "\<forall>i < length acc. Data (session (config b)) (of_nat i) (acc ! i) \<in>
      set (wire_packets (capacity Pb) (tape_in (transport b)))"
    using reliable_link.run_received [OF assms(2,4)] by blast
  have nth: "i < length sentA \<and> acc ! i = sentA ! i" if "i < length acc" for i
  proof -
    have "Data (session (config b)) (of_nat i) (acc ! i) \<in>
        set (wire_packets (capacity Pa) (tape_out (transport a)))"
      using acc(4) that assms(6) unfolding genuine_def by fastforce
    from reliable_link.run_packets [OF assms(1,3) this] show ?thesis
      using that acc(2) unat_of_nat_u32 [of i] by (simp add: packet_of_conn_def)
  qed
  have le: "length acc \<le> length sentA"
    using nth [of "length acc - 1"] by (cases "length acc") auto
  moreover have "acc = take (length acc) sentA"
    using nth le by (intro nth_equalityI) auto
  ultimately show ?thesis using acc(1,3) by simp
qed

lemma delivery_complete:
  assumes "reliable_link Pa ta" "reliable_link Pb tb"
    and "link_ok Pa ta sentA gotA a" "link_ok Pb tb sentB gotB b"
    and "session (config a) = session (config b)" "genuine Pa a Pb b" "genuine Pb b Pa a"
    and "tx a = TxIdle"
  shows "gotB @ unread b = concat sentA"
proof -
  have "i < unat (rx_next b)" if "i < length sentA" for i
  proof -
    have "Ack (session (config a)) (of_nat i) \<in> set (wire_packets (capacity Pb) (tape_out (transport b)))"
      using reliable_link.run_acked [OF assms(1,3,8) that] assms(7) unfolding genuine_def by fastforce
    from reliable_link.run_packets [OF assms(2,4) this] show ?thesis
      using that reliable_link.sent_bound [OF assms(1,3)] unat_of_nat_u32 [of i]
      by (simp add: packet_of_conn_def)
  qed
  then have "length sentA \<le> unat (rx_next b)" by (meson leI less_irrefl)
  with delivery_prefix [OF assms(1-6)] show ?thesis by simp
qed

lemma poll_flush_ready:
  assumes "poll_flush P cx s = Some (Ready (Inr x), s')"
  shows "flush_ready s'"
proof -
  from assms obtain w b s1 where d: "drive P cx (new_budget, s) = Some (w, b, s1)"
    by (auto simp: poll_flush_def elim!: bind_SomeE)
  obtain e s2 where f: "failure s1 = (e, s2)" by fastforce
  with assms d show ?thesis
    by (cases e) (auto simp: poll_flush_def Let_def finish_eq split: if_splits)
qed

end
