(* ===== verification/Exchange.thy ===== *)
theory Exchange
  imports Prompt_Link Test_Link End_To_End
begin

text \<open>
  Endpoints of the tests with no fault switched on are prompt links. Two connections that are ready
  for an exchange.
\<close>

section \<open>Endpoints as prompt links\<close>

text \<open>An endpoint without faults whose chunks are no smaller than the buffers of the connection\<close>

definition faultless :: "nat \<Rightarrow> endpoint \<Rightarrow> bool" where
  "faultless n t \<longleftrightarrow>
     n \<le> read_chunk (ctl t) \<and> n \<le> write_chunk (ctl t) \<and>
     \<not> reads_blocked (ctl t) \<and> \<not> writes_blocked (ctl t) \<and> \<not> flush_blocked (ctl t) \<and>
     write_budget (ctl t) = None \<and> \<not> write_zero (ctl t) \<and> \<not> closed (incoming t) \<and>
     read_error (ctl t) = None \<and> write_error (ctl t) = None \<and> flush_error (ctl t) = None \<and>
     filter_frame (outgoing t) = None"

text \<open>The bytes an endpoint has passed on, and those of the frame it is still collecting\<close>

definition carried :: "endpoint \<Rightarrow> u8 list" where
  "carried t = queue (outgoing t) @ partial (outgoing t)"

lemma faultless_write:
  assumes "faultless n t" "length buf \<le> n"
  shows "\<exists>t'. endpoint_write cx buf t = Some (Ready (Inr (length buf)), t') \<and> faultless n t' \<and>
    incoming t' = incoming t \<and> carried t' = carried t @ buf"
proof -
  obtain rang p where w: "wake_reader (fold push_byte buf (outgoing t)) = (rang, p)" by fastforce
  then have "queue p = queue (fold push_byte buf (outgoing t))"
      "partial p = partial (fold push_byte buf (outgoing t))"
      "filter_frame p = filter_frame (fold push_byte buf (outgoing t))"
    by (auto simp: wake_reader_def split: option.splits)
  with push_bytes [of "outgoing t" buf] w assms show ?thesis
    by (auto simp: endpoint_write_def Let_def faultless_def carried_def)
qed

text \<open>What one end writes is what arrives at the other end of a link, as if injected there.\<close>

lemma shared_delivery:
  assumes "faultless n a" "length buf \<le> n" "shared a b" "partial (outgoing a) = []" "buf \<noteq> []" "last buf = 0"
  shows "\<exists>a'. endpoint_write cx buf a = Some (Ready (Inr (length buf)), a') \<and> shared a' (follow a' b) \<and>
    queue (incoming (follow a' b)) = queue (incoming (inject_incoming buf b)) \<and>
    partial (outgoing a') = []"
proof -
  obtain a' where a': "endpoint_write cx buf a = Some (Ready (Inr (length buf)), a')" "carried a' = carried a @ buf"
    using faultless_write [OF assms(1,2)] by blast
  obtain rang p where w: "wake_reader (fold push_byte buf (outgoing a)) = (rang, p)" by fastforce
  have "outgoing a' = p" using a'(1) w assms(1,2)
    by (auto simp: endpoint_write_def Let_def faultless_def)
  moreover have "partial p = partial (fold push_byte buf (outgoing a))"
    using w by (auto simp: wake_reader_def split: option.splits)
  moreover have "partial (fold push_byte buf (outgoing a)) = []"
    using push_bytes(3) [of "outgoing a" buf] assms(1,5,6) by (simp add: faultless_def)
  ultimately have "partial (outgoing a') = []" by simp
  then show ?thesis
    using a' assms(3,4) follow_shared(1) [of a' b]
    by (auto simp: carried_def follow_def shared_def inject_incoming_def wake_reader_def split: option.split)
qed

lemma endpoint_keeps_faultless:
  "faultless n t \<Longrightarrow> endpoint_read cx buf t = Some (r, buf', t') \<Longrightarrow> faultless n t' \<and> length buf' = length buf"
  "faultless n t \<Longrightarrow> endpoint_flush cx t = Some (f, t') \<Longrightarrow> faultless n t'"
  by (auto simp: faultless_def endpoint_read_def endpoint_flush_def Let_def split: if_splits)

lemma endpoint_write_faultless:
  assumes "faultless n t" "endpoint_write cx buf t = Some (w, t')"
  shows "faultless n t'"
proof -
  obtain rang p where w: "wake_reader (fold push_byte (take (min (length buf) (write_chunk (ctl t))) buf)
      (outgoing t)) = (rang, p)" by fastforce
  then have "filter_frame p = filter_frame (fold push_byte (take (min (length buf) (write_chunk (ctl t))) buf)
      (outgoing t))"
    by (auto simp: wake_reader_def split: option.splits)
  with push_bytes(2) [of "outgoing t"] w assms show ?thesis
    by (auto simp: faultless_def endpoint_write_def Let_def)
qed

lemma endpoint_total: "transport_total (link (endpoint_params n)) (faultless n)"
  using endpoint_link.read_total endpoint_link.write_total endpoint_link.flush_total
  by unfold_locales
    (auto simp: endpoint_params_def endpoint_ops_def dest: endpoint_keeps_faultless endpoint_write_faultless)

lemma faultless_read:
  assumes "faultless n t" "length buf \<le> n"
  shows "queue (incoming t) \<noteq> [] \<Longrightarrow> length (queue (incoming t)) \<le> length buf \<Longrightarrow>
      \<exists>t'. endpoint_read cx buf t = Some (Ready (Inr (length (queue (incoming t)))),
          queue (incoming t) @ drop (length (queue (incoming t))) buf, t') \<and>
        queue (incoming t') = [] \<and> carried t' = carried t"
  using assms by (auto simp: endpoint_read_def faultless_def carried_def min_def Let_def)

lemma faultless_none:
  assumes "faultless n t"
  shows "queue (incoming t) = [] \<Longrightarrow> \<exists>t'. endpoint_read cx buf t = Some (Pending, buf, t') \<and>
      queue (incoming t') = [] \<and> carried t' = carried t"
    and "\<exists>t'. endpoint_flush cx t = Some (Ready (Inr ()), t') \<and>
      queue (incoming t') = queue (incoming t) \<and> carried t' = carried t"
  using assms by (auto simp: endpoint_read_def endpoint_flush_def faultless_def carried_def Let_def)

lemma clock_stands:
  "\<exists>c'. clock_now c = (ticks_now c, c') \<and> ticks_now c' = ticks_now c"
  "ticks_now c < d \<Longrightarrow> \<exists>c'. clock_poll_deadline cx d c = (Pending, c') \<and> ticks_now c' = ticks_now c"
  by (auto simp: clock_now_def clock_poll_deadline_def Let_def)

interpretation endpoint_prompt: prompt_link "endpoint_params n" "faultless n"
  "\<lambda>t. queue (incoming t)" carried "\<lambda>bs h. h" "\<lambda>bs h. h @ bs" ticks_now for n
proof (intro prompt_link.intro reliable_link.intro prompt_link_axioms.intro endpoint_total)
  fix t :: endpoint and buf :: "u8 list" and cx
  assume "faultless n t" "length buf \<le> capacity (endpoint_params n)"
  then have len: "faultless n t" "length buf \<le> n" by (simp_all add: endpoint_params_def)
  show "queue (incoming t) \<noteq> [] \<Longrightarrow> length (queue (incoming t)) \<le> length buf \<Longrightarrow>
      \<exists>t'. t_poll_read (link (endpoint_params n)) cx buf t =
        Some (Ready (Inr (length (queue (incoming t)))),
          queue (incoming t) @ drop (length (queue (incoming t))) buf, t') \<and>
        queue (incoming t') = [] \<and> carried t' = carried t"
    using faultless_read [OF len] by (simp add: endpoint_params_def endpoint_ops_def)
  show "\<exists>t'. t_poll_write (link (endpoint_params n)) cx buf t = Some (Ready (Inr (length buf)), t') \<and>
      queue (incoming t') = queue (incoming t) \<and> carried t' = carried t @ buf"
    using faultless_write [OF len, of cx] by (auto simp: endpoint_params_def endpoint_ops_def)
qed (use faultless_none clock_stands in
    \<open>simp_all add: endpoint_params_def endpoint_ops_def clock_ops_def\<close>)

text \<open>A stronger invariant of the link leaves it prompt.\<close>

lemma prompt_link_stronger:
  assumes "prompt_link P tinv avail traffic took wrote time" "transport_total (link P) tinv'"
    and "\<And>t. tinv' t \<Longrightarrow> tinv t"
  shows "prompt_link P tinv' avail traffic took wrote time"
  using assms unfolding prompt_link_def prompt_link_axioms_def reliable_link_def by blast

section \<open>Between exchanges\<close>

text \<open>Bytes arrive at a link; \<open>inject_incoming\<close> does it to an endpoint.\<close>

definition hears :: "('t \<Rightarrow> 't) \<Rightarrow> ('t, 'c, 'e) reliable \<Rightarrow> ('t, 'c, 'e) reliable" where
  "hears arrive s = s\<lparr>transport := arrive (transport s)\<rparr>"

lemma hears_fields [simp]:
  "at_rest (hears f s) = at_rest s" "awaits_ack (hears f s) = awaits_ack s"
  "config (hears f s) = config s" "tx_next (hears f s) = tx_next s" "rx_next (hears f s) = rx_next s"
  "rx_start (hears f s) = rx_start s" "rx_end (hears f s) = rx_end s"
  "transport (hears f s) = f (transport s)" "timer (hears f s) = timer s"
  by (simp_all add: hears_def at_rest_def awaits_ack_def)

lemma hears_inv: "conn_inv P tinv s \<Longrightarrow> tinv (f (transport s)) \<Longrightarrow> conn_inv P tinv (hears f s)"
  by (simp add: hears_def conn_inv_transport)

text \<open>Two connections between exchanges, the first about to send\<close>

definition exchange_ready ::
  "('t, 'c, 'e) params \<Rightarrow> ('t \<Rightarrow> bool) \<Rightarrow> ('t \<Rightarrow> u8 list) \<Rightarrow> ('t, 'c, 'e) reliable \<Rightarrow>
     ('t, 'c, 'e) reliable \<Rightarrow> bool" where
  "exchange_ready P tinv avail a b \<longleftrightarrow>
     conn_inv P tinv a \<and> conn_inv P tinv b \<and> at_rest a \<and> at_rest b \<and>
     avail (transport a) = [] \<and> avail (transport b) = [] \<and>
     session (config a) = session (config b) \<and> tx_next a = rx_next b \<and> rx_start b = rx_end b"

lemma new_exchange_ready:
  assumes "new_reliable P t c cfg = Inr a" "new_reliable P u d cfg' = Inr b" "tinv t" "tinv u"
    and "avail t = []" "avail u = []" "session cfg = session cfg'"
  shows "exchange_ready P tinv avail a b"
  using new_reliable_inv [OF assms(1), of tinv] new_reliable_inv [OF assms(2), of tinv] assms
  by (auto simp: exchange_ready_def at_rest_def new_reliable_def split: if_splits)

lemma inject_faultless:
  "faultless n t \<Longrightarrow> queue (incoming t) = [] \<Longrightarrow>
     faultless n (inject_incoming bs t) \<and> queue (incoming (inject_incoming bs t)) = bs \<and>
     carried (inject_incoming bs t) = carried t"
  by (auto simp: inject_incoming_def wake_reader_def faultless_def carried_def split: option.split)

lemma new_endpoint_faultless: "n \<le> m \<Longrightarrow> faultless n (new_endpoint m) \<and> queue (incoming (new_endpoint m)) = []"
  by (simp add: faultless_def new_endpoint_def new_control_def default_pipe_def)

end
