(* ===== verification/Lossy_Exchange.thy ===== *)
theory Lossy_Exchange
  imports Recovery Exchange Progress_Properties
begin

text \<open>
  Exchanges between two endpoints of the tests when frames are lost on the way: of a packet, any of
  its DATA frames or of the acknowledgments for it. Every loss costs one retransmission after one
  timeout; as long as there are no more losses than retries, the exchange completes and the payload
  is delivered once.
\<close>

section \<open>The clock\<close>

lemma clock_fires: "d \<le> ticks_now c \<Longrightarrow> \<exists>c'. clock_poll_deadline cx d c = (Ready (), c') \<and> ticks_now c' = ticks_now c"
  by (simp add: clock_poll_deadline_def)

interpretation endpoint_timed: timed_link "endpoint_params n" "faultless n"
  "\<lambda>t. queue (incoming t)" carried "\<lambda>bs h. h" "\<lambda>bs h. h @ bs" ticks_now for n
  by (intro timed_link.intro endpoint_prompt.prompt_link_axioms timed_link_axioms.intro)
    (simp add: endpoint_params_def clock_ops_def clock_fires)

type_synonym endpoint_conn = "(endpoint, fake_clock, string) reliable"

text \<open>One retransmission timeout passes.\<close>

definition later :: "endpoint_conn \<Rightarrow> endpoint_conn option" where
  "later s = map_option (\<lambda>(_, c). s\<lparr>timer := c\<rparr>) (advance (retransmit_timeout (config s)) (timer s))"

text \<open>The clock does not overflow for \<open>k\<close> timeouts more.\<close>

definition clock_room :: "nat \<Rightarrow> ('t, fake_clock, 'e) reliable \<Rightarrow> bool" where
  "clock_room k s \<longleftrightarrow> 0 < retransmit_timeout (config s) \<and>
     unat (ticks_now (timer s)) + k * unat (retransmit_timeout (config s)) < 2 ^ 64"

lemma clock_room_mono: "clock_room k s \<Longrightarrow> j \<le> k \<Longrightarrow> clock_room j s"
  unfolding clock_room_def by (meson add_left_mono le_less_trans mult_le_mono1)

lemma clock_room_cong:
  "config s = config s' \<Longrightarrow> ticks_now (timer s) = ticks_now (timer s') \<Longrightarrow> clock_room k s = clock_room k s'"
  by (simp add: clock_room_def)

lemma clock_room_deadline:
  assumes "clock_room (Suc k) s"
  shows "saturating_add (ticks_now (timer s)) (retransmit_timeout (config s)) =
      ticks_now (timer s) + retransmit_timeout (config s)"
    and "ticks_now (timer s) < saturating_add (ticks_now (timer s)) (retransmit_timeout (config s))"
    and "unat (ticks_now (timer s) + retransmit_timeout (config s)) =
      unat (ticks_now (timer s)) + unat (retransmit_timeout (config s))"
proof -
  from assms have room: "unat (ticks_now (timer s)) + unat (retransmit_timeout (config s)) < 2 ^ 64"
    and pos: "0 < unat (retransmit_timeout (config s))"
    by (auto simp: clock_room_def unat_gt_0 word_greater_zero_iff)
  then show sat: "saturating_add (ticks_now (timer s)) (retransmit_timeout (config s)) =
      ticks_now (timer s) + retransmit_timeout (config s)"
    by (simp add: saturating_add_def)
  show sum: "unat (ticks_now (timer s) + retransmit_timeout (config s)) =
      unat (ticks_now (timer s)) + unat (retransmit_timeout (config s))"
    using room by (subst unat_word_ariths(1)) simp
  show "ticks_now (timer s) < saturating_add (ticks_now (timer s)) (retransmit_timeout (config s))"
    unfolding sat using sum pos by (simp add: word_less_nat_alt)
qed

lemma later_ok:
  assumes "clock_room (Suc k) s"
  shows "\<exists>c. later s = Some (s\<lparr>timer := c\<rparr>) \<and>
    ticks_now c = saturating_add (ticks_now (timer s)) (retransmit_timeout (config s)) \<and>
    clock_room k (s\<lparr>timer := c\<rparr>)"
proof -
  note d = clock_room_deadline [OF assms]
  have "add_checked (ticks_now (timer s)) (retransmit_timeout (config s)) =
      Some (ticks_now (timer s) + retransmit_timeout (config s))"
    using assms by (auto simp: add_checked_def clock_room_def)
  moreover have "unat (ticks_now (timer s)) + unat (retransmit_timeout (config s)) +
      k * unat (retransmit_timeout (config s)) < 2 ^ 64"
    using assms by (simp add: clock_room_def algebra_simps)
  ultimately show ?thesis
    using assms d(1,3) by (auto simp: later_def advance_def Let_def clock_room_def)
qed

section \<open>An exchange with losses\<close>

datatype loss = Data_Lost | Ack_Lost

text \<open>The result of a poll that has completed without an error\<close>

definition ready_ok :: "('x + 'a) poll \<Rightarrow> 'a option" where
  "ready_ok r = (case r of Ready (Inr x) \<Rightarrow> Some x | _ \<Rightarrow> None)"

lemma ready_ok_simps [simp]:
  "ready_ok (Ready (Inr x)) = Some x" "ready_ok (Ready (Inl e)) = None" "ready_ok Pending = None"
  by (simp_all add: ready_ok_def)

text \<open>The bytes an endpoint has passed on between two states of its connection\<close>

definition passed_on :: "endpoint_conn \<Rightarrow> endpoint_conn \<Rightarrow> u8 list" where
  "passed_on s s' = drop (length (carried (transport s))) (carried (transport s'))"

text \<open>
  Each loss in turn: \<open>data\<close> is lost, or reaches the peer, which answers in vain. Then a timeout
  passes, and a flush of the sender passes on the frame again, or reports an error.
\<close>

fun attempts ::
  "nat \<Rightarrow> waker \<Rightarrow> waker \<Rightarrow> loss list \<Rightarrow> u8 list \<Rightarrow> endpoint_conn \<Rightarrow> endpoint_conn \<Rightarrow>
     (string connection_error + u8 list \<times> endpoint_conn \<times> endpoint_conn) option" where
  "attempts n cxa cxb [] data a b = Some (Inr (data, a, b))"
| "attempts n cxa cxb (l # ls) data a b = do {
     b1 \<leftarrow> (case l of
              Data_Lost \<Rightarrow> Some b
            | Ack_Lost \<Rightarrow>
                map_option snd (poll_progress (endpoint_params n) cxb (hears (inject_incoming data) b)));
     a0 \<leftarrow> later a;
     (f, a1) \<leftarrow> poll_flush (endpoint_params n) cxa a0;
     case f of
       Ready (Inl e) \<Rightarrow> Some (Inl e)
     | Ready (Inr _) \<Rightarrow> None
     | Pending \<Rightarrow> attempts n cxa cxb ls (passed_on a a1) a1 b1
   }"

text \<open>
  A write, the losses, and then a delivery that succeeds: the number of bytes taken, the bytes read
  by the peer and both connections, or the error reported to the sender.
\<close>

definition lossy_exchange ::
  "nat \<Rightarrow> waker \<Rightarrow> waker \<Rightarrow> loss list \<Rightarrow> u8 list \<Rightarrow> endpoint_conn \<Rightarrow> endpoint_conn \<Rightarrow>
     (string connection_error + nat \<times> u8 list \<times> endpoint_conn \<times> endpoint_conn) option" where
  "lossy_exchange n cxa cxb ls buf a b = do {
     (w, a1) \<leftarrow> poll_write (endpoint_params n) cxa buf a;
     taken \<leftarrow> ready_ok w;
     result \<leftarrow> attempts n cxa cxb ls (passed_on a a1) a1 b;
     case result of
       Inl e \<Rightarrow> Some (Inl e)
     | Inr (data, a2, b1) \<Rightarrow> do {
         (_, b2) \<leftarrow> poll_progress (endpoint_params n) cxb (hears (inject_incoming data) b1);
         (f, a3) \<leftarrow> poll_flush (endpoint_params n) cxa (hears (inject_incoming (passed_on b1 b2)) a2);
         _ \<leftarrow> ready_ok f;
         (r, into, b3) \<leftarrow> poll_read (endpoint_params n) cxb (replicate (max_payload n) 0) b2;
         got \<leftarrow> ready_ok r;
         Some (Inr (taken, take got into, a3, b3))
       }
   }"

section \<open>A packet under way\<close>

text \<open>
  The first connection waits for the acknowledgment of a packet that the second has not found yet, or
  retains.
\<close>

definition under_way :: "nat \<Rightarrow> u32 \<Rightarrow> u8 list \<Rightarrow> endpoint_conn \<Rightarrow> endpoint_conn \<Rightarrow> bool" where
  "under_way n q payload a b \<longleftrightarrow>
     conn_inv (endpoint_params n) (faultless n) a \<and> conn_inv (endpoint_params n) (faultless n) b \<and>
     queue (incoming (transport a)) = [] \<and> queue (incoming (transport b)) = [] \<and>
     awaits_packet (Data (session (config a)) q payload) a \<and> at_rest b \<and>
     session (config b) = session (config a) \<and> unat (tx_next a) = unat q + 1 \<and>
     payload \<noteq> [] \<and> length payload \<le> max_payload n \<and>
     tx_deadline a = saturating_add (ticks_now (timer a)) (retransmit_timeout (config a)) \<and>
     (rx_next b = ucast q \<and> rx_start b = rx_end b \<or> unat (rx_next b) = unat q + 1 \<and> slot_holds payload b)"

definition data_of :: "u32 \<Rightarrow> u8 list \<Rightarrow> endpoint_conn \<Rightarrow> u8 list" where
  "data_of q payload s = packet_frame (Data (session (config s)) q payload)"

definition ack_of :: "u32 \<Rightarrow> endpoint_conn \<Rightarrow> u8 list" where
  "ack_of q s = packet_frame (Ack (session (config s)) q)"

lemma endpoint_MAX_PAYLOAD: "MAX_PAYLOAD (endpoint_params n) = max_payload n"
  by (simp add: MAX_PAYLOAD_def endpoint_params_def)

lemma passed_on_append: "carried (transport s') = carried (transport s) @ bs \<Longrightarrow> passed_on s s' = bs"
  by (simp add: passed_on_def)

lemma hears_endpoint:
  assumes "conn_inv (endpoint_params n) (faultless n) s" "queue (incoming (transport s)) = []"
  shows "conn_inv (endpoint_params n) (faultless n) (hears (inject_incoming bs) s)"
    and "queue (incoming (transport (hears (inject_incoming bs) s))) = bs"
    and "carried (transport (hears (inject_incoming bs) s)) = carried (transport s)"
  using inject_faultless [OF conn_inv_parts(2) [OF assms(1)] assms(2), of bs] assms(1)
  by (simp_all add: hears_inv)

lemma write_under_way:
  assumes "exchange_ready (endpoint_params n) (faultless n) (\<lambda>t. queue (incoming t)) a b"
    and "buf \<noteq> []" "payload = take (min (length buf) (max_payload n)) buf"
    and "unat (tx_next a) < 2 ^ 32" "clock_room (Suc k) a" "q = ucast (tx_next a)"
  shows "\<exists>a1. poll_write (endpoint_params n) cxa buf a = Some (Ready (Inr (length payload)), a1) \<and>
    under_way n q payload a1 b \<and> passed_on a a1 = data_of q payload a1 \<and>
    tx_retries a1 = 0 \<and> config a1 = config a \<and> tx_next a1 = tx_next a + 1 \<and> clock_room (Suc k) a1"
proof -
  note ready = assms(1) [unfolded exchange_ready_def]
  have pl: "payload = take (min (length buf) (MAX_PAYLOAD (endpoint_params n))) buf"
    using assms(3) by (simp add: endpoint_MAX_PAYLOAD)
  have "0 < max_payload n" "length payload \<le> max_payload n" "payload \<noteq> []"
    using assms(2,3) ready conn_inv_parts(3) [of "endpoint_params n" "faultless n" a]
    by (auto simp: buffers_inv_def endpoint_MAX_PAYLOAD)
  moreover have "unat (tx_next a + 1) = unat (tx_next a) + 1"
    using add_checked_u64 [of "tx_next a"] assms(4) by simp
  moreover have q: "ucast q = tx_next a"
    using assms(4,6) by (intro word_unat_eq_iff [THEN iffD2])
      (simp add: unsigned_ucast_eq unsigned_take_bit_eq take_bit_nat_eq_self_iff)
  moreover from arg_cong [OF this, of unat] have "unat q = unat (tx_next a)" by simp
  moreover from endpoint_prompt.write_prompt [OF _ _ _ assms(2,4) clock_room_deadline(2) [OF assms(5)] pl, of cxa]
    ready obtain a1 where "poll_write (endpoint_params n) cxa buf a = Some (Ready (Inr (length payload)), a1)"
      "conn_inv (endpoint_params n) (faultless n) a1" "awaits_ack a1" "queue (incoming (transport a1)) = []"
      "carried (transport a1) = carried (transport a) @ packet_frame (Data (session (config a)) q payload)"
      "config a1 = config a" "tx_next a1 = tx_next a + 1" "ticks_now (timer a1) = ticks_now (timer a)"
      "tx_deadline a1 = saturating_add (ticks_now (timer a)) (retransmit_timeout (config a))"
      "tx_retries a1 = 0" "holds_frame (tx_frame a1) (tx_len a1) (Data (session (config a)) q payload)"
    unfolding assms(6) by blast
  ultimately show ?thesis
    using ready assms(5) clock_room_cong [of a1 a]
    by (intro exI [of _ a1]) (simp add: under_way_def awaits_packet_def data_of_def passed_on_append)
qed

text \<open>The peer finds the packet and answers, whether it is new to it or not.\<close>

lemma answer_under_way:
  assumes "under_way n q payload a b"
  shows "\<exists>b1. poll_progress (endpoint_params n) cxb (hears (inject_incoming (data_of q payload a)) b) =
      Some (Pending, b1) \<and> under_way n q payload a b1 \<and> passed_on b b1 = ack_of q a \<and>
    slot_holds payload b1 \<and> unat (rx_next b1) = unat q + 1 \<and> config b1 = config b"
proof -
  note u = assms [unfolded under_way_def]
  let ?b = "hears (inject_incoming (data_of q payload a)) b"
  have inv: "conn_inv (endpoint_params n) (faultless n) ?b"
      "queue (incoming (transport ?b)) = packet_frame (Data (session (config ?b)) q payload)"
      "carried (transport ?b) = carried (transport b)"
    using hears_endpoint [of n b "data_of q payload a"] u by (simp_all add: data_of_def)
  have same: "slot_holds payload ?b = slot_holds payload b" by (simp add: slot_holds_def hears_def)
  have fresh: "at_rest ?b" "length payload \<le> MAX_PAYLOAD (endpoint_params n)"
    using u by (simp_all add: endpoint_MAX_PAYLOAD)
  have slot: "rx_next ?b = ucast q \<and> rx_start ?b = rx_end ?b \<or> unat (rx_next ?b) = unat q + 1 \<and> slot_holds payload ?b"
    using u unfolding same hears_fields by blast
  from endpoint_timed.progress_acks [OF inv(1) fresh(1) _ fresh(2) slot inv(2), of cxb] u obtain b1 where
    "poll_progress (endpoint_params n) cxb ?b = Some (Pending, b1)"
    "conn_inv (endpoint_params n) (faultless n) b1" "at_rest b1" "queue (incoming (transport b1)) = []"
    "carried (transport b1) = carried (transport b) @ ack_of q a"
    "config b1 = config b" "unat (rx_next b1) = unat q + 1" "slot_holds payload b1"
    by (auto simp: inv(3) [simplified] ack_of_def)
  then show ?thesis
    using u by (intro exI [of _ b1]) (simp add: under_way_def passed_on_append)
qed

text \<open>A timeout later the sender passes the frame on again, or gives up.\<close>

lemma retry_under_way:
  assumes "under_way n q payload a b" "clock_room (Suc (Suc k)) a"
  shows "\<exists>a0 a1. later a = Some a0 \<and>
    (if tx_retries a < max_retries (config a)
     then poll_flush (endpoint_params n) cxa a0 = Some (Pending, a1) \<and> under_way n q payload a1 b \<and>
       passed_on a a1 = data_of q payload a1 \<and> tx_retries a1 = tx_retries a + 1 \<and>
       config a1 = config a \<and> tx_next a1 = tx_next a \<and> clock_room (Suc k) a1
     else poll_flush (endpoint_params n) cxa a0 = Some (Ready (Inl Timeout), a1))"
proof -
  note u = assms(1) [unfolded under_way_def]
  obtain c where c: "later a = Some (a\<lparr>timer := c\<rparr>)" "clock_room (Suc k) (a\<lparr>timer := c\<rparr>)"
      "ticks_now c = saturating_add (ticks_now (timer a)) (retransmit_timeout (config a))"
    using later_ok [OF assms(2)] by blast
  let ?a = "a\<lparr>timer := c\<rparr>"
  have inv: "conn_inv (endpoint_params n) (faultless n) ?a" using u by (simp add: conn_inv_timer(2))
  have "awaits_packet p ?a = awaits_packet p a" for p by (simp add: awaits_packet_def awaits_ack_def)
  then have wait: "awaits_packet (Data (session (config a)) q payload) ?a" "awaits_ack ?a"
      "queue (incoming (transport ?a)) = []" "tx_deadline ?a \<le> ticks_now (timer ?a)"
    using u c(3) by (blast, simp_all add: awaits_packet_def awaits_ack_def)
  show ?thesis
  proof (cases "tx_retries a < max_retries (config a)")
    case True
    then have "tx_retries ?a < max_retries (config ?a)" by simp
    from endpoint_timed.flush_resends [OF inv wait(1,3,4) this clock_room_deadline(2) [OF c(2)], of cxa]
    obtain a1 where "poll_flush (endpoint_params n) cxa ?a = Some (Pending, a1)"
        "conn_inv (endpoint_params n) (faultless n) a1" "queue (incoming (transport a1)) = []"
        "awaits_packet (Data (session (config a)) q payload) a1"
        "carried (transport a1) = carried (transport a) @ packet_frame (Data (session (config a)) q payload)"
        "config a1 = config a" "tx_next a1 = tx_next a" "ticks_now (timer a1) = ticks_now c"
        "tx_retries a1 = tx_retries a + 1"
        "tx_deadline a1 = saturating_add (ticks_now c) (retransmit_timeout (config a))"
      by auto
    with True u c clock_room_cong [of a1 ?a] show ?thesis
      by (intro exI [of _ ?a] exI [of _ a1]) (simp add: under_way_def data_of_def passed_on_append)
  next
    case False
    with endpoint_timed.flush_gives_up [OF inv wait(2-4), of cxa] c(1) show ?thesis by auto
  qed
qed

section \<open>The losses\<close>

lemma attempts_result:
  assumes "under_way n q payload a b" "clock_room (length ls + Suc k) a" "data = data_of q payload a"
  shows "if unat (tx_retries a) + length ls \<le> unat (max_retries (config a))
    then \<exists>a1 b1. attempts n cxa cxb ls data a b = Some (Inr (data, a1, b1)) \<and> under_way n q payload a1 b1 \<and>
      config a1 = config a \<and> tx_next a1 = tx_next a \<and> clock_room (Suc k) a1
    else attempts n cxa cxb ls data a b = Some (Inl Timeout)"
  using assms
proof (induction ls arbitrary: a b)
  case Nil
  have "unat (tx_retries a) \<le> unat (max_retries (config a))"
    using Nil(1) conn_inv_parts(4) [of "endpoint_params n" "faultless n" a]
    by (simp add: under_way_def tx_inv_def word_le_nat_alt)
  with Nil show ?case by auto
next
  case (Cons l ls)
  obtain b1 where b1: "under_way n q payload a b1" "(case l of
        Data_Lost \<Rightarrow> Some b
      | Ack_Lost \<Rightarrow> map_option snd (poll_progress (endpoint_params n) cxb (hears (inject_incoming data) b))) = Some b1"
    using answer_under_way [OF Cons.prems(1), of cxb] Cons.prems(1,3) by (cases l) auto
  have "clock_room (Suc (Suc (length ls + k))) a" using Cons.prems(2) by simp
  from retry_under_way [OF b1(1) this, of cxa] obtain a0 a1 where a0: "later a = Some a0" and
    r: "if tx_retries a < max_retries (config a)
     then poll_flush (endpoint_params n) cxa a0 = Some (Pending, a1) \<and> under_way n q payload a1 b1 \<and>
       passed_on a a1 = data_of q payload a1 \<and> tx_retries a1 = tx_retries a + 1 \<and>
       config a1 = config a \<and> tx_next a1 = tx_next a \<and> clock_room (Suc (length ls + k)) a1
     else poll_flush (endpoint_params n) cxa a0 = Some (Ready (Inl Timeout), a1)"
    by blast
  show ?case
  proof (cases "tx_retries a < max_retries (config a)")
    case True
    with r have r: "poll_flush (endpoint_params n) cxa a0 = Some (Pending, a1)" "under_way n q payload a1 b1"
       "passed_on a a1 = data_of q payload a1" "tx_retries a1 = tx_retries a + 1"
       "config a1 = config a" "tx_next a1 = tx_next a" "clock_room (length ls + Suc k) a1"
      by auto
    have "unat (tx_retries a + 1) = unat (tx_retries a) + 1"
      using add_checked_less(1) [OF True] by (rule add_checked_unat)
    moreover have data: "passed_on a a1 = data" using r(3,5) Cons.prems(3) by (simp add: data_of_def)
    ultimately show ?thesis
      using Cons.IH [OF r(2,7)] r(1,3,4-6) a0 b1(2) by (simp split: if_splits)
  next
    case False
    then have "\<not> unat (tx_retries a) + length (l # ls) \<le> unat (max_retries (config a))"
      by (simp add: word_less_nat_alt)
    with r False a0 b1(2) show ?thesis by simp
  qed
qed

section \<open>The exchange\<close>

text \<open>Nothing is lost any more: the packet arrives, the acknowledgment too, and the payload is read.\<close>

lemma deliver_under_way:
  assumes "under_way n q payload a b"
  shows "\<exists>b1 a1 b2.
    poll_progress (endpoint_params n) cxb (hears (inject_incoming (data_of q payload a)) b) = Some (Pending, b1) \<and>
    poll_flush (endpoint_params n) cxa (hears (inject_incoming (passed_on b b1)) a) = Some (Ready (Inr ()), a1) \<and>
    poll_read (endpoint_params n) cxb (replicate (max_payload n) 0) b1 =
      Some (Ready (Inr (length payload)), payload @ drop (length payload) (replicate (max_payload n) 0), b2) \<and>
    exchange_ready (endpoint_params n) (faultless n) (\<lambda>t. queue (incoming t)) a1 b2 \<and>
    config a1 = config a \<and> tx_next a1 = tx_next a \<and> ticks_now (timer a1) = ticks_now (timer a)"
proof -
  from answer_under_way [OF assms, of cxb] obtain b1 where
    b1: "poll_progress (endpoint_params n) cxb (hears (inject_incoming (data_of q payload a)) b) = Some (Pending, b1)"
      "under_way n q payload a b1" "passed_on b b1 = ack_of q a" "slot_holds payload b1"
      "unat (rx_next b1) = unat q + 1"
    by blast
  note u = b1(2) [unfolded under_way_def]
  let ?a = "hears (inject_incoming (ack_of q a)) a"
  have inv: "conn_inv (endpoint_params n) (faultless n) ?a"
      "queue (incoming (transport ?a)) = packet_frame (Ack (session (config ?a)) q)"
    using hears_endpoint [of n a "ack_of q a"] u by (simp_all add: ack_of_def)
  have "awaits_ack ?a" "unat q + 1 = unat (tx_next ?a)" using u by (simp_all add: awaits_packet_def)
  from endpoint_prompt.flush_prompt [OF inv(1) this inv(2), of cxa] obtain a1 where
    a1: "poll_flush (endpoint_params n) cxa ?a = Some (Ready (Inr ()), a1)"
      "conn_inv (endpoint_params n) (faultless n) a1" "at_rest a1" "queue (incoming (transport a1)) = []"
      "config a1 = config a" "tx_next a1 = tx_next a" "ticks_now (timer a1) = ticks_now (timer a)"
    by auto
  have "length payload \<le> length (replicate (max_payload n) (0 :: u8))" using u by simp
  from endpoint_timed.read_rest [OF _ _ _ b1(4) _ this, of n cxb] u obtain b2 where
    b2: "poll_read (endpoint_params n) cxb (replicate (max_payload n) 0) b1 =
        Some (Ready (Inr (length payload)), payload @ drop (length payload) (replicate (max_payload n) 0), b2)"
      "conn_inv (endpoint_params n) (faultless n) b2" "at_rest b2" "queue (incoming (transport b2)) = []"
      "config b2 = config b1" "rx_next b2 = rx_next b1" "rx_start b2 = rx_end b2"
    by blast
  have "tx_next a1 = rx_next b2" using a1(6) b2(6) b1(5) u by (auto simp: word_unat_eq_iff)
  then have "exchange_ready (endpoint_params n) (faultless n) (\<lambda>t. queue (incoming t)) a1 b2"
    using a1(2-5) b2(2-5,7) u by (simp add: exchange_ready_def)
  with a1(1,5-7) b1(1,3) b2(1) show ?thesis by auto
qed

lemma lossy_exchange_result:
  assumes "exchange_ready (endpoint_params n) (faultless n) (\<lambda>t. queue (incoming t)) a b"
    and "buf \<noteq> []" "payload = take (min (length buf) (max_payload n)) buf"
    and "unat (tx_next a) < 2 ^ 32" "clock_room (length ls + Suc k) a"
  shows "if length ls \<le> unat (max_retries (config a))
    then \<exists>a' b'. lossy_exchange n cxa cxb ls buf a b = Some (Inr (length payload, payload, a', b')) \<and>
      exchange_ready (endpoint_params n) (faultless n) (\<lambda>t. queue (incoming t)) a' b' \<and>
      config a' = config a \<and> tx_next a' = tx_next a + 1 \<and> clock_room (Suc k) a'
    else lossy_exchange n cxa cxb ls buf a b = Some (Inl Timeout)"
proof -
  define q :: u32 where "q = ucast (tx_next a)"
  have "clock_room (Suc (length ls + k)) a" using assms(5) by simp
  from write_under_way [OF assms(1-4) this q_def, of cxa] obtain a1 where
    a1: "poll_write (endpoint_params n) cxa buf a = Some (Ready (Inr (length payload)), a1)"
      "under_way n q payload a1 b" "passed_on a a1 = data_of q payload a1" "tx_retries a1 = 0"
      "config a1 = config a" "tx_next a1 = tx_next a + 1" "clock_room (length ls + Suc k) a1"
    by auto
  note result = attempts_result [OF a1(2,7) refl, of cxa cxb]
  show ?thesis
  proof (cases "length ls \<le> unat (max_retries (config a))")
    case False
    with result a1(1,3-5) show ?thesis by (simp add: lossy_exchange_def)
  next
    case True
    with result a1(4-6) obtain a2 b1 where
      r: "attempts n cxa cxb ls (data_of q payload a1) a1 b = Some (Inr (data_of q payload a1, a2, b1))"
        "under_way n q payload a2 b1" "config a2 = config a" "tx_next a2 = tx_next a + 1" "clock_room (Suc k) a2"
      by auto
    have data: "data_of q payload a1 = data_of q payload a2" using r(3) a1(5) by (simp add: data_of_def)
    from deliver_under_way [OF r(2), of cxb cxa] obtain b2 a3 b3 where
      d: "poll_progress (endpoint_params n) cxb (hears (inject_incoming (data_of q payload a2)) b1) = Some (Pending, b2)"
        "poll_flush (endpoint_params n) cxa (hears (inject_incoming (passed_on b1 b2)) a2) = Some (Ready (Inr ()), a3)"
        "poll_read (endpoint_params n) cxb (replicate (max_payload n) 0) b2 =
          Some (Ready (Inr (length payload)), payload @ drop (length payload) (replicate (max_payload n) 0), b3)"
        "exchange_ready (endpoint_params n) (faultless n) (\<lambda>t. queue (incoming t)) a3 b3"
        "config a3 = config a2" "tx_next a3 = tx_next a2" "ticks_now (timer a3) = ticks_now (timer a2)"
      by blast
    have "lossy_exchange n cxa cxb ls buf a b = Some (Inr (length payload, payload, a3, b3))"
      using a1(1,3) r(1) d(1-3) by (simp add: lossy_exchange_def data)
    moreover have "clock_room (Suc k) a3" using r(5) d(5,7) clock_room_cong [of a3 a2] by simp
    ultimately show ?thesis using True r(3,4) d(4-6) by auto
  qed
qed

end
