(* ===== verification/Whole_Buffer.thy ===== *)
theory Whole_Buffer
  imports Lossy_Exchange
begin

text \<open>
  A whole buffer sent from one endpoint of the tests to the other: exchanges repeated, each with what
  the write before it has not taken and each with losses of its own. The peer gets exactly the
  buffer.
\<close>

abbreviation endpoints_ready :: "nat \<Rightarrow> endpoint_conn \<Rightarrow> endpoint_conn \<Rightarrow> bool" where
  "endpoints_ready n \<equiv> exchange_ready (endpoint_params n) (faultless n) (\<lambda>t. queue (incoming t))"

section \<open>The whole buffer\<close>

text \<open>
  One exchange for each list of losses, until nothing is left. None when a poll does not complete or
  the exchanges do not suffice; an error reported to the sender ends the transfer.
\<close>

primrec send_whole ::
  "nat \<Rightarrow> waker \<Rightarrow> waker \<Rightarrow> loss list list \<Rightarrow> u8 list \<Rightarrow> endpoint_conn \<Rightarrow> endpoint_conn \<Rightarrow>
     (string connection_error + u8 list \<times> endpoint_conn \<times> endpoint_conn) option" where
  "send_whole n cxa cxb [] buf a b = (if buf = [] then Some (Inr ([], a, b)) else None)"
| "send_whole n cxa cxb (ls # lss) buf a b =
    (if buf = [] then Some (Inr ([], a, b))
     else do {
       result \<leftarrow> lossy_exchange n cxa cxb ls buf a b;
       case result of
         Inl e \<Rightarrow> Some (Inl e)
       | Inr (taken, got, a1, b1) \<Rightarrow> do {
           result \<leftarrow> send_whole n cxa cxb lss (drop taken buf) a1 b1;
           case result of
             Inl e \<Rightarrow> Some (Inl e)
           | Inr (rest, a', b') \<Rightarrow> Some (Inr (got @ rest, a', b'))
         }
     })"

lemma send_whole_all:
  assumes "endpoints_ready n a b" "length buf \<le> length lss * max_payload n"
    and "unat (tx_next a) + length lss \<le> 2 ^ 32"
    and "\<forall>ls \<in> set lss. length ls \<le> unat (max_retries (config a))"
    and "clock_room (sum_list (map length lss) + 1) a"
  shows "\<exists>a' b'. send_whole n cxa cxb lss buf a b = Some (Inr (buf, a', b')) \<and> endpoints_ready n a' b'"
  using assms
proof (induction lss arbitrary: buf a b)
  case (Cons ls lss)
  show ?case
  proof (cases "buf = []")
    case False
    define p where "p = take (min (length buf) (max_payload n)) buf"
    let ?k = "sum_list (map length lss)"
    have p: "p @ drop (length p) buf = buf" "drop (length p) buf = drop (max_payload n) buf"
      by (simp_all add: p_def min_def)
    have seq: "unat (tx_next a) < 2 ^ 32" "clock_room (length ls + Suc ?k) a"
      using Cons.prems(3,5) by simp_all
    from lossy_exchange_result [OF Cons.prems(1) False p_def seq, of cxa cxb] Cons.prems(4) obtain a1 b1 where
      x: "lossy_exchange n cxa cxb ls buf a b = Some (Inr (length p, p, a1, b1))"
        "endpoints_ready n a1 b1" "config a1 = config a" "tx_next a1 = tx_next a + 1" "clock_room (?k + 1) a1"
      by auto
    have "length (drop (length p) buf) \<le> length lss * max_payload n"
      using Cons.prems(2) unfolding p(2) by simp
    moreover have "unat (tx_next a1) = unat (tx_next a) + 1"
      using add_checked_u64 [of "tx_next a"] seq(1) by (simp add: x(4))
    then have "unat (tx_next a1) + length lss \<le> 2 ^ 32" using Cons.prems(3) by simp
    moreover have "\<forall>ls \<in> set lss. length ls \<le> unat (max_retries (config a1))"
      using Cons.prems(4) by (simp add: x(3))
    ultimately obtain a' b' where "send_whole n cxa cxb lss (drop (length p) buf) a1 b1 =
        Some (Inr (drop (length p) buf, a', b'))" "endpoints_ready n a' b'"
      using Cons.IH [OF x(2) _ _ _ x(5)] by blast
    then show ?thesis using False x(1) p(1) by simp
  qed (use Cons.prems(1) in simp)
qed simp

text \<open>Two new connections, for the witnesses\<close>

lemma max_payload_32: "3 \<le> max_payload 32"
  using max_payload_iff [of 3 32]
  by (simp add: OVERHEAD_17 max_encoding_length_def max_encoding_overhead_def div_ceil_254)

lemma example_ready:
  "\<exists>s. new_reliable (endpoint_params 32) (new_endpoint 32) default_clock (new_config 7) = Inr s \<and>
     endpoints_ready 32 s s \<and> tx_next s = 0 \<and> config s = new_config 7 \<and> timer s = default_clock"
proof -
  obtain s where s: "new_reliable (endpoint_params 32) (new_endpoint 32) default_clock (new_config 7) = Inr s"
    using new_reliable_cases(1) [of "endpoint_params 32" "new_endpoint 32" default_clock "new_config 7"]
    by (auto simp: endpoint_params_def)
  have "endpoints_ready 32 s s"
    using new_endpoint_faultless [of 32 32] by (intro new_exchange_ready [OF s s]) simp_all
  with s show ?thesis by (auto simp: new_reliable_fields [OF s])
qed

end
