(* ===== verification/Retries.thy ===== *)
theory Retries
  imports End_To_End Sequence
begin

text \<open>
  How often a packet is sent: the DATA frames of each sequence number on the tape, counted along the
  operations of a run. A frame counts from the moment the connection starts to write it.
\<close>

section \<open>Counting frames\<close>

definition carries_seq :: "u32 \<Rightarrow> packet \<Rightarrow> bool" where
  "carries_seq q p \<longleftrightarrow> (case p of Data _ q' _ \<Rightarrow> q' = q | Ack _ _ \<Rightarrow> False)"

definition data_frames :: "nat \<Rightarrow> u32 \<Rightarrow> u8 list \<Rightarrow> nat" where
  "data_frames n q bytes = length (filter (carries_seq q) (wire_packets n bytes))"

definition last_seq :: "('t, 'c, 'e) reliable \<Rightarrow> u32" where
  "last_seq s = ucast (tx_next s - 1)"

definition data_writing :: "out \<Rightarrow> bool" where
  "data_writing x \<longleftrightarrow> (\<exists>k. x = Writing DataFrame k)"

lemma data_writing_simps [simp]:
  "\<not> data_writing OutIdle" "\<not> data_writing (Flushing fr)" "data_writing (Writing DataFrame k)"
  "\<not> data_writing (Writing AckFrame k)"
  by (simp_all add: data_writing_def)

definition started :: "nat \<Rightarrow> u32 \<Rightarrow> ('t tape, 'c, 'e) reliable \<Rightarrow> nat" where
  "started n q s =
     data_frames n q (tape_out (transport s)) + (if data_writing (out s) \<and> q = last_seq s then 1 else 0)"

definition retry_ok :: "nat \<Rightarrow> ('t tape, 'c, 'e) reliable \<Rightarrow> bool" where
  "retry_ok n s \<longleftrightarrow>
     (\<forall>q. started n q s \<le> unat (max_retries (config s)) + 1) \<and>
     (\<forall>q. unat (tx_next s) \<le> unat q \<longrightarrow> started n q s = 0) \<and>
     (tx s \<noteq> TxIdle \<longrightarrow>
        started n (last_seq s) s = unat (tx_retries s) + (if tx s = TxQueued then 0 else 1))"

text \<open>What leaves the count alone\<close>

definition same_sending :: "('t tape, 'c, 'e) reliable \<Rightarrow> ('t tape, 'c, 'e) reliable \<Rightarrow> bool" where
  "same_sending s s' \<longleftrightarrow>
     tape_out (transport s') = tape_out (transport s) \<and> data_writing (out s') = data_writing (out s) \<and>
     tx_next s' = tx_next s \<and> config s' = config s \<and>
     (tx s' = TxIdle \<or>
        tx s \<noteq> TxIdle \<and> (tx s' = TxQueued \<longleftrightarrow> tx s = TxQueued) \<and> tx_retries s' = tx_retries s)"

lemma same_sending_ok: "retry_ok n s \<Longrightarrow> same_sending s s' \<Longrightarrow> retry_ok n s'"
  by (auto simp: retry_ok_def same_sending_def started_def last_seq_def)

lemma same_sending_refl [simp]: "same_sending s s"
  by (auto simp: same_sending_def)

section \<open>Along the engine\<close>

text \<open>Input only ever releases the packet under way.\<close>

definition releases :: "('t, 'c, 'e) reliable \<Rightarrow> ('t, 'c, 'e) reliable \<Rightarrow> bool" where
  "releases s s' \<longleftrightarrow> tx s' = TxIdle \<or> tx s' = tx s \<and> tx_retries s' = tx_retries s"

lemma releases_trans: "releases s s' \<Longrightarrow> releases s' s'' \<Longrightarrow> releases s s''"
  by (auto simp: releases_def)

lemma process_frame_releases: "process_frame P stop s = Some s' \<Longrightarrow> releases s s'"
  by (auto simp: process_frame_def process_packet_def releases_def elim!: bind_SomeE
      split: prod.splits sum.splits option.splits packet.splits if_splits)

lemma process_input_releases: "process_input P s = Some s' \<Longrightarrow> releases s s'"
proof (induction P s rule: process_input.induct)
  case (1 P s)
  from "1.prems" obtain bytes where r: "slice 0 (rx_len s) (rx_buf s) = Some bytes"
    by (subst (asm) process_input.simps) (auto elim!: bind_SomeE)
  show ?case
  proof (cases "position (\<lambda>byte. byte = 0) bytes")
    case None
    with "1.prems" r show ?thesis
      by (subst (asm) process_input.simps) (auto simp: releases_def split: if_splits)
  next
    case (Some stop)
    with "1.prems" r obtain s1 buf n where
      h: "handle_frame P stop s = Some s1" "copy_within (stop + 1) (rx_len s1) 0 (rx_buf s1) = Some buf"
        "sub_checked (rx_len s1) (stop + 1) = Some n"
      and rest: "process_input P (s1\<lparr>rx_buf := buf, rx_len := n\<rparr>) = Some s'"
      by (subst (asm) process_input.simps) (auto elim!: bind_SomeE)
    have "releases s s1"
      using h(1) by (auto simp: handle_frame_def releases_def split: if_splits
          dest: process_frame_releases [unfolded releases_def])
    moreover have "releases s1 s'" using "1.IH" [OF r Some h rest] by (simp add: releases_def)
    ultimately show ?thesis by (rule releases_trans)
  qed
qed

lemma poll_input_sending:
  assumes "poll_input (taped P) cx (b, s) = Some (r, b', s')"
  shows "same_sending s s'"
proof (cases "fst (spend b)")
  case True
  with assms obtain free w free' t where
    w: "tape_read (link P) cx free (transport s) = Some (w, free', t)"
    and s': "s' = s\<lparr>transport := t, rx_buf := take (rx_len s) (rx_buf s) @ free'\<rparr> \<or>
      (\<exists>n f. process_input (taped P) (s\<lparr>transport := t, rx_buf := take (rx_len s) (rx_buf s) @ free',
         rx_len := n, final_input := f\<rparr>) = Some s')"
    by (cases "spend b") ((auto simp: poll_input_def Let_def elim!: bind_SomeE
        split: poll.splits sum.splits if_splits), blast+)
  note out = tape_read_in(2) [OF w]
  from s' show ?thesis
  proof
    assume "\<exists>n f. process_input (taped P) (s\<lparr>transport := t, rx_buf := take (rx_len s) (rx_buf s) @ free',
         rx_len := n, final_input := f\<rparr>) = Some s'"
    then obtain n f where p: "process_input (taped P) (s\<lparr>transport := t,
        rx_buf := take (rx_len s) (rx_buf s) @ free', rx_len := n, final_input := f\<rparr>) = Some s'" by blast
    from process_input_same_output [OF p] process_input_releases [OF p] out show ?thesis
      by (auto simp: same_output_def releases_def same_sending_def)
  qed (simp add: same_sending_def out)
qed (use assms in \<open>cases "spend b"; simp add: poll_input_def\<close>)

lemma poll_flushing_sending:
  assumes "poll_flushing (taped P) cx fr s = Some (r, s')" "out s = Flushing fr"
  shows "same_sending s s'"
  using assms
  by (auto simp: poll_flushing_def Let_def same_sending_def elim!: bind_SomeE
      dest!: tape_flush_out(2) split: poll.splits sum.splits prod.splits if_splits)

lemma poll_timer_cases:
  assumes "poll_timer P cx i (b, s) = Some (r, b', s')"
  obtains (same) c f where "s' = s\<lparr>timer := c, final_input := f\<rparr>"
      "r = Inl Timeout \<Longrightarrow> tx s' = TxWaiting \<and> max_retries (config s') \<le> tx_retries s'"
  | (again) f k where "tx s = TxWaiting" "add_checked (tx_retries s) 1 = Some k"
      "s' = s\<lparr>final_input := f, tx_retries := k, tx := TxQueued\<rparr>" "r \<noteq> Inl Timeout"
proof (cases "tx s = TxWaiting")
  case False
  then show thesis using assms by (intro same [where c = "timer s" and f = "final_input s"]) (auto simp: poll_timer_def)
next
  case True
  show thesis
  proof (cases "final_input s")
    case None
    obtain w c where "c_poll_deadline (clock P) cx (tx_deadline s) (timer s) = (w, c)" by fastforce
    with True None assms show thesis
      by (intro same [where c = c and f = "if is_pending w then None else Some (FINAL_INPUT P)"])
        (auto simp: poll_timer_def Let_def split: if_splits)
  next
    case (Some left)
    show thesis
    proof (cases "(i = Blocked \<or> left = 0) \<and> \<not> max_retries (config s) \<le> tx_retries s")
      case go: True
      with True Some assms show thesis
        by (auto simp: poll_timer_def Let_def elim!: bind_SomeE intro: again)
    next
      case False
      with True Some assms show thesis
        by (intro same [where c = "timer s" and f = "if i = Blocked \<or> left = 0 then None else Some left"])
          (auto simp: poll_timer_def Let_def split: if_splits)
    qed
  qed
qed

lemma poll_timer_retry:
  assumes "retry_ok n s" "poll_timer (taped P) cx i (b, s) = Some (r, b', s')"
  shows "retry_ok n s'"
  using assms(2)
proof (cases rule: poll_timer_cases)
  case (same c f)
  then have "same_sending s s'" by (auto simp: same_sending_def)
  then show ?thesis by (rule same_sending_ok [OF assms(1)])
next
  case (again f k)
  with add_checked_unat [OF again(2)] assms(1) show ?thesis
    by (simp add: retry_ok_def started_def last_seq_def)
qed

text \<open>A new frame is one more for the last packet accepted.\<close>

lemma select_frame_retry:
  assumes "conn_inv P tinv s" "retry_ok n s" "select_frame s = Some (b, s')"
  shows "retry_ok n s'"
proof (cases "out s = OutIdle \<and> ack_pending s = None \<and> tx s = TxQueued")
  case True
  then have s': "s' = s\<lparr>tx := TxSending, out := Writing DataFrame 0\<rparr>"
    using assms(3) by (simp add: select_frame_def)
  have tx: "0 < tx_next s" "unat (tx_next s) \<le> 2 ^ 32" "tx_retries s \<le> max_retries (config s)"
    using True conn_inv_parts(4) [OF assms(1)] by (auto simp: tx_inv_def tx_frame_ok_def)
  have seq: "unat (last_seq s) < unat (tx_next s)"
    using unat_seq_last [OF tx(1,2)] tx(1) by (simp add: last_seq_def word_less_nat_alt)
  have st: "started n q s' = started n q s + (if q = last_seq s then 1 else 0)" for q
    using True by (simp add: s' started_def last_seq_def)
  have cur: "started n (last_seq s) s = unat (tx_retries s)"
    using True assms(2) by (simp add: retry_ok_def)
  have "unat (tx_retries s) \<le> unat (max_retries (config s))" using tx(3) by (simp add: word_le_nat_alt)
  with cur assms(2) have le: "started n q s' \<le> unat (max_retries (config s)) + 1" for q
    by (cases "q = last_seq s") (simp_all add: st retry_ok_def)
  have fresh: "started n q s' = 0" if "unat (tx_next s) \<le> unat q" for q
    using that seq assms(2) by (auto simp: st retry_ok_def)
  have "started n (last_seq s') s' = unat (tx_retries s) + 1"
    using cur st [of "last_seq s"] by (simp add: last_seq_def s')
  moreover have "config s' = config s" "tx_next s' = tx_next s" "tx s' = TxSending" "tx_retries s' = tx_retries s"
    by (simp_all add: s')
  ultimately show ?thesis using le fresh by (simp add: retry_ok_def)
next
  case False
  then have "same_sending s s'"
    using assms(3) by (auto simp: select_frame_def same_sending_def elim!: bind_SomeE
        split: if_splits option.splits)
  then show ?thesis by (rule same_sending_ok [OF assms(2)])
qed

text \<open>Bytes of the frame under way complete it, or leave it under way.\<close>

lemma data_frames_snoc:
  assumes "\<forall>p \<in> set ps. packet_fits n p" "packet_fits n p"
  shows "data_frames n q (concat (map packet_frame ps) @ packet_frame p) =
    data_frames n q (concat (map packet_frame ps)) + (if carries_seq q p then 1 else 0)"
  using wire_packets_whole [of "ps @ [p]" n] wire_packets_whole [OF assms(1)] assms
  by (simp add: data_frames_def)

lemma data_frames_part:
  assumes "\<forall>p \<in> set ps. packet_fits n p" "packet_fits n p" "k < length (packet_frame p)"
  shows "data_frames n q (concat (map packet_frame ps) @ take k (packet_frame p)) =
    data_frames n q (concat (map packet_frame ps))"
  using wire_packets_frames [OF assms] wire_packets_whole [OF assms(1)] by (simp add: data_frames_def)

text \<open>The packet of the frame under way\<close>

lemma frame_kind:
  assumes "conn_inv P tinv s" "out s = Writing fr k"
  shows "\<exists>p. holds_frame (case fr of AckFrame \<Rightarrow> ack_frame s | DataFrame \<Rightarrow> tx_frame s)
      (case fr of AckFrame \<Rightarrow> ack_len s | DataFrame \<Rightarrow> tx_len s) p \<and> packet_fits (capacity P) p \<and>
    (\<forall>q. carries_seq q p \<longleftrightarrow> fr = DataFrame \<and> q = last_seq s)"
proof (cases fr)
  case AckFrame
  with assms obtain q where "holds_frame (ack_frame s) (ack_len s) (Ack (session (config s)) q)"
    by (auto simp: conn_inv_def inv_defs)
  moreover have "packet_fits (capacity P) (Ack (session (config s)) q)"
    using ack_frame_fits [of "session (config s)" q] capacity_bounds(1) [OF conn_inv_parts(3) [OF assms(1)]]
    by (simp add: packet_fits_def valid_packet_def ACK_FRAME_LEN_20)
  ultimately show ?thesis using AckFrame by (auto simp: carries_seq_def)
next
  case DataFrame
  with assms obtain payload where p: "payload \<noteq> []" "length payload \<le> MAX_PAYLOAD P"
      "holds_frame (tx_frame s) (tx_len s) (Data (session (config s)) (last_seq s) payload)"
    using conn_inv_parts(4) [OF assms(1)] by (auto simp: tx_inv_def tx_frame_ok_def data_out_busy_eq last_seq_def)
  then have "packet_fits (capacity P) (Data (session (config s)) (last_seq s) payload)"
    using packet_frame_data_fits(1) [of payload "capacity P"]
    by (auto simp: packet_fits_def valid_packet_def MAX_PAYLOAD_def le_SucI)
  with DataFrame p(3) show ?thesis by (auto simp: carries_seq_def)
qed

context reliable_link
begin

lemma poll_writing_retry:
  assumes "link_ok P tinv sent got s" "retry_ok (capacity P) s" "out s = Writing fr offset"
    and "poll_writing (taped P) cx fr offset s = Some (r, s')"
  shows "retry_ok (capacity P) s'"
proof -
  have inv: "conn_inv (taped P) (tape_inv tinv) s" by (rule link_ok_inv [OF assms(1)])
  from inv assms(3,4) show ?thesis
  proof (cases rule: poll_writing_cases)
    case (kept t)
    then show ?thesis by (intro same_sending_ok [OF assms(2)]) (auto simp: same_sending_def)
  next
    case (wrote t k)
    define n where "n = (case fr of AckFrame \<Rightarrow> ack_len s | DataFrame \<Rightarrow> tx_len s)"
    define buf where "buf = (case fr of AckFrame \<Rightarrow> ack_frame s | DataFrame \<Rightarrow> tx_frame s)"
    note wrote = wrote [folded n_def buf_def]
    note slice = pending_slice [OF inv assms(3) n_def buf_def]
    obtain p where p: "n = length (packet_frame p)" "take n buf = packet_frame p" "packet_fits (capacity P) p"
        "\<forall>q. carries_seq q p \<longleftrightarrow> fr = DataFrame \<and> q = last_seq s"
      using frame_kind [OF inv assms(3)] by (auto simp: holds_frame_def n_def buf_def)
    obtain ps where ps: "tape_out (transport s) = concat (map packet_frame ps) @ partial_frame s"
        "\<forall>p \<in> set ps. packet_of_conn sent s p"
      using wire_packets_written [OF assms(1)] by metis
    have psf: "\<forall>p \<in> set ps. packet_fits (capacity P) p"
      using ps(2) packet_of_conn_fits [OF assms(1)] by blast
    have part: "partial_frame s = take offset (packet_frame p)"
      using assms(3) slice(1) unfolding p(2) [symmetric]
      by (cases fr) (simp_all add: partial_frame_def buf_def min_def)
    have "take (n - offset) (drop offset buf) = drop offset (packet_frame p)"
      unfolding p(2) [symmetric] by (simp add: drop_take)
    then have out: "tape_out t = concat (map packet_frame ps) @ take (offset + k) (packet_frame p)"
      using wrote(3) ps(1) part by (simp add: take_add)
    have before: "data_frames (capacity P) q (tape_out (transport s)) =
        data_frames (capacity P) q (concat (map packet_frame ps))" for q
      using data_frames_part [OF psf p(3), of offset q] slice(1) p(1) ps(1) part by simp
    have "started (capacity P) q s' = started (capacity P) q s" for q
    proof (cases "offset + k = n")
      case True
      then show ?thesis
        using data_frames_snoc [OF psf p(3), of q] out p(1,4) before [of q] assms(3)
        by (cases fr) (auto simp: wrote(4) started_def last_seq_def)
    next
      case False
      then have "offset + k < length (packet_frame p)" using wrote(1) p(1) by simp
      from data_frames_part [OF psf p(3) this, of q] show ?thesis
        using False out before [of q] assms(3) by (cases fr) (auto simp: wrote(4) started_def last_seq_def)
    qed
    then show ?thesis using assms(2) by (simp add: retry_ok_def) (simp add: wrote(4) last_seq_def)
  qed
qed

lemma poll_output_retry:
  assumes "link_ok P tinv sent got s" "retry_ok (capacity P) s"
    and "poll_output (taped P) cx (b, s) = Some (r, b', s')"
  shows "retry_ok (capacity P) s'"
proof -
  from assms(3) obtain sel s1 where sel: "select_frame s = Some (sel, s1)"
    by (auto simp: poll_output_def elim!: bind_SomeE)
  have s1: "link_ok P tinv sent got s1" "retry_ok (capacity P) s1"
    using link_ok_select [OF assms(1) sel] select_frame_retry [OF link_ok_inv [OF assms(1)] assms(2) sel]
    by auto
  have "s' = s1 \<or> (\<exists>fr k r. out s1 = Writing fr k \<and> poll_writing (taped P) cx fr k s1 = Some (r, s')) \<or>
      (\<exists>fr r. out s1 = Flushing fr \<and> poll_flushing (taped P) cx fr s1 = Some (r, s'))"
    using sel assms(3)
    by (auto simp: poll_output_def Let_def elim!: bind_SomeE split: if_splits prod.splits out.splits)
  with s1 show ?thesis
    by (auto intro: poll_writing_retry same_sending_ok [OF s1(2)] dest: poll_flushing_sending)
qed

lemma step_retry:
  assumes "link_ok P tinv sent got s" "retry_ok (capacity P) s"
    and "step (taped P) cx (b, s) = Some (r, b', s')"
  shows "retry_ok (capacity P) s'"
proof -
  have input: "retry_ok (capacity P) s2"
    if "retry_ok (capacity P) s1" "poll_input (taped P) cx (b1, s1) = Some (r1, b2, s2)" for b1 s1 r1 b2 s2
    using same_sending_ok [OF that(1) poll_input_sending [OF that(2)]] .
  show ?thesis
    using assms(3) poll_output_retry [OF assms(1,2)] unfolding step_def
    by (auto elim!: try_bind_SomeE) (meson input poll_timer_retry)+
qed

end

section \<open>Along the operations\<close>

definition timed_out :: "('t, 'c, 'e) reliable \<Rightarrow> bool" where
  "timed_out s \<longleftrightarrow> tx s = TxWaiting \<and> max_retries (config s) \<le> tx_retries s"

lemma poll_output_timeout: "poll_output P cx (b, s) = Some (r, b', s') \<Longrightarrow> r \<noteq> Inl Timeout"
  by (auto simp: poll_output_def poll_writing_def poll_flushing_def Let_def elim!: bind_SomeE
      split: if_splits out.splits prod.splits poll.splits sum.splits)

lemma poll_input_timeout: "poll_input P cx (b, s) = Some (r, b', s') \<Longrightarrow> r \<noteq> Inl Timeout"
  by (auto simp: poll_input_def Let_def elim!: bind_SomeE split: if_splits poll.splits sum.splits prod.splits)

lemma poll_timer_timeout: "poll_timer P cx i (b, s) = Some (Inl Timeout, b', s') \<Longrightarrow> timed_out s'"
  by (erule poll_timer_cases) (auto simp: timed_out_def)

lemma step_timeout: "step P cx (b, s) = Some (Inl Timeout, b', s') \<Longrightarrow> timed_out s'"
  unfolding step_def
  by (auto elim!: try_bind_SomeE dest: poll_output_timeout poll_input_timeout poll_timer_timeout)

definition sending_ok :: "nat \<Rightarrow> ('t tape, 'c, 'e) reliable \<Rightarrow> bool" where
  "sending_ok n s \<longleftrightarrow> retry_ok n s \<and> (health s = HealthFailed Timeout \<longrightarrow> timed_out s)"

text \<open>Updates of other parts of the state\<close>

lemma sending_ok_same:
  fixes s s' :: "('t tape, 'c, 'e) reliable"
  assumes "sending_ok n s" "tape_out (transport s') = tape_out (transport s)" "out s' = out s" "tx s' = tx s"
    and "tx_next s' = tx_next s" "config s' = config s" "tx_retries s' = tx_retries s"
    and "health s' = health s \<or> health s' \<noteq> HealthFailed Timeout"
  shows "sending_ok n s'"
proof -
  have "same_sending s s'" using assms(2-7) by (auto simp: same_sending_def)
  then show ?thesis
    using assms same_sending_ok [of n s s'] by (auto simp: sending_ok_def timed_out_def)
qed

lemma sending_ok_set_waiters [simp]: "sending_ok n s \<Longrightarrow> sending_ok n (set_waiters w new s)"
  by (erule sending_ok_same) (simp_all add: set_waiters_def)

lemma sending_ok_failure: "sending_ok n s \<Longrightarrow> failure s = (e, s') \<Longrightarrow> sending_ok n s'"
  by (erule failure_cases) (auto intro: sending_ok_same)

lemma sending_ok_finish: "sending_ok n s \<Longrightarrow> finish op cx p s = (p', s') \<Longrightarrow> sending_ok n s'"
  by (auto simp: finish_eq)

lemma sending_ok_seq_check: "sending_ok n s \<Longrightarrow> sending_ok n (seq_check s)"
  by (erule sending_ok_same) (simp_all add: seq_check_def fail_def Let_def split: health.split)

lemma sending_ok_queued:
  assumes "sending_ok n s" "write_ready s" "\<not> tx_next s > ucast (- 1 :: u32)" "health s = HealthOk"
  shows "sending_ok n (queued enc s)"
proof -
  have out: "\<not> data_writing (out s)"
    using assms(2) by (auto simp: write_ready_def data_out_busy_eq data_writing_def)
  have lt: "unat (tx_next s) < 2 ^ 32" using assms(3) unat_gt_u32_max [of "tx_next s"] by simp
  then have seq: "unat (tx_next s + 1) = unat (tx_next s) + 1"
    using add_checked_u64 [of "tx_next s"] by simp
  have last: "unat (ucast (tx_next s) :: u32) = unat (tx_next s)"
    using lt by (simp add: unsigned_ucast_eq take_bit_nat_eq_self_iff)
  define s' where "s' = queued enc s"
  have st: "started n q s' = started n q s" for q
    using out by (cases enc) (simp add: started_def s'_def queued_def)
  have fields: "last_seq s' = ucast (tx_next s)" "tx_next s' = tx_next s + 1" "tx s' = TxQueued"
      "tx_retries s' = 0" "config s' = config s" "health s' = health s"
    by (cases enc; simp add: last_seq_def s'_def queued_def)+
  have "started n q s = 0" if "unat (tx_next s) \<le> unat q" for q
    using that assms(1) by (simp add: sending_ok_def retry_ok_def)
  then show ?thesis
    using assms(1,4) seq last unfolding s'_def [symmetric]
    by (simp add: sending_ok_def retry_ok_def st fields)
qed

context reliable_link
begin

lemma drive_sending:
  assumes "link_ok P tinv sent got s" "sending_ok (capacity P) s" "drive (taped P) cx (b, s) = Some (w, b', s')"
  shows "sending_ok (capacity P) s'"
proof (cases "is_healthy s")
  case True
  with assms(3) have "drive_loop (taped P) cx (b, s) = Some (w, b', s')" by (simp add: drive_def)
  from drive_loop_steps [OF this] obtain b0 s0 r b1 s1 where
    steps: "(progress_step (taped P) cx)\<^sup>*\<^sup>* (b, s) (b0, s0)" "step (taped P) cx (b0, s0) = Some (r, b1, s1)"
      "last_step cx r (b1, s1) (w, b', s')"
    by auto
  have "link_ok P tinv sent got (snd (b0, s0)) \<and> retry_ok (capacity P) (snd (b0, s0)) \<and>
      health (snd (b0, s0)) = HealthOk"
    by (rule steps_keep [OF steps(1)])
      (use assms(1,2) True in \<open>auto simp: sending_ok_def is_healthy_iff dest: link_ok_step step_retry step_health\<close>)
  then have s1: "retry_ok (capacity P) s1" "health s1 = HealthOk"
    using step_retry [OF _ _ steps(2)] step_health [OF steps(2)] by auto
  then have ok1: "sending_ok (capacity P) s1" by (simp add: sending_ok_def)
  have fail: "sending_ok (capacity P) (fail e s1)" if "r = Inl e" for e
  proof -
    have "same_sending s1 (fail e s1)" by (auto simp: same_sending_def fail_def Let_def split: health.split)
    moreover have "timed_out (fail e s1)" if "e = Timeout"
      using step_timeout [of "taped P" cx b0 s0 b1 s1] steps(2) \<open>r = Inl e\<close> that
      by (simp add: timed_out_def fail_def Let_def split: health.split)
    ultimately show ?thesis
      using same_sending_ok [OF s1(1)] s1(2) by (auto simp: sending_ok_def fail_def Let_def)
  qed
  have woken: "sending_ok (capacity P) (s1\<lparr>woken := ws\<rparr>)" for ws
    by (rule sending_ok_same [OF ok1]) simp_all
  show ?thesis
    using steps(3) fail woken ok1 by (auto simp: last_step_def split: sum.splits work.splits)
qed (use assms in simp)

end

text \<open>A poll reports that the retries are used up.\<close>

definition reports_timeout ::
  "('t, 'c, 'e) params \<Rightarrow> waker \<Rightarrow> ('t, 'c, 'e) reliable \<Rightarrow> ('t, 'c, 'e) reliable \<Rightarrow> bool" where
  "reports_timeout P cx s s' \<longleftrightarrow>
     poll_flush P cx s = Some (Ready (Inl Timeout), s') \<or>
     poll_progress P cx s = Some (Ready Timeout, s') \<or>
     (\<exists>buf buf'. poll_read P cx buf s = Some (Ready (Inl Timeout), buf', s')) \<or>
     (\<exists>buf. poll_write P cx buf s = Some (Ready (Inl Timeout), s'))"

text \<open>After a poll that reports a timeout, every transmission allowed has been made.\<close>

definition poll_sending_ok :: "nat \<Rightarrow> 'e connection_error option \<Rightarrow> ('t tape, 'c, 'e) reliable \<Rightarrow> bool" where
  "poll_sending_ok n e s \<longleftrightarrow> sending_ok n s \<and> (e = Some Timeout \<longrightarrow> timed_out s)"

lemma poll_sending_failure:
  assumes "sending_ok n s" "failure s = (e, s')"
  shows "poll_sending_ok n e (set_waiters w new s')"
proof -
  have "timed_out s'" if "e = Some Timeout"
    using assms(2)
  proof (cases rule: failure_cases)
    case (first e')
    with that assms(1) show ?thesis by (simp add: sending_ok_def timed_out_def)
  qed (use that in auto)
  moreover have "timed_out (set_waiters w new s') = timed_out s'" by (simp add: timed_out_def set_waiters_def)
  ultimately show ?thesis using sending_ok_failure [OF assms] by (simp add: poll_sending_ok_def)
qed

lemma timed_out_count:
  assumes "sending_ok n s" "conn_inv P tinv s" "timed_out s"
  shows "data_frames n (last_seq s) (tape_out (transport s)) = unat (max_retries (config s)) + 1"
proof -
  have "tx_retries s = max_retries (config s)" "\<not> data_out (out s)"
    using assms(3) conn_inv_parts(4) [OF assms(2)] by (auto simp: timed_out_def tx_inv_def data_out_busy_eq)
  then have "tx_retries s = max_retries (config s)" "\<not> data_writing (out s)"
    by (auto simp: data_writing_def)
  with assms(1,3) show ?thesis by (simp add: sending_ok_def retry_ok_def started_def timed_out_def)
qed

context reliable_link
begin

lemma poll_flush_sending:
  assumes "link_ok P tinv sent got s" "sending_ok (capacity P) s" "poll_flush (taped P) cx s = Some (r, s')"
  shows "poll_sending_ok (capacity P) (poll_error r) s'"
proof -
  from assms(3) obtain w b s1 where d: "drive (taped P) cx (new_budget, s) = Some (w, b, s1)"
    by (auto simp: poll_flush_def elim!: bind_SomeE)
  obtain e s2 where f: "failure s1 = (e, s2)" by fastforce
  have "poll_error r = e \<and> (\<exists>w new. s' = set_waiters w new s2)"
    using assms(3) d f by (auto simp: poll_flush_def Let_def finish_eq split: option.splits)
  then show ?thesis using poll_sending_failure [OF drive_sending [OF assms(1,2) d] f] by auto
qed

lemma poll_progress_sending:
  assumes "link_ok P tinv sent got s" "sending_ok (capacity P) s" "poll_progress (taped P) cx s = Some (r, s')"
  shows "poll_sending_ok (capacity P) (case r of Ready e \<Rightarrow> Some e | Pending \<Rightarrow> None) s'"
proof -
  from assms(3) obtain w b s1 where d: "drive (taped P) cx (new_budget, s) = Some (w, b, s1)"
    by (auto simp: poll_progress_def elim!: bind_SomeE)
  obtain e s2 where f: "failure s1 = (e, s2)" by fastforce
  have "(case r of Ready e \<Rightarrow> Some e | Pending \<Rightarrow> None) = e \<and> (\<exists>w new. s' = set_waiters w new s2)"
    using assms(3) d f by (auto simp: poll_progress_def Let_def finish_eq split: option.splits)
  then show ?thesis using poll_sending_failure [OF drive_sending [OF assms(1,2) d] f] by auto
qed

lemma poll_read_sending:
  assumes "link_ok P tinv sent got s" "sending_ok (capacity P) s"
    and "poll_read (taped P) cx buf s = Some (r, buf', s')"
  shows "poll_sending_ok (capacity P) (poll_error r) s'"
proof (cases "buf = []")
  case False
  with assms(3) obtain w b s1 where d: "drive (taped P) cx (new_budget, s) = Some (w, b, s1)"
    by (auto simp: poll_read_def elim!: bind_SomeE)
  note s1 = drive_sending [OF assms(1,2) d]
  show ?thesis
  proof (cases "rx_start s1 < rx_end s1")
    case True
    with assms(3) False d have "poll_error r = None \<and> (\<exists>w new n. s' = set_waiters w new (s1\<lparr>rx_start := n\<rparr>))"
      by (auto simp: poll_read_def Let_def finish_eq elim!: bind_SomeE)
    moreover have "sending_ok (capacity P) (s1\<lparr>rx_start := n\<rparr>)" for n
      by (rule sending_ok_same [OF s1]) simp_all
    ultimately show ?thesis by (auto simp: poll_sending_ok_def)
  next
    case no: False
    obtain e s2 where f: "failure s1 = (e, s2)" by fastforce
    have "poll_error r = e \<and> (\<exists>w new. s' = set_waiters w new s2)"
      using assms(3) False d no f by (cases e) (auto simp: poll_read_def Let_def finish_eq)
    then show ?thesis using poll_sending_failure [OF s1 f] by auto
  qed
qed (use assms in \<open>auto simp: poll_read_def poll_sending_ok_def\<close>)

lemma poll_write_sending:
  assumes "link_ok P tinv sent got s" "sending_ok (capacity P) s" "poll_write (taped P) cx buf s = Some (r, s')"
  shows "poll_sending_ok (capacity P) (poll_error r) s'"
proof (cases "buf = []")
  case False
  with assms(3) obtain q where q: "queue_packet (taped P) cx buf s = Some (r, q)"
      "\<exists>w new. s' = set_waiters w new q"
    by (auto simp: poll_write_def finish_eq elim!: bind_SomeE)
  from q(1) have "poll_sending_ok (capacity P) (poll_error r) q"
  proof (cases rule: queue_packet_cases)
    case (error w b s1 e)
    with poll_sending_failure [OF sending_ok_seq_check [OF drive_sending [OF assms(1,2) error(1)]] error(2),
        of "waiters q" "[]"]
    show ?thesis by simp
  next
    case (busy w b)
    with drive_sending [OF assms(1,2) busy(1)] show ?thesis by (simp add: poll_sending_ok_def)
  next
    case (accept w b s1 enc)
    have s1: "link_ok P tinv sent got s1" "sending_ok (capacity P) s1"
      using link_ok_drive [OF assms(1) accept(1)] drive_sending [OF assms(1,2) accept(1)] by auto
    let ?payload = "take (min (length buf) (MAX_PAYLOAD P)) buf"
    have "buffers_inv (taped P) s1" using conn_inv_parts(3) [OF link_ok_inv [OF s1(1)]] .
    then have pl: "?payload \<noteq> []" "length ?payload \<le> MAX_PAYLOAD P"
      using False by (auto simp: buffers_inv_def)
    have q1: "sending_ok (capacity P) (queued enc s1)"
      using sending_ok_queued [OF s1(2) accept(3,4,2)] .
    have "link_ok P tinv (sent @ [?payload]) got (queued enc s1)"
      using link_ok_queued(1) [OF s1(1) accept(3,4) pl] accept(5) by simp
    with accept(7) q1 have "sending_ok (capacity P) q"
      by (auto split: if_splits intro: drive_sending)
    with accept(6) show ?thesis by (simp add: poll_sending_ok_def)
  qed
  with q(2) show ?thesis
    by (auto simp: poll_sending_ok_def timed_out_def set_waiters_def intro: sending_ok_set_waiters [unfolded set_waiters_def])
qed (use assms in \<open>auto simp: poll_write_def poll_sending_ok_def\<close>)

text \<open>Runs\<close>

lemma conn_run_sending: "conn_run P tinv sent got s \<Longrightarrow> sending_ok (capacity P) s"
proof (induction rule: conn_run.induct)
  case (run_start t c cfg s)
  then have "tape_out (transport s) = [] \<and> tx s = TxIdle \<and> out s = OutIdle \<and> health s = HealthOk"
    by (auto simp: new_reliable_def blank_tape_def split: if_splits)
  then show ?case
    using wire_packets_whole [of "[]" "capacity P"]
    by (simp add: sending_ok_def retry_ok_def started_def data_frames_def)
next
  case (run_write sent got s cx buf r s')
  then show ?case using poll_write_sending conn_run_ok unfolding poll_sending_ok_def by blast
next
  case (run_read sent got s cx buf r buf' s')
  then show ?case using poll_read_sending conn_run_ok unfolding poll_sending_ok_def by blast
next
  case (run_flush sent got s cx r s')
  then show ?case using poll_flush_sending conn_run_ok unfolding poll_sending_ok_def by blast
next
  case (run_progress sent got s cx r s')
  then show ?case using poll_progress_sending conn_run_ok unfolding poll_sending_ok_def by blast
next
  case (run_cancel sent got s operation)
  then show ?case by (simp add: cancel_pending_eq)
next
  case (run_world sent got s t c)
  then show ?case by (intro sending_ok_same [OF run_world.IH]) simp_all
qed

lemma run_timeout_count:
  assumes "conn_run P tinv sent got s'" "poll_sending_ok (capacity P) (Some Timeout) s'"
  shows "data_frames (capacity P) (last_seq s') (tape_out (transport s')) = unat (max_retries (config s')) + 1"
  using assms(2) link_ok_inv [OF conn_run_ok [OF assms(1)]] timed_out_count
  by (auto simp: poll_sending_ok_def)

lemma run_reports_timeout:
  assumes "conn_run P tinv sent got s" "reports_timeout (taped P) cx s s'"
  shows "data_frames (capacity P) (last_seq s') (tape_out (transport s')) = unat (max_retries (config s')) + 1"
proof -
  note run = conn_run_ok [OF assms(1)] and sending = conn_run_sending [OF assms(1)]
  consider (flush) "poll_flush (taped P) cx s = Some (Ready (Inl Timeout), s')"
    | (progress) "poll_progress (taped P) cx s = Some (Ready Timeout, s')"
    | (read) buf buf' where "poll_read (taped P) cx buf s = Some (Ready (Inl Timeout), buf', s')"
    | (wrote) buf where "poll_write (taped P) cx buf s = Some (Ready (Inl Timeout), s')"
    using assms(2) by (auto simp: reports_timeout_def)
  then show ?thesis
  proof cases
    case flush
    from run_timeout_count [OF run_flush [OF assms(1) flush]] poll_flush_sending [OF run sending flush]
    show ?thesis by simp
  next
    case progress
    from run_timeout_count [OF run_progress [OF assms(1) progress]] poll_progress_sending [OF run sending progress]
    show ?thesis by simp
  next
    case (read buf buf')
    from run_timeout_count [OF run_read [OF assms(1) read]] poll_read_sending [OF run sending read]
    show ?thesis by simp
  next
    case (wrote buf)
    from run_timeout_count [OF run_write [OF assms(1) wrote]] poll_write_sending [OF run sending wrote]
    show ?thesis by simp
  qed
qed

end

end
