(* ===== verification/Shared_Link.thy ===== *)
theory Shared_Link
  imports End_To_End Test_Link
begin

text \<open>
  What the pipes of a link do to the packets on it. Bytes that make up no packet of a session but
  those seen, whatever bytes follow, are \<open>inert\<close>; a filter that gives out only inert bytes is
  \<open>harmless\<close>; and a pipe with a harmless filter is a channel on which every packet that arrives is
  one that was written.
\<close>

section \<open>Streams cut at a delimiter\<close>

definition delimited :: "u8 list \<Rightarrow> bool" where
  "delimited bs \<longleftrightarrow> bs = [] \<or> last bs = 0"

lemma delimited_simps [simp]:
  "delimited []" "delimited (bs @ [b]) \<longleftrightarrow> b = 0" "delimited (b # bs) \<longleftrightarrow> last (b # bs) = 0"
  by (simp_all add: delimited_def)

lemma cut_extend:
  "fold (cut_byte n) xs (bodies @ bs, part, d) =
     map_prod (\<lambda>cs. bodies @ cs) id (fold (cut_byte n) xs (bs, part, d))"
  by (induction xs arbitrary: bs part d) (auto simp: cut_byte_def split: prod.split)

lemma cut_delimited: "delimited bs \<Longrightarrow> snd (cut_stream n bs) = ([], False)"
  by (cases bs rule: rev_cases) (auto simp: cut_stream_def cut_byte_def split: prod.split)

lemma wire_packets_append:
  assumes "delimited xs"
  shows "wire_packets n (xs @ ys) = wire_packets n xs @ wire_packets n ys"
proof -
  obtain bodies where b: "fold (cut_byte n) xs ([], [], False) = (bodies, [], False)"
    using cut_delimited [OF assms, of n] unfolding cut_stream_def
    by (cases "fold (cut_byte n) xs ([], [], False)") auto
  show ?thesis
    using cut_extend [of n ys bodies "[]" "[]" False] by (simp add: wire_packets_def cut_stream_def b)
qed

lemma wire_packets_zero [simp]: "wire_packets n [] = []" "wire_packets n [0] = []"
  by (simp_all add: wire_packets_def cut_stream_def cut_byte_def)

lemma wire_packets_prefix: "set (wire_packets n xs) \<subseteq> set (wire_packets n (xs @ ys))"
proof -
  obtain bodies part d where c: "cut_stream n xs = (bodies, part, d)" by (cases "cut_stream n xs") auto
  then show ?thesis
    using cut_extend [of n ys bodies "[]" part d] by (simp add: wire_packets_def cut_stream_def)
qed

section \<open>Inert bytes\<close>

text \<open>A frame as a pipe collects it\<close>

definition whole_frame :: "u8 list \<Rightarrow> bool" where
  "whole_frame wire \<longleftrightarrow> (\<exists>body. wire = body @ [0] \<and> body \<noteq> [] \<and> 0 \<notin> set body)"

lemma whole_frame_delimited: "whole_frame wire \<Longrightarrow> delimited wire"
  by (auto simp: whole_frame_def)

text \<open>
  The packets of a session in a stream that starts with the bytes are those of frames seen, and those
  of the stream without the bytes. The bytes need not end with a delimiter: they may spoil the frame
  that follows them, but make no packet with its bytes.
\<close>

definition inert :: "nat \<Rightarrow> u64 \<Rightarrow> u8 list set \<Rightarrow> u8 list \<Rightarrow> bool" where
  "inert n sess seen bs \<longleftrightarrow>
     (\<forall>ys. \<forall>p \<in> set (wire_packets n (bs @ ys)). session_of p = sess \<longrightarrow>
        (\<exists>wire \<in> seen. p \<in> set (wire_packets n wire)) \<or> p \<in> set (wire_packets n ys))"

lemma inert_packets:
  assumes "inert n sess seen bs" "p \<in> set (wire_packets n bs)" "session_of p = sess"
  shows "\<exists>wire \<in> seen. p \<in> set (wire_packets n wire)"
  using assms(1) [unfolded inert_def, rule_format, of p "[]"] assms(2,3) by simp

lemma inert_Nil [simp]: "inert n sess seen []"
  by (simp add: inert_def)

lemma inert_append: "inert n sess seen xs \<Longrightarrow> inert n sess seen ys \<Longrightarrow> inert n sess seen (xs @ ys)"
  unfolding inert_def by (metis append.assoc)

lemma inert_mono: "inert n sess seen bs \<Longrightarrow> seen \<subseteq> seen' \<Longrightarrow> inert n sess seen' bs"
  unfolding inert_def by blast

lemma inert_delimited:
  assumes "delimited bs"
    and "\<And>p. p \<in> set (wire_packets n bs) \<Longrightarrow> session_of p = sess \<Longrightarrow> \<exists>wire \<in> seen. p \<in> set (wire_packets n wire)"
  shows "inert n sess seen bs"
  using assms(2) by (auto simp: inert_def wire_packets_append [OF assms(1)])

lemma inert_zero [simp]: "inert n sess seen [0]"
  by (rule inert_delimited) simp_all

text \<open>Whole frames that were seen, in any order and number\<close>

lemma inert_frame: "whole_frame wire \<Longrightarrow> wire \<in> seen \<Longrightarrow> inert n sess seen wire"
  by (blast intro: inert_delimited whole_frame_delimited)

lemma inert_frames: "\<forall>wire \<in> set wires. whole_frame wire \<and> wire \<in> seen \<Longrightarrow> inert n sess seen (concat wires)"
  by (induction wires) (auto intro: inert_append inert_frame)

text \<open>
  Bytes left without a delimiter: the next frame is joined to them, and those after it are found as
  ever. They are inert if they are too long for a frame, or if no packet starts so.
\<close>

lemma cut_join:
  "set (fst (fold (cut_byte n) ys ([], part, d))) \<subseteq>
     {body. \<not> d \<and> (\<exists>w. body = part @ w)} \<union> set (fst (fold (cut_byte n) ys ([], part', d')))"
proof (induction ys arbitrary: part d part' d')
  case (Cons y ys)
  have bodies: "set (fst (fold (cut_byte n) ys (bs, [], False))) =
      set bs \<union> set (fst (fold (cut_byte n) ys ([], [], False)))" for bs
    using cut_extend [of n ys bs "[]" "[]" False] by simp
  show ?case
  proof (cases "y = 0")
    case True
    then have "cut_byte n y ([], part, d) = (if d \<or> part = [] then [] else [part], [], False)" for part d
      by (simp add: cut_byte_def)
    moreover have "set (if d \<or> part = [] then [] else [part]) \<subseteq> {body. \<not> d \<and> (\<exists>w. body = part @ w)}" by auto
    ultimately show ?thesis
      using bodies [of "if d \<or> part = [] then [] else [part]"]
        bodies [of "if d' \<or> part' = [] then [] else [part']"]
      unfolding fold_simps by simp blast
  next
    case False
    let ?next = "\<lambda>part d. if d \<or> length part + 1 = n then ([], True) else (part @ [y], False)"
    have step: "cut_byte n y ([], part, d) = ([], fst (?next part d), snd (?next part d))" for part d
      using False by (simp add: cut_byte_def)
    have "{body. \<not> snd (?next part d) \<and> (\<exists>w. body = fst (?next part d) @ w)} \<subseteq> {body. \<not> d \<and> (\<exists>w. body = part @ w)}"
      by auto
    with Cons.IH [of "fst (?next part d)" "snd (?next part d)" "fst (?next part' d')" "snd (?next part' d')"]
    show ?thesis unfolding fold_simps step by blast
  qed
qed simp

lemma cut_nonzero:
  "0 \<notin> set bs \<Longrightarrow> \<exists>part d. fold (cut_byte n) bs ([], part0, d0) = ([], part, d) \<and>
     (d \<or> \<not> d0 \<and> part = part0 @ bs \<and> (0 < n \<and> length part0 < n \<longrightarrow> length part < n))"
proof (induction bs arbitrary: part0 d0)
  case (Cons b bs)
  have "cut_byte n b ([], part0, d0) = (if d0 \<or> length part0 + 1 = n then ([], [], True) else ([], part0 @ [b], False))"
    using Cons.prems by (simp add: cut_byte_def)
  moreover note Cons.IH [of "[]" True] Cons.IH [of "part0 @ [b]" False] Cons.prems
  ultimately show ?case by (cases "d0 \<or> length part0 + 1 = n") fastforce+
qed auto

lemma inert_tail:
  assumes "0 \<notin> set bs" "bs \<noteq> []"
    and "0 < n \<and> n \<le> length bs \<or> (\<forall>w p. frame_packet n (bs @ w) = Some p \<longrightarrow> session_of p \<noteq> sess)"
  shows "inert n sess seen bs"
  unfolding inert_def
proof (intro allI ballI impI disjI2)
  fix ys p assume p: "p \<in> set (wire_packets n (bs @ ys))" "session_of p = sess"
  obtain part d where c: "fold (cut_byte n) bs ([], [], False) = ([], part, d)"
      "d \<or> part = bs \<and> (0 < n \<longrightarrow> length bs < n)"
    using cut_nonzero [OF assms(1), of n "[]" False] by auto
  obtain body where body: "body \<in> set (fst (fold (cut_byte n) ys ([], part, d)))" "frame_packet n body = Some p"
    using p(1) c(1) by (auto simp: wire_packets_def cut_stream_def packets_in_def map_filter_def split: option.splits)
  have "\<not> (\<not> d \<and> (\<exists>w. body = part @ w))"
    using assms(3) c(2) body(2) p(2) by auto
  with body(1) cut_join [of n ys part d "[]" False] have "body \<in> set (fst (fold (cut_byte n) ys ([], [], False)))"
    by blast
  with body(2) show "p \<in> set (wire_packets n ys)"
    by (force simp: wire_packets_def cut_stream_def packets_in_def map_filter_def)
qed

text \<open>No packet starts with another kind; the first byte of a frame counts to the next zero.\<close>

lemma other_kind:
  assumes "1 < unat c" "k \<noteq> KIND_DATA" "k \<noteq> KIND_ACK"
  shows "frame_packet n ((c # k # bs) @ w) \<noteq> Some p"
proof
  assume "frame_packet n ((c # k # bs) @ w) = Some p"
  then obtain ys where "unstuff (c # k # bs @ w) = (ys, True)" "parse ys = Some (Some p)"
    by (auto simp: frame_packet_def split: prod.splits if_splits Option.bind_splits)
  moreover have "take (unat c - 1) (k # bs @ w) = k # take (unat c - 1 - 1) (bs @ w)"
    using assms(1) by (simp add: take_Cons' del: take_append)
  ultimately obtain zs where "parse (k # zs) = Some (Some p)"
    by (auto simp: Let_def split: if_splits prod.splits)
  then have "k # zs = packet_bytes p" by (simp add: parse_iff)
  then show False
    using assms(2,3) by (cases p) (auto simp: packet_bytes_def sealed_def packet_fields_def)
qed

text \<open>The junk of the tests, without a delimiter and too long or not\<close>

lemma inert_repeat:
  assumes "1 < unat c" "c \<noteq> KIND_DATA" "c \<noteq> KIND_ACK" "2 \<le> k"
  shows "inert n sess seen (replicate k c)"
proof -
  have "k = Suc (Suc (k - 2))" using assms(4) by simp
  then have k: "replicate k c = c # c # replicate (k - 2) c" by (metis replicate_Suc)
  have "c \<noteq> 0" using assms(1) by auto
  then show ?thesis
    unfolding k using other_kind [OF assms(1-3), of n "replicate (k - 2) c"] by (intro inert_tail) auto
qed

lemma inert_junk:
  "2 \<le> k \<Longrightarrow> inert n sess seen (replicate k 0x55)" "2 \<le> k \<Longrightarrow> inert n sess seen (replicate k 0xFF)"
  using inert_repeat [of "0x55" k n sess seen] inert_repeat [of "0xFF" k n sess seen]
  by (simp_all add: KIND_DATA_def KIND_ACK_def)

lemma inert_junk_7: "inert n sess seen [7, 7, 7]" "inert n sess seen [5, 1, 0]"
proof -
  show "inert n sess seen [7, 7, 7]"
    using inert_repeat [of 7 3 n sess seen] by (simp add: KIND_DATA_def KIND_ACK_def numeral_3_eq_3)
  have "frame_packet n [5, 1] = None" by (simp add: frame_packet_def)
  then show "inert n sess seen [5, 1, 0]"
    by (intro inert_delimited) (auto simp: wire_packets_def cut_stream_def cut_byte_def split: if_splits)
qed

section \<open>Harmless filters\<close>

text \<open>
  A filter gives out bytes that are inert, given the frames it has been given so far: it may drop,
  repeat, hold back, reorder and damage frames, and add others and bytes of no frame.
\<close>

coinductive harmless :: "nat \<Rightarrow> u64 \<Rightarrow> u8 list set \<Rightarrow> frame_filter \<Rightarrow> bool" for n sess where
  harmless: "(\<And>i wire. whole_frame wire \<Longrightarrow>
      inert n sess (insert wire seen) (fst (run_filter f i wire)) \<and>
      harmless n sess (insert wire seen) (snd (run_filter f i wire))) \<Longrightarrow>
    harmless n sess seen f"

inductive_cases harmlessE: "harmless n sess seen f"

lemma harmless_run:
  assumes "harmless n sess seen f" "whole_frame wire" "run_filter f i wire = (bs, f')"
  shows "inert n sess (insert wire seen) bs" "harmless n sess (insert wire seen) f'"
  using assms(2,3) harmlessE [OF assms(1)] by (metis fst_conv snd_conv)+

lemma harmless_mono: "harmless n sess seen f \<Longrightarrow> seen \<subseteq> seen' \<Longrightarrow> harmless n sess seen' f"
proof (coinduction arbitrary: seen seen' f rule: harmless.coinduct)
  case harmless
  then show ?case
    using harmless_run [OF harmless(1) _ surjective_pairing]
      inert_mono [OF harmless_run(1) [OF harmless(1) _ surjective_pairing]]
    by (metis insert_mono)
qed

text \<open>Filters of the tests\<close>

lemma drop_first_harmless: "harmless n sess seen (drop_first matches dropped)"
proof (coinduction arbitrary: seen dropped rule: harmless.coinduct)
  case harmless
  then show ?case by (cases dropped) (auto simp: inert_frame)
qed

lemma stateless_harmless:
  assumes "\<And>i wire. whole_frame wire \<Longrightarrow> inert n sess {wire} (f i wire)"
  shows "harmless n sess seen (stateless f)"
proof (coinduction arbitrary: seen rule: harmless.coinduct)
  case harmless
  have "inert n sess (insert wire seen) (f i wire)" if "whole_frame wire" for i wire
    using assms [OF that] by (auto intro: inert_mono)
  with assms show ?case by auto
qed

text \<open>Noise before and after every frame, every frame twice, and every frame held back until the next one\<close>

lemma noisy_harmless:
  assumes "inert n sess {} before" "inert n sess {} after"
  shows "harmless n sess seen (stateless (\<lambda>_ wire. before @ wire @ after))"
proof (rule stateless_harmless, intro inert_append)
  fix wire assume "whole_frame wire"
  then show "inert n sess {wire} before" "inert n sess {wire} wire" "inert n sess {wire} after"
    using inert_mono [OF assms(1), of "{wire}"] inert_mono [OF assms(2), of "{wire}"] inert_frame by auto
qed

lemma repeating_harmless: "harmless n sess seen (stateless (\<lambda>_ wire. wire @ wire))"
  by (intro stateless_harmless inert_append) (simp_all add: inert_frame)

primcorec hold_back :: "u8 list \<Rightarrow> frame_filter" where
  "run_filter (hold_back held) = (\<lambda>_ wire. map_prod id hold_back (held, wire))"

lemma hold_back_harmless:
  "held = [] \<or> whole_frame held \<and> held \<in> seen \<Longrightarrow> harmless n sess seen (hold_back held)"
proof (coinduction arbitrary: seen held rule: harmless.coinduct)
  case harmless
  then show ?case by (auto simp: inert_frame)
qed

text \<open>The two filters of \<open>recovers_from_junk_between_frames\<close>\<close>

lemma junk_filters_harmless:
  "harmless n sess seen (stateless (\<lambda>_ wire. [] @ wire @ replicate 300 0x55))"
  "harmless n sess seen (stateless (\<lambda>_ wire. [9, 9, 9, 0] @ wire @ []))"
proof -
  have "inert n sess {} [9, 9, 9]" "inert n sess {} [0 :: u8]"
    using inert_repeat [of 9 3 n sess "{}"] by (simp_all add: KIND_DATA_def KIND_ACK_def numeral_3_eq_3)
  then have "inert n sess {} [9, 9, 9, 0]" using inert_append [of n sess "{}" "[9, 9, 9]" "[0]"] by simp
  then show "harmless n sess seen (stateless (\<lambda>_ wire. [9, 9, 9, 0] @ wire @ []))" by (intro noisy_harmless) simp_all
  show "harmless n sess seen (stateless (\<lambda>_ wire. [] @ wire @ replicate 300 0x55))"
    by (intro noisy_harmless inert_junk) simp_all
qed

section \<open>A pipe as a channel\<close>

text \<open>
  \<open>went_in\<close> is what has gone into the pipe, \<open>taken\<close> what has come out of it. All of \<open>went_in\<close> but the
  frame under way is logged, and what has come out or is queued has only packets of logged frames.
\<close>

definition channel :: "nat \<Rightarrow> u64 \<Rightarrow> u8 list \<Rightarrow> pipe \<Rightarrow> u8 list \<Rightarrow> bool" where
  "channel n sess went_in p taken \<longleftrightarrow>
     (\<exists>pre. went_in = pre @ partial p \<and> delimited pre) \<and> 0 \<notin> set (partial p) \<and>
     (\<forall>wire \<in> set (log_frames p).
        whole_frame wire \<and> set (wire_packets n wire) \<subseteq> set (wire_packets n went_in)) \<and>
     inert n sess (set (log_frames p)) (taken @ queue p) \<and>
     (\<forall>f. filter_frame p = Some f \<longrightarrow> harmless n sess (set (log_frames p)) f)"

lemma channel_new [simp]: "channel n sess [] default_pipe []"
  by (simp add: channel_def default_pipe_def)

lemma channel_updates [simp]:
  "channel n sess W (p\<lparr>reader := r\<rparr>) T = channel n sess W p T"
  "channel n sess W (p\<lparr>closed := c\<rparr>) T = channel n sess W p T"
  by (simp_all add: channel_def)

lemma channel_wake [simp]: "channel n sess W (snd (wake_reader p)) T = channel n sess W p T"
  by (simp add: wake_reader_def split: option.split)

lemma channel_filter:
  "channel n sess W p T \<Longrightarrow> harmless n sess (set (log_frames p)) f \<Longrightarrow>
     channel n sess W (p\<lparr>filter_frame := Some f\<rparr>) T"
  by (auto simp: channel_def)

lemma channel_take:
  "channel n sess W p T \<Longrightarrow> channel n sess W (p\<lparr>queue := drop k (queue p)\<rparr>) (T @ take k (queue p))"
  by (simp add: channel_def)

lemma channel_inject:
  "channel n sess W p T \<Longrightarrow> inert n sess (set (log_frames p)) bs \<Longrightarrow>
     channel n sess W (p\<lparr>queue := queue p @ bs\<rparr>) T"
  by (auto simp: channel_def intro: inert_append simp flip: append_assoc)

lemma channel_byte: "channel n sess W p T \<Longrightarrow> b \<noteq> 0 \<Longrightarrow> channel n sess (W @ [b]) (push_byte b p) T"
  using wire_packets_prefix [of n W "[b]"] by (auto simp: channel_def push_byte_def)

lemma channel_delimiter:
  assumes "channel n sess W p T" "partial p = []"
  shows "channel n sess (W @ [0]) (push_byte 0 p) T"
  using assms wire_packets_prefix [of n W "[0]"]
  by (auto simp: channel_def push_byte_def intro: inert_append simp flip: append_assoc)

lemma channel_frame:
  assumes "channel n sess W p T" "partial p \<noteq> []"
  shows "channel n sess (W @ [0]) (push_byte 0 p) T"
proof -
  let ?wire = "partial p @ [0]" and ?log = "log_frames p"
  obtain out f where out: "(case filter_frame p of
      Some f \<Rightarrow> map_prod id Some (run_filter f (length ?log) ?wire) | None \<Rightarrow> (?wire, None)) = (out, f)"
    by fastforce
  have push: "push_byte 0 p = p\<lparr>partial := [], log_frames := ?log @ [?wire], filter_frame := f, queue := queue p @ out\<rparr>"
    using assms(2) out by (simp add: push_byte_def Let_def)
  have whole: "whole_frame ?wire" using assms by (simp add: whole_frame_def channel_def)
  obtain pre where pre: "W = pre @ partial p" "delimited pre" using assms(1) by (auto simp: channel_def)
  have logged: "set (wire_packets n ?wire) \<subseteq> set (wire_packets n (W @ [0]))"
    using wire_packets_append [OF pre(2), of n ?wire] by (simp add: pre(1))
  have pieces: "inert n sess (insert ?wire (set ?log)) out"
      "\<And>g. f = Some g \<Longrightarrow> harmless n sess (insert ?wire (set ?log)) g"
    using out assms(1) harmless_run [OF _ whole, of n sess "set ?log" _ "length ?log"] whole
    by (auto simp: channel_def inert_frame map_prod_def split: prod.splits option.splits)
  have "inert n sess (insert ?wire (set ?log)) ((T @ queue p) @ out)"
    using assms(1) pieces(1) inert_append [OF inert_mono [of n sess "set ?log" "T @ queue p" "insert ?wire (set ?log)"]]
    by (auto simp: channel_def)
  moreover have "set (wire_packets n w) \<subseteq> set (wire_packets n (W @ [0]))" if "w \<in> set ?log" for w
    using assms(1) that wire_packets_prefix [of n W "[0]"] by (auto simp: channel_def)
  ultimately show ?thesis
    using assms(1) whole logged pieces(2) unfolding push by (auto simp: channel_def)
qed

lemma channel_push: "channel n sess W p T \<Longrightarrow> channel n sess (W @ [b]) (push_byte b p) T"
  using channel_byte channel_delimiter channel_frame by metis

lemma channel_pushes: "channel n sess W p T \<Longrightarrow> channel n sess (W @ bs) (fold push_byte bs p) T"
  by (induction bs rule: rev_induct) (simp_all add: channel_push flip: append_assoc)

text \<open>Every packet of the session that has come out of a channel has gone into it.\<close>

lemma channel_genuine:
  assumes "channel n sess W p T" "q \<in> set (wire_packets n T)" "session_of q = sess"
  shows "q \<in> set (wire_packets n W)"
proof -
  have "q \<in> set (wire_packets n (T @ queue p))" using assms(2) wire_packets_prefix [of n T "queue p"] by blast
  with inert_packets [of n sess "set (log_frames p)"] assms(1,3) show ?thesis by (fastforce simp: channel_def)
qed

section \<open>Both channels of a link\<close>

text \<open>
  What one end of a link keeps, \<open>here\<close> the session of its connection and \<open>there\<close> that of the peer:
  its outgoing pipe is a channel to a peer that has read \<open>T\<close>, its incoming pipe one from a peer that
  has written \<open>W\<close>. The three calls of a connection keep it.
\<close>

definition link_end :: "nat \<Rightarrow> u64 \<Rightarrow> u64 \<Rightarrow> u8 list \<Rightarrow> u8 list \<Rightarrow> endpoint tape \<Rightarrow> bool" where
  "link_end n here there W T t \<longleftrightarrow>
     channel n there (tape_out t) (outgoing (inner t)) T \<and>
     channel n here W (incoming (inner t)) (tape_in t)"

lemma link_end_read:
  "link_end n here there W T t \<Longrightarrow> tape_read endpoint_ops cx buf t = Some (r, buf', t') \<Longrightarrow>
     link_end n here there W T t'"
  using channel_take [of n here W "incoming (inner t)" "tape_in t"]
  by (auto simp: link_end_def tape_read_def endpoint_ops_def endpoint_read_def Let_def
      split: option.splits if_splits)

lemma link_end_write:
  assumes "link_end n here there W T t" "tape_write endpoint_ops cx buf t = Some (r, t')"
  shows "link_end n here there W T t'"
proof -
  have "channel n there (tape_out t @ take k buf) p T"
    if "wake_reader (fold push_byte (take k buf) (outgoing (inner t))) = (rang, p)" for k rang p
    using assms(1) channel_pushes [of n there "tape_out t" "outgoing (inner t)" T "take k buf"] that
      channel_wake [of n there _ "fold push_byte (take k buf) (outgoing (inner t))" T]
    by (simp add: link_end_def)
  then show ?thesis
    using assms
    by (auto simp: link_end_def tape_write_def endpoint_ops_def endpoint_write_def Let_def
        split: option.splits if_splits prod.splits)
qed

lemma link_end_flush:
  "link_end n here there W T t \<Longrightarrow> tape_flush endpoint_ops cx t = Some (r, t') \<Longrightarrow>
     link_end n here there W T t'"
  by (auto simp: link_end_def tape_flush_def endpoint_ops_def endpoint_flush_def
      split: option.splits if_splits)

interpretation shared_conn: reliable_link "taped (endpoint_params n)" "link_end n here there W T"
  for n here there W T
proof -
  have ops: "t_poll_read (link (taped (endpoint_params n))) = tape_read endpoint_ops"
      "t_poll_write (link (taped (endpoint_params n))) = tape_write endpoint_ops"
      "t_poll_flush (link (taped (endpoint_params n))) = tape_flush endpoint_ops"
    by (simp_all add: endpoint_params_def)
  have "transport_total (link (taped (endpoint_params n))) (\<lambda>_. True)"
    by (rule taped_total [OF endpoint_conn.transport_total_axioms])
  note total = transport_total.read_total [OF this TrueI, unfolded ops]
    transport_total.write_total [OF this TrueI, unfolded ops]
    transport_total.flush_total [OF this TrueI, unfolded ops]
    transport_total.read_keeps [OF this TrueI, unfolded ops, THEN conjunct2]
  show "reliable_link (taped (endpoint_params n)) (link_end n here there W T)"
    unfolding reliable_link_def transport_total_def ops
    by (meson total link_end_read link_end_write link_end_flush)
qed

end
