(* ===== verification/Link_Map.thy ===== *)
theory Link_Map
  imports End_To_End Sequence
begin

text \<open>
  A connection does not look into its link: a map of links that commutes with their methods commutes
  with every step and poll of the connections over them. So a link may carry ghost state: the runs
  of a connection with a tape are the runs of the connection itself.
\<close>

section \<open>A connection with another link\<close>

definition on_transport :: "('t \<Rightarrow> 'u) \<Rightarrow> ('t, 'c, 'e) reliable \<Rightarrow> ('u, 'c, 'e) reliable" where
  "on_transport h s =
     \<lparr>transport = h (transport s), timer = timer s, config = config s, health = health s,
      tx = tx s, tx_frame = tx_frame s, tx_len = tx_len s, tx_next = tx_next s,
      tx_deadline = tx_deadline s, tx_retries = tx_retries s, final_input = final_input s, out = out s,
      ack_pending = ack_pending s, ack_frame = ack_frame s, ack_len = ack_len s, rx_buf = rx_buf s, rx_len = rx_len s,
      rx_discarding = rx_discarding s, rx_payload = rx_payload s, rx_start = rx_start s, rx_end = rx_end s,
      rx_next = rx_next s, scratch = scratch s, waiters = waiters s, woken = woken s\<rparr>"

lemma on_transport_fields [simp]:
  "transport (on_transport h s) = h (transport s)" "timer (on_transport h s) = timer s"
  "config (on_transport h s) = config s" "health (on_transport h s) = health s"
  "tx (on_transport h s) = tx s" "tx_frame (on_transport h s) = tx_frame s"
  "tx_len (on_transport h s) = tx_len s" "tx_next (on_transport h s) = tx_next s"
  "tx_deadline (on_transport h s) = tx_deadline s"
  "tx_retries (on_transport h s) = tx_retries s"
  "final_input (on_transport h s) = final_input s" "out (on_transport h s) = out s"
  "ack_pending (on_transport h s) = ack_pending s" "ack_frame (on_transport h s) = ack_frame s"
  "ack_len (on_transport h s) = ack_len s" "rx_buf (on_transport h s) = rx_buf s"
  "rx_len (on_transport h s) = rx_len s" "rx_discarding (on_transport h s) = rx_discarding s"
  "rx_payload (on_transport h s) = rx_payload s" "rx_start (on_transport h s) = rx_start s"
  "rx_end (on_transport h s) = rx_end s" "rx_next (on_transport h s) = rx_next s"
  "scratch (on_transport h s) = scratch s" "waiters (on_transport h s) = waiters s"
  "woken (on_transport h s) = woken s"
  by (simp_all add: on_transport_def)

lemma on_transport_updates [simp]:
  "on_transport h (s\<lparr>transport := t\<rparr>) = (on_transport h s)\<lparr>transport := h t\<rparr>"
  "on_transport h (s\<lparr>timer := v1\<rparr>) = (on_transport h s)\<lparr>timer := v1\<rparr>"
  "on_transport h (s\<lparr>config := v2\<rparr>) = (on_transport h s)\<lparr>config := v2\<rparr>"
  "on_transport h (s\<lparr>health := v3\<rparr>) = (on_transport h s)\<lparr>health := v3\<rparr>"
  "on_transport h (s\<lparr>tx := v4\<rparr>) = (on_transport h s)\<lparr>tx := v4\<rparr>"
  "on_transport h (s\<lparr>tx_frame := v5\<rparr>) = (on_transport h s)\<lparr>tx_frame := v5\<rparr>"
  "on_transport h (s\<lparr>tx_len := v6\<rparr>) = (on_transport h s)\<lparr>tx_len := v6\<rparr>"
  "on_transport h (s\<lparr>tx_next := v7\<rparr>) = (on_transport h s)\<lparr>tx_next := v7\<rparr>"
  "on_transport h (s\<lparr>tx_deadline := v8\<rparr>) = (on_transport h s)\<lparr>tx_deadline := v8\<rparr>"
  "on_transport h (s\<lparr>tx_retries := v9\<rparr>) = (on_transport h s)\<lparr>tx_retries := v9\<rparr>"
  "on_transport h (s\<lparr>final_input := v10\<rparr>) = (on_transport h s)\<lparr>final_input := v10\<rparr>"
  "on_transport h (s\<lparr>out := v11\<rparr>) = (on_transport h s)\<lparr>out := v11\<rparr>"
  "on_transport h (s\<lparr>ack_pending := v12\<rparr>) = (on_transport h s)\<lparr>ack_pending := v12\<rparr>"
  "on_transport h (s\<lparr>ack_frame := v13\<rparr>) = (on_transport h s)\<lparr>ack_frame := v13\<rparr>"
  "on_transport h (s\<lparr>ack_len := v14\<rparr>) = (on_transport h s)\<lparr>ack_len := v14\<rparr>"
  "on_transport h (s\<lparr>rx_buf := v15\<rparr>) = (on_transport h s)\<lparr>rx_buf := v15\<rparr>"
  "on_transport h (s\<lparr>rx_len := v16\<rparr>) = (on_transport h s)\<lparr>rx_len := v16\<rparr>"
  "on_transport h (s\<lparr>rx_discarding := v17\<rparr>) = (on_transport h s)\<lparr>rx_discarding := v17\<rparr>"
  "on_transport h (s\<lparr>rx_payload := v18\<rparr>) = (on_transport h s)\<lparr>rx_payload := v18\<rparr>"
  "on_transport h (s\<lparr>rx_start := v19\<rparr>) = (on_transport h s)\<lparr>rx_start := v19\<rparr>"
  "on_transport h (s\<lparr>rx_end := v20\<rparr>) = (on_transport h s)\<lparr>rx_end := v20\<rparr>"
  "on_transport h (s\<lparr>rx_next := v21\<rparr>) = (on_transport h s)\<lparr>rx_next := v21\<rparr>"
  "on_transport h (s\<lparr>scratch := v22\<rparr>) = (on_transport h s)\<lparr>scratch := v22\<rparr>"
  "on_transport h (s\<lparr>waiters := v23\<rparr>) = (on_transport h s)\<lparr>waiters := v23\<rparr>"
  "on_transport h (s\<lparr>woken := v24\<rparr>) = (on_transport h s)\<lparr>woken := v24\<rparr>"
  by (simp_all add: on_transport_def)

section \<open>The parts that do not use the link\<close>

lemma select_frame_map: "select_frame (on_transport h s) = map_option (map_prod id (on_transport h)) (select_frame s)"
  by (auto simp: select_frame_def split: option.split Option.bind_splits)

lemma process_packet_map:
  assumes "capacity Q = capacity P"
  shows "process_packet Q p (on_transport h s) = map_option (on_transport h) (process_packet P p s)"
  using assms
  by (auto simp: process_packet_def MAX_PAYLOAD_def split: packet.split option.split Option.bind_splits)

lemma process_frame_map:
  assumes "capacity Q = capacity P"
  shows "process_frame Q stop (on_transport h s) = map_option (on_transport h) (process_frame P stop s)"
  using process_packet_map [OF assms, of _ h]
  by (auto simp: process_frame_def simp flip: on_transport_updates
      split: option.split Option.bind_splits sum.split prod.split)

lemma handle_frame_map:
  "capacity Q = capacity P \<Longrightarrow>
     handle_frame Q stop (on_transport h s) = map_option (on_transport h) (handle_frame P stop s)"
  by (auto simp: handle_frame_def process_frame_map)

lemma process_input_map:
  assumes "capacity Q = capacity P"
  shows "process_input Q (on_transport h s) = map_option (on_transport h) (process_input P s)"
  using assms
proof (induction P s rule: process_input.induct)
  case (1 P s)
  show ?case
    using handle_frame_map [OF "1.prems", of _ h s] "1.IH" "1.prems"
    by (subst (1 2) process_input.simps)
      (auto simp flip: on_transport_updates split: option.split Option.bind_splits)
qed

lemma failure_map: "failure (on_transport h s) = map_prod id (on_transport h) (failure s)"
  by (simp add: failure_def split: health.split)

lemma fail_map: "fail e (on_transport h s) = on_transport h (fail e s)"
  by (simp add: fail_def Let_def split: health.split)

lemma conditions_map [simp]:
  "is_healthy (on_transport h s) = is_healthy s" "write_ready (on_transport h s) = write_ready s"
  "flush_ready (on_transport h s) = flush_ready s" "op_ready op (on_transport h s) = op_ready op s"
  "set_waiters w new (on_transport h s) = on_transport h (set_waiters w new s)"
  by (simp_all add: is_healthy_def write_ready_def flush_ready_def op_ready_alt data_out_busy_def
      set_waiters_def split: op.split)

lemma waiters_map [simp]:
  "due_after op c (on_transport h s) = due_after op c s"
  "finish_waiters op cx c (on_transport h s) = finish_waiters op cx c s"
  by (simp_all add: due_after_def fun_eq_iff finish_waiters_def)

lemma finish_map: "finish op cx p (on_transport h s) = map_prod id (on_transport h) (finish op cx p s)"
  by (simp add: finish_eq)

lemma cancel_map: "cancel_pending operation (on_transport h s) = on_transport h (cancel_pending operation s)"
  by (simp add: cancel_pending_eq)

section \<open>Maps of links\<close>

locale link_map =
  fixes P :: "('t, 'c, 'e) params" and Q :: "('u, 'c, 'e) params" and h :: "'t \<Rightarrow> 'u"
  assumes same_params: "capacity Q = capacity P" "clock Q = clock P"
    and read_map: "t_poll_read (link Q) cx buf (h t) =
      map_option (\<lambda>(r, buf', t'). (r, buf', h t')) (t_poll_read (link P) cx buf t)"
    and write_map: "t_poll_write (link Q) cx buf (h t) = map_option (map_prod id h) (t_poll_write (link P) cx buf t)"
    and flush_map: "t_poll_flush (link Q) cx (h t) = map_option (map_prod id h) (t_poll_flush (link P) cx t)"
begin

text \<open>The results of a step and of a poll, with the state mapped\<close>

abbreviation mapped :: "'r \<times> nat \<times> ('t, 'c, 'e) reliable \<Rightarrow> 'r \<times> nat \<times> ('u, 'c, 'e) reliable" where
  "mapped \<equiv> map_prod id (map_prod id (on_transport h))"

lemma MAX_PAYLOAD_map: "MAX_PAYLOAD Q = MAX_PAYLOAD P" "FINAL_INPUT Q = FINAL_INPUT P"
  by (simp_all add: MAX_PAYLOAD_def FINAL_INPUT_def same_params)

lemma poll_writing_map:
  "poll_writing Q cx fr k (on_transport h s) = map_option (map_prod id (on_transport h)) (poll_writing P cx fr k s)"
  by (cases fr) (auto simp: poll_writing_def Let_def write_map split: Option.bind_splits poll.split sum.split)

lemma poll_flushing_map:
  "poll_flushing Q cx fr (on_transport h s) = map_option (map_prod id (on_transport h)) (poll_flushing P cx fr s)"
  by (auto simp: poll_flushing_def Let_def flush_map same_params
      split: Option.bind_splits poll.split sum.split prod.split)

lemma poll_output_map: "poll_output Q cx (b, on_transport h s) = map_option mapped (poll_output P cx (b, s))"
  by (auto simp: poll_output_def Let_def select_frame_map poll_writing_map poll_flushing_map
      split: Option.bind_splits out.split prod.split)

lemma poll_input_map: "poll_input Q cx (b, on_transport h s) = map_option mapped (poll_input P cx (b, s))"
  by (auto simp: poll_input_def Let_def read_map process_input_map [OF same_params(1)] simp flip: on_transport_updates
      split: Option.bind_splits poll.split sum.split prod.split)

lemma poll_timer_map: "poll_timer Q cx i (b, on_transport h s) = map_option mapped (poll_timer P cx i (b, s))"
  by (auto simp: poll_timer_def Let_def same_params MAX_PAYLOAD_map
      split: Option.bind_splits option.split prod.split)

lemma try_bind_map:
  assumes "\<And>w b s. g' w (b, on_transport h s) = map_option mapped (g w (b, s))"
  shows "try_bind (map_option mapped x) g' = map_option mapped (try_bind x g)"
  using assms by (cases x) (auto simp: try_bind_def split: sum.split)

lemma step_map: "step Q cx (b, on_transport h s) = map_option mapped (step P cx (b, s))"
  unfolding step_def poll_output_map
  by (intro try_bind_map) (simp add: poll_input_map poll_timer_map try_bind_map)

lemma drive_loop_map:
  "drive_loop Q cx (b, on_transport h s) = map_option mapped (drive_loop P cx (b, s))"
proof (induction b arbitrary: s rule: less_induct)
  case (less b)
  show ?case
  proof (cases "step P cx (b, s)")
    case None
    then show ?thesis by (subst (1 2) drive_loop.simps) (simp add: step_map)
  next
    case (Some res)
    then obtain r b' s' where st: "step P cx (b, s) = Some (r, b', s')" by (cases res) auto
    have "drive_loop Q cx (b', on_transport h s') = map_option mapped (drive_loop P cx (b', s'))"
      if "r = Inr Progress" using less.IH step_budget(2) [OF st that] by blast
    then show ?thesis
      by (subst (1 2) drive_loop.simps) (auto simp: step_map st fail_map split: sum.split work.split)
  qed
qed

lemma drive_map: "drive Q cx (b, on_transport h s) = map_option mapped (drive P cx (b, s))"
  by (simp add: drive_def drive_loop_map)

lemma queue_packet_map:
  "queue_packet Q cx buf (on_transport h s) = map_option (map_prod id (on_transport h)) (queue_packet P cx buf s)"
proof (cases "drive P cx (new_budget, s)")
  case None
  then show ?thesis by (simp add: queue_packet_def drive_map)
next
  case (Some res)
  then obtain w b s1 where d: "drive P cx (new_budget, s) = Some (w, b, s1)" by (cases res) auto
  define s2 where "s2 = (if write_ready s1 \<and> tx_next s1 > ucast (- 1 :: u32) then fail SequenceExhausted s1 else s1)"
  have s2: "(if write_ready s1 \<and> tx_next s1 > ucast (- 1 :: u32)
      then fail SequenceExhausted (on_transport h s1) else on_transport h s1) = on_transport h s2"
    by (simp add: s2_def fail_map)
  obtain e s3 where f: "failure s2 = (e, s3)" by fastforce
  show ?thesis
    by (simp add: queue_packet_def d drive_map s2 failure_map f Let_def flip: s2_def)
      (auto simp: drive_map Let_def MAX_PAYLOAD_map simp flip: on_transport_updates
        split: option.split Option.bind_splits prod.split)
qed

section \<open>Polls\<close>

lemma poll_write_map:
  "poll_write Q cx buf (on_transport h s) = map_option (map_prod id (on_transport h)) (poll_write P cx buf s)"
  by (auto simp: poll_write_def queue_packet_map finish_map split: Option.bind_splits prod.split)

lemma poll_read_map:
  "poll_read Q cx buf (on_transport h s) = map_option (\<lambda>(r, buf', s'). (r, buf', on_transport h s')) (poll_read P cx buf s)"
proof (cases "drive P cx (new_budget, s)")
  case None
  then show ?thesis by (simp add: poll_read_def drive_map)
next
  case (Some res)
  then obtain w b s1 where d: "drive P cx (new_budget, s) = Some (w, b, s1)" by (cases res) auto
  obtain e s2 where f: "failure s1 = (e, s2)" by fastforce
  show ?thesis
  proof (cases "rx_start s1 < rx_end s1")
    case True
    then show ?thesis
      by (auto simp: poll_read_def d drive_map finish_map Let_def case_prod_unfold simp flip: on_transport_updates
          split: Option.bind_splits)
  next
    case False
    then show ?thesis
      by (cases e) (simp_all add: poll_read_def d drive_map f failure_map finish_map Let_def case_prod_unfold)
  qed
qed

lemma poll_flush_map:
  "poll_flush Q cx (on_transport h s) = map_option (map_prod id (on_transport h)) (poll_flush P cx s)"
  by (auto simp: poll_flush_def Let_def drive_map failure_map finish_map
      split: Option.bind_splits prod.split option.split)

lemma poll_progress_map:
  "poll_progress Q cx (on_transport h s) = map_option (map_prod id (on_transport h)) (poll_progress P cx s)"
  by (auto simp: poll_progress_def Let_def drive_map failure_map finish_map
      split: Option.bind_splits prod.split option.split)

lemma new_reliable_map:
  "new_reliable Q (h t) c cfg = map_sum id (on_transport h) (new_reliable P t c cfg)"
  by (simp add: new_reliable_def MAX_PAYLOAD_map same_params on_transport_def)

end

section \<open>The tape is a ghost\<close>

interpretation untape: link_map "taped P" P inner for P :: "('t, 'c, 'e) params"
proof unfold_locales
  fix cx buf and t :: "'t tape"
  show "t_poll_read (link P) cx buf (inner t) =
      map_option (\<lambda>(r, buf', t'). (r, buf', inner t')) (t_poll_read (link (taped P)) cx buf t)"
    by (cases "t_poll_read (link P) cx buf (inner t)") (auto simp: tape_read_def)
  show "t_poll_write (link P) cx buf (inner t) = map_option (map_prod id inner) (t_poll_write (link (taped P)) cx buf t)"
    by (cases "t_poll_write (link P) cx buf (inner t)") (auto simp: tape_write_def)
  show "t_poll_flush (link P) cx (inner t) = map_option (map_prod id inner) (t_poll_flush (link (taped P)) cx t)"
    by (cases "t_poll_flush (link P) cx (inner t)") (auto simp: tape_flush_def)
qed simp_all

text \<open>A connection over the taped link, without the tape\<close>

abbreviation untaped :: "('t tape, 'c, 'e) reliable \<Rightarrow> ('t, 'c, 'e) reliable" where
  "untaped \<equiv> on_transport inner"

lemma new_reliable_taped:
  "new_reliable P t c cfg = Inr s \<Longrightarrow> \<exists>s'. new_reliable (taped P) (blank_tape t) c cfg = Inr s' \<and> untaped s' = s"
  using untape.new_reliable_map [of P "blank_tape t" c cfg]
  by (cases "new_reliable (taped P) (blank_tape t) c cfg") (auto simp: blank_tape_def)

lemma poll_taped:
  "poll_write P cx buf (untaped s) = Some (w, s') \<Longrightarrow> \<exists>t. poll_write (taped P) cx buf s = Some (w, t) \<and> untaped t = s'"
  "poll_read P cx buf (untaped s) = Some (r, buf', s') \<Longrightarrow>
     \<exists>t. poll_read (taped P) cx buf s = Some (r, buf', t) \<and> untaped t = s'"
  "poll_flush P cx (untaped s) = Some (f, s') \<Longrightarrow> \<exists>t. poll_flush (taped P) cx s = Some (f, t) \<and> untaped t = s'"
  "poll_progress P cx (untaped s) = Some (p, s') \<Longrightarrow> \<exists>t. poll_progress (taped P) cx s = Some (p, t) \<and> untaped t = s'"
  by (auto simp: untape.poll_write_map untape.poll_read_map untape.poll_flush_map untape.poll_progress_map)

text \<open>The runs of a connection over the link itself\<close>

inductive plain_run ::
  "('t, 'c, 'e) params \<Rightarrow> ('t \<Rightarrow> bool) \<Rightarrow> u8 list list \<Rightarrow> u8 list \<Rightarrow> ('t, 'c, 'e) reliable \<Rightarrow> bool"
  for P tinv where
    plain_start: "tinv t \<Longrightarrow> new_reliable P t c cfg = Inr s \<Longrightarrow> plain_run P tinv [] [] s"
  | plain_write: "plain_run P tinv sent got s \<Longrightarrow> poll_write P cx buf s = Some (r, s') \<Longrightarrow>
      plain_run P tinv (accepted r buf sent) got s'"
  | plain_read: "plain_run P tinv sent got s \<Longrightarrow> poll_read P cx buf s = Some (r, buf', s') \<Longrightarrow>
      plain_run P tinv sent (delivered r buf' got) s'"
  | plain_flush: "plain_run P tinv sent got s \<Longrightarrow> poll_flush P cx s = Some (f, s') \<Longrightarrow> plain_run P tinv sent got s'"
  | plain_progress: "plain_run P tinv sent got s \<Longrightarrow> poll_progress P cx s = Some (p, s') \<Longrightarrow> plain_run P tinv sent got s'"
  | plain_cancel: "plain_run P tinv sent got s \<Longrightarrow> plain_run P tinv sent got (cancel_pending operation s)"
  | plain_world: "plain_run P tinv sent got s \<Longrightarrow> tinv t \<Longrightarrow> plain_run P tinv sent got (s\<lparr>transport := t, timer := c\<rparr>)"

text \<open>Every run of the taped connection is one of the connection itself, and the converse.\<close>

lemma conn_run_plain: "conn_run P tinv sent got s \<Longrightarrow> plain_run P tinv sent got (untaped s)"
proof (induction rule: conn_run.induct)
  case (run_start t c cfg s)
  then show ?case
    using untape.new_reliable_map [of P "blank_tape t" c cfg] by (auto simp: blank_tape_def intro: plain_start)
next
  case (run_write sent got s cx buf r s')
  then show ?case using untape.poll_write_map [of P cx buf s] by (auto intro: plain_write)
next
  case (run_read sent got s cx buf r buf' s')
  then show ?case using untape.poll_read_map [of P cx buf s] by (auto intro: plain_read)
next
  case (run_flush sent got s cx r s')
  then show ?case using untape.poll_flush_map [of P cx s] by (auto intro: plain_flush)
next
  case (run_progress sent got s cx r s')
  then show ?case using untape.poll_progress_map [of P cx s] by (auto intro: plain_progress)
next
  case (run_cancel sent got s operation)
  then show ?case by (simp add: cancel_map [symmetric] plain_cancel)
next
  case (run_world sent got s t c)
  then show ?case using plain_world [of P tinv sent got "untaped s" t c] by simp
qed

lemma plain_run_taped: "plain_run P tinv sent got s \<Longrightarrow> \<exists>s'. conn_run P tinv sent got s' \<and> untaped s' = s"
proof (induction rule: plain_run.induct)
  case (plain_start t c cfg s)
  then show ?case by (blast dest: new_reliable_taped intro: run_start)
next
  case (plain_write sent got s cx buf r s')
  then show ?case by (blast dest: poll_taped(1) intro: run_write)
next
  case (plain_read sent got s cx buf r buf' s')
  then show ?case by (blast dest: poll_taped(2) intro: run_read)
next
  case (plain_flush sent got s cx f s')
  then show ?case by (blast dest: poll_taped(3) intro: run_flush)
next
  case (plain_progress sent got s cx p s')
  then show ?case by (blast dest: poll_taped(4) intro: run_progress)
next
  case (plain_cancel sent got s operation)
  then show ?case by (auto simp flip: cancel_map intro: run_cancel)
next
  case (plain_world sent got s t c)
  then obtain s' where "conn_run P tinv sent got s'" "untaped s' = s" by blast
  with run_world [OF this(1) plain_world(2), of c] show ?case by force
qed

lemma untaped_inv: "conn_inv (taped P) (tape_inv tinv) s \<Longrightarrow> conn_inv P tinv (untaped s)"
  by (auto simp: conn_inv_def inv_defs tape_inv_def)

lemma plain_run_inv:
  assumes "reliable_link P tinv" "plain_run P tinv sent got s"
  shows "conn_inv P tinv s"
proof -
  obtain t where t: "conn_run P tinv sent got t" "untaped t = s" using plain_run_taped [OF assms(2)] by blast
  from untaped_inv [OF reliable_link.link_ok_inv [OF assms(1) reliable_link.conn_run_ok [OF assms(1) t(1)]]] t(2)
  show ?thesis by simp
qed

end
