(* ===== verification/Simulation.thy ===== *)
theory Simulation
  imports Shared_Link Link_Map Connection_Properties
begin

text \<open>
  Two connections on the two ends of a link, as \<open>Sim\<close> of \<open>src/tests/connection.rs\<close> holds them: the
  pipes and the clock are shared. A run of the two is any sequence of operations of either
  application and of what a test may do to the link and the clock; nothing is assumed of what arrives.
\<close>

section \<open>The configuration stays\<close>

lemma select_frame_config: "select_frame s = Some (b, s') \<Longrightarrow> config s' = config s"
  by (auto simp: select_frame_def elim!: bind_SomeE split: if_splits option.splits)

lemma poll_output_config: "poll_output P cx (b, s) = Some (r, b', s') \<Longrightarrow> config s' = config s"
  by (auto simp: poll_output_def poll_writing_def poll_flushing_def Let_def elim!: bind_SomeE
      dest!: select_frame_config split: if_splits out.splits prod.splits poll.splits sum.splits)

lemma poll_input_config: "poll_input P cx (b, s) = Some (r, b', s') \<Longrightarrow> config s' = config s"
  by (auto simp: poll_input_def Let_def same_output_def elim!: bind_SomeE
      dest!: process_input_same_output split: if_splits poll.splits sum.splits prod.splits)

lemma poll_timer_config: "poll_timer P cx i (b, s) = Some (r, b', s') \<Longrightarrow> config s' = config s"
  by (auto simp: poll_timer_def Let_def elim!: bind_SomeE split: if_splits option.splits prod.splits)

lemma step_config: "step P cx (b, s) = Some (r, b', s') \<Longrightarrow> config s' = config s"
  unfolding step_def
  by (auto elim!: try_bind_SomeE dest!: poll_output_config poll_input_config poll_timer_config)

lemma fail_config [simp]: "config (fail e s) = config s"
  by (simp add: fail_def Let_def split: health.split)

lemma drive_config: "drive P cx (b, s) = Some (w, b', s') \<Longrightarrow> config s' = config s"
proof (cases "is_healthy s")
  case True
  assume "drive P cx (b, s) = Some (w, b', s')"
  with True have "drive_loop P cx (b, s) = Some (w, b', s')" by (simp add: drive_def)
  from drive_loop_steps [OF this] obtain b0 s0 r b1 s1 where
    steps: "(progress_step P cx)\<^sup>*\<^sup>* (b, s) (b0, s0)" "step P cx (b0, s0) = Some (r, b1, s1)"
      "last_step cx r (b1, s1) (w, b', s')"
    by auto
  have "config (snd (b0, s0)) = config s"
    by (rule steps_keep [OF steps(1)]) (auto dest: step_config)
  with steps(2,3) show ?thesis
    by (auto simp: last_step_def dest!: step_config split: sum.splits work.splits)
qed (simp add: drive_def)

lemma failure_config: "failure s = (e, s') \<Longrightarrow> config s' = config s"
  by (auto elim: failure_cases)

lemma finish_config: "finish op cx p s = (p', s') \<Longrightarrow> config s' = config s"
  by (auto simp: finish_eq set_waiters_def)

lemma queue_packet_config: "queue_packet P cx buf s = Some (r, s') \<Longrightarrow> config s' = config s"
  by (erule queue_packet_cases)
    (auto simp: seq_check_def queued_def dest!: drive_config failure_config split: if_splits)

lemma poll_config:
  "poll_write P cx buf s = Some (w, s') \<Longrightarrow> config s' = config s"
  "poll_read P cx buf s = Some (r, buf', s') \<Longrightarrow> config s' = config s"
  "poll_flush P cx s = Some (f, s') \<Longrightarrow> config s' = config s"
  "poll_progress P cx s = Some (p, s') \<Longrightarrow> config s' = config s"
  by (auto simp: poll_write_def poll_read_def poll_flush_def poll_progress_def Let_def elim!: bind_SomeE
      dest!: queue_packet_config finish_config failure_config drive_config split: if_splits prod.splits option.splits)

lemma cancel_config [simp]: "config (cancel_pending operation s) = config s"
  by (simp add: cancel_pending_eq set_waiters_def)

section \<open>Runs of two connections\<close>

text \<open>
  Everything a test may do to an end of a link: the methods of \<open>Endpoint\<close>, with any filters and bytes
  that make up no packet of the session that will read them, but those of frames that are in the log
  of the pipe or that the filter is given.
\<close>

inductive test_action :: "nat \<Rightarrow> u64 \<Rightarrow> u64 \<Rightarrow> endpoint \<Rightarrow> endpoint \<Rightarrow> bool" for n here there t where
  "harmless n there (set (log_frames (outgoing t))) f \<Longrightarrow> test_action n here there t (filter_outgoing f t)"
| "inert n here (set (log_frames (incoming t))) bs \<Longrightarrow> test_action n here there t (inject_incoming bs t)"
| "test_action n here there t (close_incoming t)"
| "test_action n here there t (set_read_chunk chunk t)"
| "test_action n here there t (set_write_chunk chunk t)"
| "test_action n here there t (block_writes blocked t)"
| "test_action n here there t (limit_writes budget t)"
| "test_action n here there t (block_flush blocked t)"
| "test_action n here there t (block_reads blocked t)"
| "test_action n here there t (fail_next_read error t)"
| "test_action n here there t (fail_next_write error t)"
| "test_action n here there t (fail_next_flush error t)"
| "test_action n here there t (accept_zero_bytes enabled t)"

type_synonym conn = "(endpoint, fake_clock, string) reliable"

text \<open>The pipes and the clock after an operation of \<open>a\<close>, as the other side \<open>b\<close> sees them\<close>

definition beside :: "conn \<Rightarrow> conn \<Rightarrow> conn" where
  "beside a b = b\<lparr>transport := follow (transport a) (transport b), timer := timer a\<rparr>"

definition on_link :: "endpoint \<Rightarrow> conn \<Rightarrow> conn" where
  "on_link t s = s\<lparr>transport := t\<rparr>"

text \<open>
  \<open>sim_run n sentA gotA sentB gotB a b\<close>: the payloads accepted by and the bytes delivered to each
  application, and the two connections. The rules are for the first; the last one exchanges the two.
\<close>

inductive sim_run :: "nat \<Rightarrow> u8 list list \<Rightarrow> u8 list \<Rightarrow> u8 list list \<Rightarrow> u8 list \<Rightarrow> conn \<Rightarrow> conn \<Rightarrow> bool"
  for n where
  sim_start: "new_link usize_max = (ea, eb) \<Longrightarrow>
      new_reliable (endpoint_params n) ea c ca = Inr a \<Longrightarrow>
      new_reliable (endpoint_params n) eb c cb = Inr b \<Longrightarrow> sim_run n [] [] [] [] a b"
| sim_write: "sim_run n sentA gotA sentB gotB a b \<Longrightarrow> poll_write (endpoint_params n) cx buf a = Some (r, a') \<Longrightarrow>
      sim_run n (accepted r buf sentA) gotA sentB gotB a' (beside a' b)"
| sim_read: "sim_run n sentA gotA sentB gotB a b \<Longrightarrow>
      poll_read (endpoint_params n) cx buf a = Some (r, buf', a') \<Longrightarrow>
      sim_run n sentA (delivered r buf' gotA) sentB gotB a' (beside a' b)"
| sim_flush: "sim_run n sentA gotA sentB gotB a b \<Longrightarrow> poll_flush (endpoint_params n) cx a = Some (f, a') \<Longrightarrow>
      sim_run n sentA gotA sentB gotB a' (beside a' b)"
| sim_progress: "sim_run n sentA gotA sentB gotB a b \<Longrightarrow> poll_progress (endpoint_params n) cx a = Some (p, a') \<Longrightarrow>
      sim_run n sentA gotA sentB gotB a' (beside a' b)"
| sim_cancel: "sim_run n sentA gotA sentB gotB a b \<Longrightarrow>
      sim_run n sentA gotA sentB gotB (cancel_pending operation a) b"
| sim_test: "sim_run n sentA gotA sentB gotB a b \<Longrightarrow>
      test_action n (session (config a)) (session (config b)) (transport a) t \<Longrightarrow>
      sim_run n sentA gotA sentB gotB (on_link t a) (beside (on_link t a) b)"
| sim_time: "sim_run n sentA gotA sentB gotB a b \<Longrightarrow> advance ticks (timer a) = Some (rang, c) \<Longrightarrow>
      sim_run n sentA gotA sentB gotB (a\<lparr>timer := c\<rparr>) (b\<lparr>timer := c\<rparr>)"
| sim_swap: "sim_run n sentA gotA sentB gotB a b \<Longrightarrow> sim_run n sentB gotB sentA gotA b a"

section \<open>The invariant\<close>

text \<open>It is about the connections with tapes: what each has written and read binds the pipes.\<close>

type_synonym taped_conn = "(endpoint tape, fake_clock, string) reliable"

abbreviation taped_params :: "nat \<Rightarrow> (endpoint tape, fake_clock, string) params" where
  "taped_params n \<equiv> taped (endpoint_params n)"

definition ends_ok :: "nat \<Rightarrow> taped_conn \<Rightarrow> taped_conn \<Rightarrow> bool" where
  "ends_ok n a b \<longleftrightarrow>
     shared (inner (transport a)) (inner (transport b)) \<and>
     link_end n (session (config a)) (session (config b)) (tape_out (transport b)) (tape_in (transport b)) (transport a)"

definition pair_run :: "nat \<Rightarrow> u8 list list \<Rightarrow> u8 list \<Rightarrow> u8 list list \<Rightarrow> u8 list \<Rightarrow> taped_conn \<Rightarrow> taped_conn \<Rightarrow> bool" where
  "pair_run n sentA gotA sentB gotB a b \<longleftrightarrow>
     conn_run (endpoint_params n) (\<lambda>_. True) sentA gotA a \<and>
     conn_run (endpoint_params n) (\<lambda>_. True) sentB gotB b \<and> ends_ok n a b"

definition sim_ok :: "nat \<Rightarrow> u8 list list \<Rightarrow> u8 list \<Rightarrow> u8 list list \<Rightarrow> u8 list \<Rightarrow> conn \<Rightarrow> conn \<Rightarrow> bool" where
  "sim_ok n sentA gotA sentB gotB a b \<longleftrightarrow>
     (\<exists>a' b'. pair_run n sentA gotA sentB gotB a' b' \<and> untaped a' = a \<and> untaped b' = b)"

lemma ends_ok_swap: "ends_ok n a b \<Longrightarrow> ends_ok n b a"
  by (auto simp: ends_ok_def link_end_def shared_def)

text \<open>What the other side sees, with tapes\<close>

definition tape_beside :: "taped_conn \<Rightarrow> taped_conn \<Rightarrow> taped_conn" where
  "tape_beside a b = b\<lparr>transport := (transport b)\<lparr>inner := follow (inner (transport a)) (inner (transport b))\<rparr>,
     timer := timer a\<rparr>"

lemma untaped_beside [simp]: "untaped (tape_beside a b) = beside (untaped a) (untaped b)"
  by (simp add: tape_beside_def beside_def)

lemma test_action_end:
  assumes "test_action n here there (inner t) t'" "link_end n here there W T t"
  shows "link_end n here there W T (t\<lparr>inner := t'\<rparr>)"
  using assms
  by cases
    (auto simp: link_end_def filter_outgoing_def inject_incoming_def close_incoming_def set_read_chunk_def
      set_write_chunk_def block_writes_def limit_writes_def block_flush_def block_reads_def release_def
      fail_next_read_def fail_next_write_def fail_next_flush_def accept_zero_bytes_def wake_reader_def
      channel_filter channel_inject split: option.splits)

text \<open>A connection over a link end keeps it, whatever it does.\<close>

lemma on_end:
  assumes "pair_run n sentA gotA sentB gotB a b"
  shows "conn_inv (taped_params n)
    (link_end n (session (config a)) (session (config b)) (tape_out (transport b)) (tape_in (transport b))) a"
proof -
  have "conn_run (endpoint_params n) (\<lambda>_. True) sentA gotA a" using assms by (simp add: pair_run_def)
  from reliable_link.link_ok_inv [OF endpoint_conn.reliable_link_axioms
      reliable_link.conn_run_ok [OF endpoint_conn.reliable_link_axioms this]]
  show ?thesis using assms by (simp add: pair_run_def ends_ok_def conn_inv_def core_inv_def)
qed

text \<open>After an operation of one side the other follows.\<close>

lemma pair_beside:
  assumes "pair_run n sentA gotA sentB gotB a b" "conn_run (endpoint_params n) (\<lambda>_. True) sentA' gotA' a'"
    and "link_end n (session (config a)) (session (config b)) (tape_out (transport b)) (tape_in (transport b)) (transport a')"
    and "config a' = config a"
  shows "pair_run n sentA' gotA' sentB gotB a' (tape_beside a' b)"
proof -
  have "conn_run (endpoint_params n) (\<lambda>_. True) sentB gotB (tape_beside a' b)"
    using assms(1) run_world [of "endpoint_params n" "\<lambda>_. True" sentB gotB b _ "timer a'"]
    by (simp add: pair_run_def tape_beside_def)
  then show ?thesis
    using assms by (simp add: pair_run_def ends_ok_def tape_beside_def follow_shared)
qed

lemma pair_polls:
  assumes "pair_run n sentA gotA sentB gotB a b"
  shows "poll_write (taped_params n) cx buf a = Some (w, a') \<Longrightarrow>
      pair_run n (accepted w buf sentA) gotA sentB gotB a' (tape_beside a' b)"
    and "poll_read (taped_params n) cx buf a = Some (r, buf', a') \<Longrightarrow>
      pair_run n sentA (delivered r buf' gotA) sentB gotB a' (tape_beside a' b)"
    and "poll_flush (taped_params n) cx a = Some (f, a') \<Longrightarrow> pair_run n sentA gotA sentB gotB a' (tape_beside a' b)"
    and "poll_progress (taped_params n) cx a = Some (p, a') \<Longrightarrow> pair_run n sentA gotA sentB gotB a' (tape_beside a' b)"
proof -
  note inv = on_end [OF assms]
  have run: "conn_run (endpoint_params n) (\<lambda>_. True) sentA gotA a" using assms by (simp add: pair_run_def)
  note kept = shared_conn.poll_write_inv [OF inv, of cx buf] shared_conn.poll_read_inv [OF inv, of cx buf]
    shared_conn.poll_flush_inv [OF inv, of cx] shared_conn.poll_progress_inv [OF inv, of cx]
  show "pair_run n (accepted w buf sentA) gotA sentB gotB a' (tape_beside a' b)"
    if "poll_write (taped_params n) cx buf a = Some (w, a')"
    using that kept(1) by (intro pair_beside [OF assms run_write [OF run that]]) (auto dest: conn_inv_parts(2) poll_config(1))
  show "pair_run n sentA (delivered r buf' gotA) sentB gotB a' (tape_beside a' b)"
    if "poll_read (taped_params n) cx buf a = Some (r, buf', a')"
    using that kept(2) by (intro pair_beside [OF assms run_read [OF run that]]) (auto dest: conn_inv_parts(2) poll_config(2))
  show "pair_run n sentA gotA sentB gotB a' (tape_beside a' b)" if "poll_flush (taped_params n) cx a = Some (f, a')"
    using that kept(3) by (intro pair_beside [OF assms run_flush [OF run that]]) (auto dest: conn_inv_parts(2) poll_config(3))
  show "pair_run n sentA gotA sentB gotB a' (tape_beside a' b)" if "poll_progress (taped_params n) cx a = Some (p, a')"
    using that kept(4) by (intro pair_beside [OF assms run_progress [OF run that]]) (auto dest: conn_inv_parts(2) poll_config(4))
qed

lemma pair_test:
  assumes "pair_run n sentA gotA sentB gotB a b"
    and "test_action n (session (config a)) (session (config b)) (inner (transport a)) t"
    and "a' = a\<lparr>transport := (transport a)\<lparr>inner := t\<rparr>\<rparr>"
  shows "pair_run n sentA gotA sentB gotB a' (tape_beside a' b)"
proof (rule pair_beside [OF assms(1)])
  show "conn_run (endpoint_params n) (\<lambda>_. True) sentA gotA a'"
    using assms(1,3) run_world [of "endpoint_params n" "\<lambda>_. True" sentA gotA a t "timer a"] by (simp add: pair_run_def)
  show "link_end n (session (config a)) (session (config b)) (tape_out (transport b)) (tape_in (transport b)) (transport a')"
    using assms test_action_end by (simp add: pair_run_def ends_ok_def)
qed (simp add: assms(3))

lemma pair_other:
  assumes "pair_run n sentA gotA sentB gotB a b"
  shows "pair_run n sentA gotA sentB gotB (cancel_pending operation a) b"
    and "pair_run n sentA gotA sentB gotB (a\<lparr>timer := c\<rparr>) (b\<lparr>timer := c\<rparr>)"
    and "pair_run n sentB gotB sentA gotA b a"
proof -
  show "pair_run n sentA gotA sentB gotB (cancel_pending operation a) b"
    using assms
    by (auto simp: pair_run_def ends_ok_def cancel_pending_eq set_waiters_def dest: run_cancel [of _ _ _ _ _ operation])
  show "pair_run n sentA gotA sentB gotB (a\<lparr>timer := c\<rparr>) (b\<lparr>timer := c\<rparr>)"
    using assms run_world [of "endpoint_params n" "\<lambda>_. True" sentA gotA a "inner (transport a)" c]
      run_world [of "endpoint_params n" "\<lambda>_. True" sentB gotB b "inner (transport b)" c]
    by (simp add: pair_run_def ends_ok_def)
  show "pair_run n sentB gotB sentA gotA b a" using assms by (simp add: pair_run_def ends_ok_swap)
qed

lemma sim_ok_run: "sim_run n sentA gotA sentB gotB a b \<Longrightarrow> sim_ok n sentA gotA sentB gotB a b"
proof (induction rule: sim_run.induct)
  case (sim_start usize_max ea eb c ca a cb b)
  obtain a' b' where new: "new_reliable (taped_params n) (blank_tape ea) c ca = Inr a'" "untaped a' = a"
      "new_reliable (taped_params n) (blank_tape eb) c cb = Inr b'" "untaped b' = b"
    using sim_start(2,3) by (blast dest: new_reliable_taped)
  note fields = new_reliable_fields [OF new(1)] new_reliable_fields [OF new(3)]
  have "ends_ok n a' b'"
    using sim_start(1) by (auto simp: ends_ok_def link_end_def shared_def fields blank_tape_def new_link_def new_endpoint_def)
  with new have "pair_run n [] [] [] [] a' b'" by (auto simp: pair_run_def intro: run_start)
  with new show ?case by (auto simp: sim_ok_def)
next
  case (sim_write sentA gotA sentB gotB a b cx buf w a')
  then show ?case by (auto simp: sim_ok_def dest!: poll_taped(1) dest: pair_polls(1) intro: exI untaped_beside)
next
  case (sim_read sentA gotA sentB gotB a b cx buf r buf' a')
  then show ?case by (auto simp: sim_ok_def dest!: poll_taped(2) dest: pair_polls(2) intro: exI untaped_beside)
next
  case (sim_flush sentA gotA sentB gotB a b cx f a')
  then show ?case by (auto simp: sim_ok_def dest!: poll_taped(3) dest: pair_polls(3) intro: exI untaped_beside)
next
  case (sim_progress sentA gotA sentB gotB a b cx p a')
  then show ?case by (auto simp: sim_ok_def dest!: poll_taped(4) dest: pair_polls(4) intro: exI untaped_beside)
next
  case (sim_cancel sentA gotA sentB gotB a b operation)
  then show ?case using pair_other(1) by (fastforce simp: sim_ok_def cancel_map)
next
  case (sim_test sentA gotA sentB gotB a b t)
  then obtain a' b' where ok: "pair_run n sentA gotA sentB gotB a' b'" "untaped a' = a" "untaped b' = b"
    by (auto simp: sim_ok_def)
  have "test_action n (session (config a')) (session (config b')) (inner (transport a')) t"
    using sim_test(2) ok(2,3) by auto
  from pair_test [OF ok(1) this refl] ok(2,3) show ?case
    unfolding sim_ok_def by (intro exI conjI) (auto simp: on_link_def)
next
  case (sim_time sentA gotA sentB gotB a b ticks rang c)
  then obtain a' b' where ok: "pair_run n sentA gotA sentB gotB a' b'" "untaped a' = a" "untaped b' = b"
    by (auto simp: sim_ok_def)
  from pair_other(2) [OF ok(1), of c] ok(2,3) show ?case unfolding sim_ok_def by (intro exI conjI) auto
next
  case (sim_swap sentA gotA sentB gotB a b)
  then show ?case using pair_other(3) by (fastforce simp: sim_ok_def)
qed

text \<open>So what a connection finds in its input is genuine.\<close>

lemma ends_genuine: "ends_ok n a b \<Longrightarrow> genuine (endpoint_params n) a (endpoint_params n) b"
  using channel_genuine [of n "session (config b)" "tape_out (transport a)" "outgoing (inner (transport a))"
      "tape_in (transport b)"]
  by (auto simp: ends_ok_def link_end_def genuine_def endpoint_params_def)

lemma pair_delivery:
  assumes "pair_run n sentA gotA sentB gotB a b" "session (config a) = session (config b)"
  shows "gotB @ unread b = concat (take (unat (rx_next b)) sentA)" "unat (rx_next b) \<le> length sentA"
    and "tx a = TxIdle \<Longrightarrow> gotB @ unread b = concat sentA"
proof -
  note ok = endpoint_conn.reliable_link_axioms [of n]
  have run: "link_ok (endpoint_params n) (\<lambda>_. True) sentA gotA a" "link_ok (endpoint_params n) (\<lambda>_. True) sentB gotB b"
    using assms(1) by (auto simp: pair_run_def intro: reliable_link.conn_run_ok [OF ok])
  have gen: "genuine (endpoint_params n) a (endpoint_params n) b" "genuine (endpoint_params n) b (endpoint_params n) a"
    using assms(1) ends_genuine ends_ok_swap unfolding pair_run_def by blast+
  show "gotB @ unread b = concat (take (unat (rx_next b)) sentA)" "unat (rx_next b) \<le> length sentA"
    using delivery_prefix [OF ok ok run assms(2) gen(1)] by simp_all
  show "gotB @ unread b = concat sentA" if "tx a = TxIdle"
    by (rule delivery_complete [OF ok ok run assms(2) gen that])
qed

lemma sim_delivery:
  assumes "sim_ok n sentA gotA sentB gotB a b" "session (config a) = session (config b)"
  shows "gotB @ unread b = concat (take (unat (rx_next b)) sentA)" "unat (rx_next b) \<le> length sentA"
    and "tx a = TxIdle \<Longrightarrow> gotB @ unread b = concat sentA"
proof -
  obtain a' b' where ok: "pair_run n sentA gotA sentB gotB a' b'" "untaped a' = a" "untaped b' = b"
    using assms(1) by (auto simp: sim_ok_def)
  have "session (config a') = session (config b')" using assms(2) ok(2,3) by auto
  from pair_delivery [OF ok(1) this] show
    "gotB @ unread b = concat (take (unat (rx_next b)) sentA)" "unat (rx_next b) \<le> length sentA"
    "tx a = TxIdle \<Longrightarrow> gotB @ unread b = concat sentA"
    using ok(2,3) by (auto simp: unread_def)
qed

lemma sim_prefix:
  assumes "sim_ok n sentA gotA sentB gotB a b" "session (config a) = session (config b)"
  shows "take (length gotB) (concat sentA) = gotB"
proof -
  have "concat sentA = (gotB @ unread b) @ concat (drop (unat (rx_next b)) sentA)"
    unfolding sim_delivery(1) [OF assms] by (metis append_take_drop_id concat_append)
  then show ?thesis by simp
qed

lemma sim_write_len:
  assumes "sim_run n sentA gotA sentB gotB a b" "poll_write (endpoint_params n) cx buf a = Some (Ready (Inr len), a')"
  shows "len \<le> length buf"
proof -
  obtain s b' where s: "pair_run n sentA gotA sentB gotB s b'" "untaped s = a"
    using sim_ok_run [OF assms(1)] by (auto simp: sim_ok_def)
  obtain s' where "poll_write (taped_params n) cx buf s = Some (Ready (Inr len), s')"
    using poll_taped(1) [of "endpoint_params n" cx buf s] assms(2) s(2) by blast
  then show ?thesis using shared_conn.poll_write_inv [OF on_end [OF s(1)], of cx buf] by auto
qed

end
