(* ===== verification/Test_Transfer.thy ===== *)
theory Test_Transfer
  imports Simulation
begin

text \<open>
  The driver of the tests of the connection (\<open>src/tests/connection.rs\<close>): \<open>Sim\<close> with its clock, and
  \<open>transfer\<close>, which writes, reads and lets time pass until the data of both applications has been
  received. The capacity, a constant of the tests, is a parameter; a panic is \<^term>\<open>None\<close>. The
  handles of \<open>Sim\<close> on the endpoints and the clock are in the state of its connections.
\<close>

section \<open>The simulation\<close>

definition TICK :: u64 where "TICK = 10"

definition MAX_TICKS :: nat where "MAX_TICKS = 20000"

definition noop :: waker where "noop = Waker 0 0"

definition test_config :: "u64 \<Rightarrow> config" where
  "test_config sess = \<lparr>session = sess, retransmit_timeout = 100, max_retries = 5\<rparr>"

record sim =
  sim_a :: conn
  sim_b :: conn

definition sim_with :: "nat \<Rightarrow> nat \<Rightarrow> config \<Rightarrow> config \<Rightarrow> sim option" where
  "sim_with usize_max n ca cb =
     (let (ea, eb) = new_link usize_max in
      case new_reliable (endpoint_params n) ea default_clock ca of
        Inl _ \<Rightarrow> None
      | Inr a \<Rightarrow>
          (case new_reliable (endpoint_params n) eb default_clock cb of
             Inl _ \<Rightarrow> None
           | Inr b \<Rightarrow> Some \<lparr>sim_a = a, sim_b = b\<rparr>))"

definition tick :: "nat \<Rightarrow> sim \<Rightarrow> sim option" where
  "tick n s = do {
     (_, c) \<leftarrow> advance TICK (timer (sim_a s));
     let (a, b) = ((sim_a s)\<lparr>timer := c\<rparr>, (sim_b s)\<lparr>timer := c\<rparr>);
     (_, a) \<leftarrow> poll_progress (endpoint_params n) noop a;
     let b = beside a b;
     (_, b) \<leftarrow> poll_progress (endpoint_params n) noop b;
     Some \<lparr>sim_a = beside b a, sim_b = b\<rparr>
   }"

primrec ticks :: "nat \<Rightarrow> nat \<Rightarrow> sim \<Rightarrow> sim option" where
  "ticks n 0 s = Some s"
| "ticks n (Suc count) s = do { s \<leftarrow> tick n s; ticks n count s }"

section \<open>A transfer\<close>

text \<open>The first connection is the one that is polled, the second its peer.\<close>

definition try_write :: "nat \<Rightarrow> u8 list \<Rightarrow> conn \<Rightarrow> conn \<Rightarrow> (nat \<times> conn \<times> conn) option" where
  "try_write n data me peer =
     (if data = [] then Some (0, me, peer)
      else do {
        (r, me) \<leftarrow> poll_write (endpoint_params n) noop data me;
        let peer = beside me peer;
        case r of
          Ready (Inr len) \<Rightarrow> Some (len, me, peer)
        | Ready (Inl _) \<Rightarrow> None
        | Pending \<Rightarrow> Some (0, me, peer)
      })"

definition try_read ::
  "nat \<Rightarrow> u8 list \<Rightarrow> u8 list \<Rightarrow> conn \<Rightarrow> conn \<Rightarrow> (u8 list \<times> u8 list \<times> conn \<times> conn) option" where
  "try_read n buf acc me peer = do {
     (r, buf, me) \<leftarrow> poll_read (endpoint_params n) noop buf me;
     let peer = beside me peer;
     case r of
       Ready (Inr len) \<Rightarrow> do {
         bytes \<leftarrow> slice 0 len buf;
         Some (buf, acc @ bytes, me, peer)
       }
     | Ready (Inl _) \<Rightarrow> None
     | Pending \<Rightarrow> Some (buf, acc, me, peer)
   }"

text \<open>The variables of the loop of \<open>transfer\<close>; \<open>space\<close> is its buffer.\<close>

record transfer_state =
  sent_a :: nat
  sent_b :: nat
  got_a :: "u8 list"
  got_b :: "u8 list"
  space :: "u8 list"
  the_sim :: sim

text \<open>An iteration: whether the transfer is complete, and the state after it\<close>

definition transfer_round ::
  "nat \<Rightarrow> u8 list \<Rightarrow> u8 list \<Rightarrow> transfer_state \<Rightarrow> (bool \<times> transfer_state) option" where
  "transfer_round n ab ba st = do {
     rest \<leftarrow> slice (sent_a st) (length ab) ab;
     (len_a, a, b) \<leftarrow> try_write n rest (sim_a (the_sim st)) (sim_b (the_sim st));
     rest \<leftarrow> slice (sent_b st) (length ba) ba;
     (len_b, b, a) \<leftarrow> try_write n rest b a;
     (buf, to_b, b, a) \<leftarrow> try_read n (space st) (got_b st) b a;
     (buf, to_a, a, b) \<leftarrow> try_read n buf (got_a st) a b;
     s \<leftarrow> tick n \<lparr>sim_a = a, sim_b = b\<rparr>;
     let st = \<lparr>sent_a = sent_a st + len_a, sent_b = sent_b st + len_b, got_a = to_a, got_b = to_b,
       space = buf, the_sim = s\<rparr>;
     if \<not> (length to_b \<le> length ab \<and> length to_a \<le> length ba) then None
     else if \<not> (length to_b = length ab \<and> length to_a = length ba) then Some (False, st)
     else do {
       (flushed, a) \<leftarrow> poll_flush (endpoint_params n) noop (sim_a s);
       let b = beside a (sim_b s);
       if is_pending flushed then Some (False, st\<lparr>the_sim := \<lparr>sim_a = a, sim_b = b\<rparr>\<rparr>)
       else do {
         (flushed, b) \<leftarrow> poll_flush (endpoint_params n) noop b;
         Some (is_ready flushed, st\<lparr>the_sim := \<lparr>sim_a = beside b a, sim_b = b\<rparr>\<rparr>)
       }
     }
   }"

text \<open>\<open>count\<close> iterations at most; without an end the transfer panics.\<close>

primrec transfer_loop ::
  "nat \<Rightarrow> nat \<Rightarrow> u8 list \<Rightarrow> u8 list \<Rightarrow> transfer_state \<Rightarrow> transfer_state option" where
  "transfer_loop 0 n ab ba st = None"
| "transfer_loop (Suc count) n ab ba st = do {
     (complete, st) \<leftarrow> transfer_round n ab ba st;
     if complete then Some st else transfer_loop count n ab ba st
   }"

definition transfer ::
  "nat \<Rightarrow> sim \<Rightarrow> u8 list \<Rightarrow> u8 list \<Rightarrow> nat \<Rightarrow> (u8 list \<times> u8 list \<times> sim) option" where
  "transfer n s ab ba read_size = do {
     st \<leftarrow> transfer_loop MAX_TICKS n ab ba
       \<lparr>sent_a = 0, sent_b = 0, got_a = [], got_b = [], space = replicate read_size 0, the_sim = s\<rparr>;
     Some (got_b st, got_a st, the_sim st)
   }"

section \<open>What a transfer has received is what was written\<close>

text \<open>
  The two connections are in a run of two, the bytes accepted are the first of the data, and what
  has been received is what has been delivered.
\<close>

definition written_so_far :: "u8 list \<Rightarrow> nat \<Rightarrow> u8 list list \<Rightarrow> bool" where
  "written_so_far data k sent \<longleftrightarrow> k \<le> length data \<and> concat sent = take k data"

definition pair_ok :: "nat \<Rightarrow> u8 list \<Rightarrow> nat \<Rightarrow> u8 list \<Rightarrow> u8 list \<Rightarrow> nat \<Rightarrow> u8 list \<Rightarrow> conn \<Rightarrow> conn \<Rightarrow> bool" where
  "pair_ok n ab ka ga ba kb gb a b \<longleftrightarrow>
     (\<exists>sentA sentB. sim_run n sentA ga sentB gb a b \<and>
        written_so_far ab ka sentA \<and> written_so_far ba kb sentB) \<and>
     session (config a) = session (config b)"

lemma beside_config [simp]: "config (beside a b) = config b"
  by (simp add: beside_def)

lemma pair_ok_swap: "pair_ok n ab ka ga ba kb gb a b \<Longrightarrow> pair_ok n ba kb gb ab ka ga b a"
  by (auto simp: pair_ok_def intro: sim_swap)

lemma pair_ok_write:
  assumes "pair_ok n ab ka ga ba kb gb a b" "slice ka (length ab) ab = Some rest"
    and "try_write n rest a b = Some (len, a', b')"
  shows "pair_ok n ab (ka + len) ga ba kb gb a' b'"
proof (cases "rest = []")
  case False
  with assms(3) obtain r where r: "poll_write (endpoint_params n) noop rest a = Some (r, a')" "b' = beside a' b"
      "r = Pending \<and> len = 0 \<or> r = Ready (Inr len)"
    by (auto simp: try_write_def Let_def elim!: bind_SomeE split: poll.splits sum.splits)
  obtain sentA sentB where run: "sim_run n sentA ga sentB gb a b" and w: "written_so_far ab ka sentA" "written_so_far ba kb sentB"
    using assms(1) by (auto simp: pair_ok_def)
  have len: "len \<le> length rest" using sim_write_len [OF run] r(1,3) by auto
  have rest: "rest = drop ka ab" using assms(2) by (simp add: slice_def split: if_splits)
  have "written_so_far ab (ka + len) (accepted r rest sentA)"
    using w(1) r(3) len by (auto simp: written_so_far_def accepted_def rest take_add)
  then show ?thesis
    using assms(1) w(2) sim_write [OF run r(1)] poll_config(1) [OF r(1)] r(2) by (auto simp: pair_ok_def)
qed (use assms in \<open>simp add: try_write_def\<close>)

lemma pair_ok_read:
  assumes "pair_ok n ab ka ga ba kb gb a b" "try_read n buf ga a b = Some (buf', ga', a', b')"
  shows "pair_ok n ab ka ga' ba kb gb a' b'"
proof -
  from assms(2) obtain r where r: "poll_read (endpoint_params n) noop buf a = Some (r, buf', a')" "b' = beside a' b"
      "ga' = delivered r buf' ga"
    by (auto simp: try_read_def Let_def delivered_def slice_def elim!: bind_SomeE split: poll.splits sum.splits if_splits)
  then show ?thesis
    using assms(1) sim_read [OF _ r(1)] poll_config(2) [OF r(1)] by (fastforce simp: pair_ok_def)
qed

lemma pair_ok_progress:
  assumes "pair_ok n ab ka ga ba kb gb a b"
  shows "poll_progress (endpoint_params n) cx a = Some (p, a') \<Longrightarrow> pair_ok n ab ka ga ba kb gb a' (beside a' b)"
    and "poll_flush (endpoint_params n) cx a = Some (f, a') \<Longrightarrow> pair_ok n ab ka ga ba kb gb a' (beside a' b)"
    and "advance k (timer a) = Some (rang, c) \<Longrightarrow> pair_ok n ab ka ga ba kb gb (a\<lparr>timer := c\<rparr>) (b\<lparr>timer := c\<rparr>)"
  using assms sim_progress [of n _ ga _ gb a b cx p a'] sim_flush [of n _ ga _ gb a b cx f a']
    sim_time [of n _ ga _ gb a b k rang c] poll_config(3) [of "endpoint_params n" cx a f a']
    poll_config(4) [of "endpoint_params n" cx a p a']
  by (fastforce simp: pair_ok_def)+

lemma pair_ok_tick:
  assumes "pair_ok n ab ka ga ba kb gb (sim_a s) (sim_b s)" "tick n s = Some s'"
  shows "pair_ok n ab ka ga ba kb gb (sim_a s') (sim_b s')"
proof -
  from assms(2) obtain rang c p q a b where
    t: "advance TICK (timer (sim_a s)) = Some (rang, c)"
      "poll_progress (endpoint_params n) noop ((sim_a s)\<lparr>timer := c\<rparr>) = Some (p, a)"
      "poll_progress (endpoint_params n) noop (beside a ((sim_b s)\<lparr>timer := c\<rparr>)) = Some (q, b)"
      "s' = \<lparr>sim_a = beside b a, sim_b = b\<rparr>"
    by (auto simp: tick_def elim!: bind_SomeE)
  note 1 = pair_ok_progress(1) [OF pair_ok_progress(3) [OF assms(1) t(1)] t(2)]
  show ?thesis using pair_ok_swap [OF pair_ok_progress(1) [OF pair_ok_swap [OF 1] t(3)]] t(4) by simp
qed

lemma pair_ok_ticks:
  "pair_ok n ab ka ga ba kb gb (sim_a s) (sim_b s) \<Longrightarrow> ticks n count s = Some s' \<Longrightarrow>
     pair_ok n ab ka ga ba kb gb (sim_a s') (sim_b s')"
  by (induction count arbitrary: s) (auto elim!: bind_SomeE dest: pair_ok_tick)

definition transfer_ok :: "nat \<Rightarrow> u8 list \<Rightarrow> u8 list \<Rightarrow> transfer_state \<Rightarrow> bool" where
  "transfer_ok n ab ba st \<longleftrightarrow>
     pair_ok n ab (sent_a st) (got_a st) ba (sent_b st) (got_b st) (sim_a (the_sim st)) (sim_b (the_sim st))"

lemma transfer_round_ok:
  assumes "transfer_ok n ab ba st" "transfer_round n ab ba st = Some (complete, st')"
  shows "transfer_ok n ab ba st' \<and>
    (complete \<longrightarrow> length (got_b st') = length ab \<and> length (got_a st') = length ba)"
proof -
  from assms(2) obtain rest_a rest_b len_a len_b a1 b1 a2 b2 buf1 b3 a3 to_b buf2 a4 b4 to_a s st1 where
    r: "slice (sent_a st) (length ab) ab = Some rest_a"
      "try_write n rest_a (sim_a (the_sim st)) (sim_b (the_sim st)) = Some (len_a, a1, b1)"
      "slice (sent_b st) (length ba) ba = Some rest_b" "try_write n rest_b b1 a1 = Some (len_b, b2, a2)"
      "try_read n (space st) (got_b st) b2 a2 = Some (buf1, to_b, b3, a3)"
      "try_read n buf1 (got_a st) a3 b3 = Some (buf2, to_a, a4, b4)"
      "tick n \<lparr>sim_a = a4, sim_b = b4\<rparr> = Some s"
      "st1 = \<lparr>sent_a = sent_a st + len_a, sent_b = sent_b st + len_b, got_a = to_a, got_b = to_b,
         space = buf2, the_sim = s\<rparr>" and
    e: "(if \<not> (length to_b = length ab \<and> length to_a = length ba) then Some (False, st1)
         else do {
           (flushed, a) \<leftarrow> poll_flush (endpoint_params n) noop (sim_a s);
           if is_pending flushed then Some (False, st1\<lparr>the_sim := \<lparr>sim_a = a, sim_b = beside a (sim_b s)\<rparr>\<rparr>)
           else do {
             (flushed, b) \<leftarrow> poll_flush (endpoint_params n) noop (beside a (sim_b s));
             Some (is_ready flushed, st1\<lparr>the_sim := \<lparr>sim_a = beside b a, sim_b = b\<rparr>\<rparr>)
           }
         }) = Some (complete, st')"
    by (auto simp: transfer_round_def Let_def elim!: bind_SomeE split: if_splits)
  note w = pair_ok_write [OF pair_ok_swap [OF pair_ok_write [OF assms(1) [unfolded transfer_ok_def] r(1,2)]] r(3,4)]
  note d = pair_ok_read [OF pair_ok_swap [OF pair_ok_read [OF w r(5)]] r(6)]
  have ok: "pair_ok n ab (sent_a st + len_a) to_a ba (sent_b st + len_b) to_b (sim_a s) (sim_b s)"
    using pair_ok_tick [OF _ r(7)] d by simp
  show ?thesis
  proof (cases "length to_b = length ab \<and> length to_a = length ba")
    case True
    with e obtain f a where a: "poll_flush (endpoint_params n) noop (sim_a s) = Some (f, a)"
      by (auto elim!: bind_SomeE)
    note ok1 = pair_ok_progress(2) [OF ok a]
    from e True a ok1 show ?thesis
      by (auto simp: transfer_ok_def r(8) elim!: bind_SomeE split: if_splits
          dest!: pair_ok_progress(2) [OF pair_ok_swap [OF ok1], THEN pair_ok_swap])
  qed (use e ok in \<open>auto simp: transfer_ok_def r(8)\<close>)
qed

lemma transfer_loop_ok:
  "transfer_loop count n ab ba st = Some st' \<Longrightarrow> transfer_ok n ab ba st \<Longrightarrow>
     transfer_ok n ab ba st' \<and> length (got_b st') = length ab \<and> length (got_a st') = length ba"
proof (induction count arbitrary: st)
  case (Suc count)
  then obtain complete st1 where st1: "transfer_round n ab ba st = Some (complete, st1)"
      "(if complete then Some st1 else transfer_loop count n ab ba st1) = Some st'"
    by (auto elim!: bind_SomeE)
  with Suc.IH [of st1] transfer_round_ok [OF Suc.prems(2) st1(1)] show ?case by (cases complete) simp_all
qed simp

lemma pair_ok_received:
  assumes "pair_ok n ab ka ga ba kb gb a b"
  shows "take (length gb) ab = gb"
proof -
  obtain sentA sentB where run: "sim_run n sentA ga sentB gb a b" "written_so_far ab ka sentA"
      "session (config a) = session (config b)"
    using assms by (auto simp: pair_ok_def)
  from sim_prefix [OF sim_ok_run [OF run(1)] run(3)] run(2) have "take (length gb) (take ka ab) = gb"
    by (simp add: written_so_far_def)
  then show ?thesis by (metis length_take min.cobounded2 take_all_iff take_take min.commute min.absorb_iff1)
qed

text \<open>Whatever the link and the clock do, a transfer that ends has moved all the data.\<close>

lemma transfer_sound:
  assumes "transfer n s ab ba read_size = Some (to_b, to_a, s')"
    and "sim_run n [] [] [] [] (sim_a s) (sim_b s)" "session (config (sim_a s)) = session (config (sim_b s))"
  shows "to_b = ab \<and> to_a = ba" "\<exists>sentA sentB. sim_run n sentA to_a sentB to_b (sim_a s') (sim_b s')"
    and "session (config (sim_a s')) = session (config (sim_b s'))"
proof -
  let ?st = "\<lparr>sent_a = 0, sent_b = 0, got_a = [], got_b = [], space = replicate read_size 0, the_sim = s\<rparr>"
  obtain st where st: "transfer_loop MAX_TICKS n ab ba ?st = Some st" "to_b = got_b st" "to_a = got_a st" "s' = the_sim st"
    using assms(1) by (auto simp: transfer_def elim!: bind_SomeE)
  have "transfer_ok n ab ba ?st"
    using assms(2,3) by (auto simp: transfer_ok_def pair_ok_def written_so_far_def intro!: exI [of _ "[]"])
  from transfer_loop_ok [OF st(1) this]
  have ok: "pair_ok n ab (sent_a st) to_a ba (sent_b st) to_b (sim_a s') (sim_b s')"
      "length to_b = length ab" "length to_a = length ba"
    by (simp_all add: transfer_ok_def st(2-4))
  show "to_b = ab \<and> to_a = ba"
    using pair_ok_received [OF ok(1)] pair_ok_received [OF pair_ok_swap [OF ok(1)]] ok(2,3) by simp
  show "\<exists>sentA sentB. sim_run n sentA to_a sentB to_b (sim_a s') (sim_b s')"
    and "session (config (sim_a s')) = session (config (sim_b s'))"
    using ok(1) by (auto simp: pair_ok_def)
qed

end
