(* ===== verification/Clear_Transfer.thy ===== *)
theory Clear_Transfer
  imports Test_Transfer Exchange
begin

text \<open>
  A transfer in one direction over a link without faults completes, and within how many iterations:
  each iteration moves one packet, however the two connections share the pipes and the clock.
\<close>

section \<open>A clear link\<close>

text \<open>No fault is switched on at either end, and no frame is under way on the incoming pipe.\<close>

definition clear_end :: "nat \<Rightarrow> endpoint \<Rightarrow> bool" where
  "clear_end n t \<longleftrightarrow>
     faultless n t \<and> filter_frame (incoming t) = None \<and> \<not> closed (outgoing t) \<and>
     partial (incoming t) = [] \<and> 0 \<notin> set (partial (outgoing t))"

lemma push_bytes_partial:
  "0 \<notin> set (partial p) \<Longrightarrow> 0 \<notin> set (partial (fold push_byte bs p)) \<and> closed (fold push_byte bs p) = closed p"
  by (induction bs arbitrary: p) (auto simp: push_byte_def Let_def split: prod.splits)

lemma clear_write:
  assumes "clear_end n t" "endpoint_write cx buf t = Some (w, t')"
  shows "clear_end n t'"
proof -
  have "0 \<notin> set (partial (fold push_byte bs (outgoing t)))" "\<not> closed (fold push_byte bs (outgoing t))" for bs
    using assms(1) push_bytes_partial [of "outgoing t" bs] by (auto simp: clear_end_def)
  then have "0 \<notin> set (partial (outgoing t')) \<and> \<not> closed (outgoing t') \<and> incoming t' = incoming t"
    using assms
    by (auto simp: endpoint_write_def Let_def wake_reader_def clear_end_def split: option.splits if_splits prod.splits)
  then show ?thesis
    using assms(1) endpoint_write_faultless [OF _ assms(2)] by (simp add: clear_end_def)
qed

lemma clear_other:
  "clear_end n t \<Longrightarrow> endpoint_read cx buf t = Some (r, buf', t') \<Longrightarrow> clear_end n t'"
  "clear_end n t \<Longrightarrow> endpoint_flush cx t = Some (f, t') \<Longrightarrow> clear_end n t'"
  by (auto simp: clear_end_def faultless_def endpoint_read_def endpoint_flush_def Let_def split: if_splits)

lemma clear_total: "transport_total (link (endpoint_params n)) (clear_end n)"
  using endpoint_link.read_total endpoint_link.write_total endpoint_link.flush_total
  by unfold_locales
    (auto simp: endpoint_params_def endpoint_ops_def dest: endpoint_keeps_faultless clear_write clear_other,
      auto simp: clear_end_def dest: endpoint_keeps_faultless)

interpretation clear_prompt: prompt_link "endpoint_params n" "clear_end n"
  "\<lambda>t. queue (incoming t)" carried "\<lambda>bs h. h" "\<lambda>bs h. h @ bs" ticks_now for n
  by (rule prompt_link_stronger [OF endpoint_prompt.prompt_link_axioms clear_total]) (simp add: clear_end_def)

abbreviation clear_inv :: "nat \<Rightarrow> conn \<Rightarrow> bool" where
  "clear_inv n \<equiv> conn_inv (endpoint_params n) (clear_end n)"

section \<open>The other side\<close>

lemma beside_fields [simp]:
  "at_rest (beside a b) = at_rest b" "awaits_ack (beside a b) = awaits_ack b"
  "tx_next (beside a b) = tx_next b" "rx_next (beside a b) = rx_next b"
  "rx_start (beside a b) = rx_start b" "rx_end (beside a b) = rx_end b" "timer (beside a b) = timer a"
  "transport (beside a b) = follow (transport a) (transport b)"
  by (simp_all add: beside_def at_rest_def awaits_ack_def)

lemma conn_inv_timer_any: "conn_inv P tinv s \<Longrightarrow> conn_inv P tinv (s\<lparr>timer := c\<rparr>)"
  by (simp add: conn_inv_def inv_defs)

text \<open>A frame that has been passed on whole has left nothing behind.\<close>

lemma carried_whole:
  assumes "clear_end n t" "carried t = bs" "bs = [] \<or> last bs = 0"
  shows "queue (outgoing t) = bs" "partial (outgoing t) = []"
proof -
  have "partial (outgoing t) = []"
    using assms by (cases "partial (outgoing t)" rule: rev_cases) (auto simp: carried_def clear_end_def)
  then show "queue (outgoing t) = bs" "partial (outgoing t) = []" using assms(2) by (simp_all add: carried_def)
qed

lemma beside_clear:
  assumes "clear_inv n a" "clear_inv n b" "carried (transport a) = bs" "bs = [] \<or> last bs = 0"
    and "queue (incoming (transport a)) = []"
  shows "clear_inv n (beside a b)" "queue (incoming (transport (beside a b))) = bs"
    "carried (transport (beside a b)) = []"
proof -
  have a: "clear_end n (transport a)" and b: "clear_end n (transport b)"
    using conn_inv_parts(2) [OF assms(1)] conn_inv_parts(2) [OF assms(2)] .
  note w = carried_whole [OF a assms(3,4)]
  have "clear_end n (follow (transport a) (transport b))"
    using a b w(2) by (simp add: clear_end_def faultless_def follow_def)
  then show "clear_inv n (beside a b)"
    unfolding beside_def
    using conn_inv_timer_any [OF conn_inv_transport [OF assms(2)]]
    by (simp)
  show "queue (incoming (transport (beside a b))) = bs"
    "carried (transport (beside a b)) = []"
    using w(1) a assms(5) by (simp_all add: follow_def carried_def clear_end_def)
qed

section \<open>Two connections at rest\<close>

definition settled :: "nat \<Rightarrow> conn \<Rightarrow> conn \<Rightarrow> bool" where
  "settled n a b \<longleftrightarrow>
     clear_inv n a \<and> clear_inv n b \<and> at_rest a \<and> at_rest b \<and>
     queue (incoming (transport a)) = [] \<and> queue (incoming (transport b)) = [] \<and>
     carried (transport a) = [] \<and> carried (transport b) = [] \<and>
     session (config a) = session (config b) \<and> tx_next a = rx_next b \<and> tx_next b = rx_next a \<and>
     rx_start a = rx_end a \<and> rx_start b = rx_end b \<and> timer a = timer b"

lemma settled_swap: "settled n a b \<Longrightarrow> settled n b a"
  by (auto simp: settled_def)

text \<open>Not the state of the wakeups and the time\<close>

definition same_place :: "conn \<Rightarrow> conn \<Rightarrow> bool" where
  "same_place s s' \<longleftrightarrow>
     config s' = config s \<and> tx_next s' = tx_next s \<and> rx_next s' = rx_next s \<and>
     rx_start s' = rx_start s \<and> rx_end s' = rx_end s \<and> ticks_now (timer s') = ticks_now (timer s)"

lemma settled_beside:
  assumes "settled n a b" "clear_inv n a'" "at_rest a'" "same_place a a'"
    and "queue (incoming (transport a')) = []" "carried (transport a') = []"
  shows "settled n a' (beside a' b)"
  using assms beside_clear [OF assms(2) _ assms(6) _ assms(5), of b]
  by (simp add: settled_def same_place_def)

lemma settled_polls:
  assumes "settled n a b"
  shows "\<exists>a'. poll_flush (endpoint_params n) cx a = Some (Ready (Inr ()), a') \<and> settled n a' (beside a' b) \<and> same_place a a'"
    and "\<exists>a'. poll_progress (endpoint_params n) cx a = Some (Pending, a') \<and> settled n a' (beside a' b) \<and> same_place a a'"
    and "buf \<noteq> [] \<Longrightarrow> \<exists>a'. poll_read (endpoint_params n) cx buf a = Some (Pending, buf, a') \<and>
      settled n a' (beside a' b) \<and> same_place a a'"
proof -
  note s = assms [unfolded settled_def]
  obtain t c where d: "drive (endpoint_params n) cx (16, a) = Some (Blocked, 15, a\<lparr>transport := t, timer := c\<rparr>)"
      "queue (incoming t) = []" "carried t = []" "ticks_now c = ticks_now (timer a)"
      "clear_inv n (a\<lparr>transport := t, timer := c\<rparr>)"
    using clear_prompt.drive_rest [of n a cx] s by auto
  let ?a = "a\<lparr>transport := t, timer := c\<rparr>"
  have rest: "at_rest ?a" using s by (simp add: at_rest_def)
  have after: "settled n (set_waiters v new ?a) (beside (set_waiters v new ?a) b) \<and> same_place a (set_waiters v new ?a)" for v new
  proof -
    have "same_place a (set_waiters v new ?a)" by (simp add: same_place_def set_waiters_def d(4))
    then show ?thesis
      using settled_beside [OF assms conn_inv_set_waiters [OF d(5)]] rest d(2,3) by simp
  qed
  note polls = clear_prompt.polls_at_rest [OF d(1) rest]
  show "\<exists>a'. poll_flush (endpoint_params n) cx a = Some (Ready (Inr ()), a') \<and> settled n a' (beside a' b) \<and> same_place a a'"
    and "\<exists>a'. poll_progress (endpoint_params n) cx a = Some (Pending, a') \<and> settled n a' (beside a' b) \<and> same_place a a'"
    using polls(1,2) after by blast+
  show "\<exists>a'. poll_read (endpoint_params n) cx buf a = Some (Pending, buf, a') \<and>
      settled n a' (beside a' b) \<and> same_place a a'" if "buf \<noteq> []"
    using polls(3) [OF _ that] s after by fastforce
qed

section \<open>One iteration\<close>

lemma frame_last: "last (packet_frame p) = 0" "packet_frame p \<noteq> []"
  by (simp_all add: packet_frame_def)

lemma seq_word: "unat (k :: u64) < 2 ^ 32 \<Longrightarrow> ucast (ucast k :: u32) = k"
  by (intro word_unat_eq_iff [THEN iffD2])
    (simp add: unsigned_ucast_eq unsigned_take_bit_eq take_bit_nat_eq_self_iff)

text \<open>The write puts the packet on the link.\<close>

definition in_transit :: "nat \<Rightarrow> packet \<Rightarrow> conn \<Rightarrow> conn \<Rightarrow> bool" where
  "in_transit n p a b \<longleftrightarrow>
     clear_inv n a \<and> clear_inv n b \<and> queue (incoming (transport a)) = [] \<and>
     carried (transport b) = [] \<and> queue (incoming (transport b)) = packet_frame p \<and>
     session (config a) = session (config b) \<and> timer a = timer b"

lemma transfer_write:
  assumes "settled n a b" "data \<noteq> []" "unat (tx_next a) < 2 ^ 32"
    and "ticks_now (timer a) < saturating_add (ticks_now (timer a)) (retransmit_timeout (config a))"
    and "payload = take (min (length data) (max_payload n)) data"
  shows "\<exists>a1. try_write n data a b = Some (length payload, a1, beside a1 b) \<and> awaits_ack a1 \<and>
    in_transit n (Data (session (config a)) (ucast (tx_next a)) payload) a1 (beside a1 b) \<and>
    config a1 = config a \<and> tx_next a1 = tx_next a + 1 \<and> ticks_now (timer a1) = ticks_now (timer a) \<and>
    rx_next a1 = rx_next a \<and> rx_start a1 = rx_end a1"
proof -
  note s = assms(1) [unfolded settled_def]
  let ?p = "Data (session (config a)) (ucast (tx_next a)) payload"
  have payload: "payload = take (min (length data) (MAX_PAYLOAD (endpoint_params n))) data"
    by (simp add: assms(5) MAX_PAYLOAD_def endpoint_params_def)
  obtain a1 where a1: "poll_write (endpoint_params n) noop data a = Some (Ready (Inr (length payload)), a1)"
      "clear_inv n a1" "awaits_ack a1" "queue (incoming (transport a1)) = []"
      "carried (transport a1) = packet_frame ?p" "config a1 = config a" "tx_next a1 = tx_next a + 1"
      "ticks_now (timer a1) = ticks_now (timer a)" "rx_next a1 = rx_next a" "rx_start a1 = rx_end a1"
    using clear_prompt.write_prompt [of n a data payload noop] s assms(2-4) payload by auto
  have "in_transit n ?p a1 (beside a1 b)"
    using beside_clear [OF a1(2) _ a1(5) _ a1(4), of b] s a1(2,4,6) frame_last by (simp add: in_transit_def)
  then show ?thesis using a1 assms(2) by (simp add: try_write_def)
qed

text \<open>The read of the peer delivers it and answers.\<close>

lemma transfer_read:
  assumes "in_transit n (Data (session (config b)) q payload) a b" "at_rest b" "rx_start b = rx_end b"
    and "payload \<noteq> []" "length payload \<le> max_payload n" "ucast q = rx_next b" "length payload \<le> length buf"
  shows "\<exists>b1. try_read n buf acc b a = Some (payload @ drop (length payload) buf, acc @ payload, b1, beside b1 a) \<and>
    in_transit n (Ack (session (config b)) q) b1 (beside b1 a) \<and> at_rest b1 \<and> rx_start b1 = rx_end b1 \<and>
    config b1 = config b \<and> tx_next b1 = tx_next b \<and> rx_next b1 = rx_next b + 1 \<and>
    ticks_now (timer b1) = ticks_now (timer b)"
proof -
  note t = assms(1) [unfolded in_transit_def]
  have buf: "buf \<noteq> []" "length payload = min (length buf) (length payload)" using assms(4,7) by auto
  have len: "length payload \<le> MAX_PAYLOAD (endpoint_params n)"
    using assms(5) by (simp add: MAX_PAYLOAD_def endpoint_params_def)
  obtain b1 where b1: "poll_read (endpoint_params n) noop buf b =
      Some (Ready (Inr (length payload)), payload @ drop (length payload) buf, b1)"
      "clear_inv n b1" "at_rest b1" "queue (incoming (transport b1)) = []"
      "carried (transport b1) = packet_frame (Ack (session (config b)) q)"
      "config b1 = config b" "tx_next b1 = tx_next b" "rx_next b1 = rx_next b + 1"
      "rx_start b1 = rx_end b1" "ticks_now (timer b1) = ticks_now (timer b)"
    using clear_prompt.read_prompt [OF _ assms(2,3) buf(1) assms(4) len assms(6) _ buf(2), of noop] t by auto
  have "in_transit n (Ack (session (config b)) q) b1 (beside b1 a)"
    using beside_clear [OF b1(2) _ b1(5) _ b1(4), of a] t b1(2,4,6) frame_last by (simp add: in_transit_def)
  then show ?thesis using b1 by (simp add: try_read_def slice_def)
qed

text \<open>The acknowledgment releases the packet in the next poll of the sender.\<close>

lemma transfer_release:
  assumes "in_transit n (Ack (session (config a)) q) b a" "awaits_ack a" "unat q + 1 = unat (tx_next a)"
    and "rx_start a = rx_end a" "buf \<noteq> []" "at_rest b" "rx_start b = rx_end b"
    and "tx_next a = rx_next b" "tx_next b = rx_next a"
  shows "\<exists>a1. try_read n buf acc a b = Some (buf, acc, a1, beside a1 b) \<and> settled n a1 (beside a1 b) \<and>
    same_place a a1"
proof -
  note t = assms(1) [unfolded in_transit_def]
  obtain a0 where a0: "drive (endpoint_params n) noop (16, a) = Some (Blocked, 14, a0)" "clear_inv n a0" "at_rest a0"
      "queue (incoming (transport a0)) = []" "carried (transport a0) = []" "same_place a a0"
    using clear_prompt.drive_released [OF _ assms(2,3), of n noop] t by (auto simp: same_place_def)
  then have "rx_start a0 = rx_end a0" using assms(4) by (simp add: same_place_def)
  then obtain v new where r: "poll_read (endpoint_params n) noop buf a = Some (Pending, buf, set_waiters v new a0)"
    using clear_prompt.polls_at_rest(3) [OF a0(1,3) _ assms(5)] by blast
  let ?a = "set_waiters v new a0"
  have a: "clear_inv n ?a" using a0(2) by (rule conn_inv_set_waiters)
  have "settled n ?a (beside ?a b)"
    using beside_clear [OF a, of b "[]"] a a0 t assms(4,6-9) by (simp add: settled_def same_place_def)
  moreover have "same_place a ?a" using a0(6) by (simp add: same_place_def)
  ultimately show ?thesis using r by (simp add: try_read_def)
qed

text \<open>Time passes, and nothing happens.\<close>

lemma settled_time: "settled n a b \<Longrightarrow> settled n (a\<lparr>timer := c\<rparr>) (b\<lparr>timer := c\<rparr>)"
  by (simp add: settled_def at_rest_def conn_inv_timer_any)

lemma advance_some: "unat t + unat k < 2 ^ 64 \<Longrightarrow> ticks_now c = t \<Longrightarrow>
    \<exists>rang c'. advance k c = Some (rang, c') \<and> ticks_now c' = t + k"
  by (auto simp: advance_def add_checked_def split: prod.split)

definition same_stream :: "conn \<Rightarrow> conn \<Rightarrow> bool" where
  "same_stream s s' \<longleftrightarrow> config s' = config s \<and> tx_next s' = tx_next s"

lemma settled_tick:
  assumes "settled n a b" "unat (ticks_now (timer a)) + 10 < 2 ^ 64"
  shows "\<exists>a' b'. tick n \<lparr>sim_a = a, sim_b = b\<rparr> = Some \<lparr>sim_a = a', sim_b = b'\<rparr> \<and> settled n a' b' \<and>
    same_stream a a' \<and> ticks_now (timer a') = ticks_now (timer a) + TICK"
proof -
  obtain rang c where c: "advance TICK (timer a) = Some (rang, c)" "ticks_now c = ticks_now (timer a) + TICK"
    using advance_some [of "ticks_now (timer a)" TICK "timer a"] assms(2) by (auto simp: TICK_def)
  obtain a1 where a1: "poll_progress (endpoint_params n) noop (a\<lparr>timer := c\<rparr>) = Some (Pending, a1)"
      "settled n a1 (beside a1 (b\<lparr>timer := c\<rparr>))" "same_place (a\<lparr>timer := c\<rparr>) a1"
    using settled_polls(2) [OF settled_time [OF assms(1)]] by blast
  obtain b1 where b1: "poll_progress (endpoint_params n) noop (beside a1 (b\<lparr>timer := c\<rparr>)) = Some (Pending, b1)"
      "settled n b1 (beside b1 a1)" "same_place (beside a1 (b\<lparr>timer := c\<rparr>)) b1"
    using settled_polls(2) [OF settled_swap [OF a1(2)]] by blast
  have "same_stream a (beside b1 a1)" "ticks_now (timer (beside b1 a1)) = ticks_now (timer a) + TICK"
    using a1(3) b1(3) c(2) by (simp_all add: same_place_def same_stream_def)
  then show ?thesis
    using c(1) a1(1) b1(1) settled_swap [OF b1(2)] by (simp add: tick_def)
qed

section \<open>The whole transfer\<close>

definition moving :: "nat \<Rightarrow> u8 list \<Rightarrow> transfer_state \<Rightarrow> bool" where
  "moving n ab st \<longleftrightarrow>
     settled n (sim_a (the_sim st)) (sim_b (the_sim st)) \<and> sent_b st = 0 \<and> got_a st = [] \<and>
     got_b st = take (sent_a st) ab \<and> sent_a st \<le> length ab \<and> max_payload n \<le> length (space st) \<and> space st \<noteq> []"

text \<open>What the first five statements of an iteration do, with data left or not\<close>

lemma iteration_moves:
  assumes "settled n a b" "unat (tx_next a) < 2 ^ 32" "data \<noteq> []"
    and "ticks_now (timer a) < saturating_add (ticks_now (timer a)) (retransmit_timeout (config a))"
    and "payload = take (min (length data) (max_payload n)) data" "0 < max_payload n"
    and "max_payload n \<le> length buf"
  shows "\<exists>a1 b1 b2 a2 a3 b3 buf'. try_write n data a b = Some (length payload, a1, b1) \<and>
    try_read n buf acc b1 a1 = Some (buf', acc @ payload, b2, a2) \<and>
    try_read n buf' acc' a2 b2 = Some (buf', acc', a3, b3) \<and> length buf' = length buf \<and>
    settled n a3 b3 \<and> config a3 = config a \<and> tx_next a3 = tx_next a + 1 \<and>
    ticks_now (timer a3) = ticks_now (timer a)"
proof -
  let ?q = "ucast (tx_next a) :: u32"
  note s = assms(1) [unfolded settled_def]
  have q: "ucast ?q = tx_next a" "unat ?q + 1 = unat (tx_next a + 1)"
    using seq_word [OF assms(2)] add_checked_u64 [of "tx_next a"] assms(2) seq_eq_u64 [of ?q "tx_next a"] by simp_all
  have pl: "payload \<noteq> []" "length payload \<le> max_payload n" "length payload \<le> length buf"
    using assms(3,5-7) by auto
  from transfer_write [OF assms(1,3,2,4,5)] obtain a1 where
    a1: "try_write n data a b = Some (length payload, a1, beside a1 b)" "awaits_ack a1"
      "in_transit n (Data (session (config a)) ?q payload) a1 (beside a1 b)"
      "config a1 = config a" "tx_next a1 = tx_next a + 1" "ticks_now (timer a1) = ticks_now (timer a)"
      "rx_next a1 = rx_next a" "rx_start a1 = rx_end a1"
    by blast
  let ?b1 = "beside a1 b"
  from transfer_read [of n ?b1 ?q payload a1 buf acc] a1(3) s q pl obtain b2 where
    b2: "try_read n buf acc ?b1 a1 = Some (payload @ drop (length payload) buf, acc @ payload, b2, beside b2 a1)"
      "in_transit n (Ack (session (config b)) ?q) b2 (beside b2 a1)" "at_rest b2" "rx_start b2 = rx_end b2"
      "tx_next b2 = tx_next b" "rx_next b2 = rx_next b + 1" "ticks_now (timer b2) = ticks_now (timer a1)"
    by auto
  let ?a2 = "beside b2 a1" and ?buf = "payload @ drop (length payload) buf"
  have "?buf \<noteq> []" using pl(1) by simp
  from transfer_release [OF _ _ _ _ this b2(3,4), of n ?a2 ?q acc'] b2 a1 s q obtain a3 where
    a3: "try_read n ?buf acc' ?a2 b2 = Some (?buf, acc', a3, beside a3 b2)" "settled n a3 (beside a3 b2)"
      "same_place ?a2 a3"
    by auto
  have "config a3 = config a" "tx_next a3 = tx_next a + 1" "ticks_now (timer a3) = ticks_now (timer a)"
    using a3(3) a1(4-6) b2(7) by (simp_all add: same_place_def)
  moreover have "length ?buf = length buf" using pl(3) by simp
  ultimately show ?thesis using a1(1) b2(1) a3(1,2) by blast
qed

text \<open>Both connections flush at once.\<close>

lemma settled_flush:
  assumes "settled n a b"
  shows "\<exists>a1 b1. poll_flush (endpoint_params n) noop a = Some (Ready (Inr ()), a1) \<and>
    poll_flush (endpoint_params n) noop (beside a1 b) = Some (Ready (Inr ()), b1) \<and>
    settled n (beside b1 a1) b1 \<and> same_stream a (beside b1 a1) \<and>
    ticks_now (timer (beside b1 a1)) = ticks_now (timer a)"
proof -
  obtain a1 where a1: "poll_flush (endpoint_params n) noop a = Some (Ready (Inr ()), a1)"
      "settled n a1 (beside a1 b)" "same_place a a1"
    using settled_polls(1) [OF assms] by blast
  obtain b1 where b1: "poll_flush (endpoint_params n) noop (beside a1 b) = Some (Ready (Inr ()), b1)"
      "settled n b1 (beside b1 a1)" "same_place (beside a1 b) b1"
    using settled_polls(1) [OF settled_swap [OF a1(2)]] by blast
  have "same_stream a (beside b1 a1)" "ticks_now (timer (beside b1 a1)) = ticks_now (timer a)"
    using a1(3) b1(3) by (simp_all add: same_place_def same_stream_def)
  with a1(1) b1(1) settled_swap [OF b1(2)] show ?thesis by blast
qed

text \<open>The sender has numbers, time and a timeout for the next packet.\<close>

definition can_send :: "nat \<Rightarrow> conn \<Rightarrow> bool" where
  "can_send k s \<longleftrightarrow>
     unat (tx_next s) + k \<le> 2 ^ 32 \<and> unat (ticks_now (timer s)) + 10 * k < 2 ^ 64 \<and>
     0 < retransmit_timeout (config s)"

lemma can_send_deadline:
  "can_send (Suc k) s \<Longrightarrow>
     ticks_now (timer s) < saturating_add (ticks_now (timer s)) (retransmit_timeout (config s))"
  by (auto simp: can_send_def saturating_add_def word_less_nat_alt unat_word_ariths unsigned_minus_1_eq_mask mask_eq_exp_minus_1)

lemma can_send_next:
  assumes "can_send (Suc k) s" "config s' = config s" "tx_next s' = tx_next s + 1"
    and "ticks_now (timer s') = ticks_now (timer s) + TICK"
  shows "can_send k s'"
proof -
  have "unat (tx_next s + 1) = unat (tx_next s) + 1" "unat (ticks_now (timer s) + TICK) = unat (ticks_now (timer s)) + 10"
    using assms(1) by (simp_all add: can_send_def unat_word_ariths TICK_def)
  then show ?thesis using assms by (simp add: can_send_def)
qed

lemma iteration:
  assumes "moving n ab st" "sent_a st < length ab" "can_send (Suc k) (sim_a (the_sim st))" "0 < max_payload n"
  shows "\<exists>st'. transfer_round n ab [] st = Some (sent_a st' = length ab, st') \<and> moving n ab st' \<and>
    sent_a st' = min (sent_a st + max_payload n) (length ab) \<and> can_send k (sim_a (the_sim st'))"
proof -
  note m = assms(1) [unfolded moving_def] and c = assms(3) [unfolded can_send_def]
  let ?rest = "drop (sent_a st) ab"
  define payload where "payload = take (min (length ?rest) (max_payload n)) ?rest"
  define sent' where "sent' = sent_a st + length payload"
  have rest: "slice (sent_a st) (length ab) ab = Some ?rest" "?rest \<noteq> []" "slice 0 0 ([] :: u8 list) = Some []"
    using assms(2) by (simp_all add: slice_def)
  have sent': "sent' = min (sent_a st + max_payload n) (length ab)" "got_b st @ payload = take sent' ab" "sent' \<le> length ab"
    using assms(2) m by (auto simp: sent'_def payload_def take_add)
  have "settled n (sim_a (the_sim st)) (sim_b (the_sim st))" "unat (tx_next (sim_a (the_sim st))) < 2 ^ 32"
      "max_payload n \<le> length (space st)"
    using m c by simp_all
  note moves = iteration_moves [OF this(1,2) rest(2) can_send_deadline [OF assms(3)] payload_def assms(4) this(3),
      of "got_b st" "got_a st"]
  from moves obtain a1 b1 b2 a2 a3 b3 buf' where
    mv: "try_write n ?rest (sim_a (the_sim st)) (sim_b (the_sim st)) = Some (length payload, a1, b1)"
      "try_read n (space st) (got_b st) b1 a1 = Some (buf', take sent' ab, b2, a2)"
      "try_read n buf' (got_a st) a2 b2 = Some (buf', got_a st, a3, b3)" "length buf' = length (space st)"
      "settled n a3 b3" "config a3 = config (sim_a (the_sim st))" "tx_next a3 = tx_next (sim_a (the_sim st)) + 1"
      "ticks_now (timer a3) = ticks_now (timer (sim_a (the_sim st)))"
    unfolding sent'(2) by blast
  have "unat (ticks_now (timer a3)) + 10 < 2 ^ 64" using c by (simp add: mv(8))
  from settled_tick [OF mv(5) this] obtain a4 b4 where
    t: "tick n \<lparr>sim_a = a3, sim_b = b3\<rparr> = Some \<lparr>sim_a = a4, sim_b = b4\<rparr>" "settled n a4 b4" "same_stream a3 a4"
      "ticks_now (timer a4) = ticks_now (timer a3) + TICK"
    by blast
  from settled_flush [OF t(2)] obtain a5 b5 where
    f: "poll_flush (endpoint_params n) noop a4 = Some (Ready (Inr ()), a5)"
      "poll_flush (endpoint_params n) noop (beside a5 b4) = Some (Ready (Inr ()), b5)"
      "settled n (beside b5 a5) b5" "same_stream a4 (beside b5 a5)"
      "ticks_now (timer (beside b5 a5)) = ticks_now (timer a4)"
    by blast
  let ?st = "\<lambda>s. \<lparr>sent_a = sent', sent_b = 0, got_a = [], got_b = take sent' ab, space = buf', the_sim = s\<rparr>"
  have "try_write n [] b a = Some (0, b, a)" for a b by (simp add: try_write_def)
  then have "transfer_round n ab [] st = Some (sent' = length ab,
      ?st (if sent' = length ab then \<lparr>sim_a = beside b5 a5, sim_b = b5\<rparr> else \<lparr>sim_a = a4, sim_b = b4\<rparr>))"
    using m rest(1,3) mv(1-3) t(1) f(1,2) sent'(3)
    by (simp add: transfer_round_def Let_def flip: sent'_def)
  moreover have "can_send k a4" "can_send k (beside b5 a5)"
    using can_send_next [OF assms(3)] mv(6-8) t(3,4) f(4,5) by (simp_all add: same_stream_def)
  moreover have "space st \<noteq> []" "buf' \<noteq> []" using m mv(4) by auto
  ultimately show ?thesis
    using m mv(4) t(2) f(3) sent'(1,3) by (cases "sent' = length ab") (auto simp: moving_def)
qed

lemma transfer_loop_moves:
  assumes "moving n ab st" "sent_a st < length ab" "can_send k (sim_a (the_sim st))" "0 < max_payload n"
    and "length ab \<le> sent_a st + k * max_payload n" "k \<le> count"
  shows "\<exists>st'. transfer_loop count n ab [] st = Some st' \<and> got_b st' = ab \<and> got_a st' = [] \<and>
    settled n (sim_a (the_sim st')) (sim_b (the_sim st'))"
  using assms
proof (induction k arbitrary: st count)
  case (Suc k)
  obtain st1 where st1: "transfer_round n ab [] st = Some (sent_a st1 = length ab, st1)" "moving n ab st1"
      "sent_a st1 = min (sent_a st + max_payload n) (length ab)" "can_send k (sim_a (the_sim st1))"
    using iteration [OF Suc.prems(1-4)] by blast
  obtain c where c: "count = Suc c" "k \<le> c" using Suc.prems(6) by (cases count) auto
  show ?case
  proof (cases "sent_a st1 = length ab")
    case True
    then show ?thesis using st1 by (simp add: c(1) moving_def)
  next
    case False
    then have "sent_a st1 < length ab" "length ab \<le> sent_a st1 + k * max_payload n"
      using st1(3) Suc.prems(5) by auto
    from Suc.IH [OF st1(2) this(1) st1(4) Suc.prems(4) this(2) c(2)] False st1(1) show ?thesis
      by (simp add: c(1))
  qed
qed simp

text \<open>With nothing to send, an iteration ends the transfer.\<close>

lemma iteration_idle:
  assumes "moving n [] st" "can_send 1 (sim_a (the_sim st))"
  shows "\<exists>st'. transfer_round n [] [] st = Some (True, st') \<and> got_b st' = [] \<and> got_a st' = []"
proof -
  note m = assms(1) [unfolded moving_def]
  let ?a = "sim_a (the_sim st)" and ?b = "sim_b (the_sim st)"
  obtain b1 where b1: "poll_read (endpoint_params n) noop (space st) ?b = Some (Pending, space st, b1)"
      "settled n b1 (beside b1 ?a)" "same_place ?b b1"
    using settled_polls(3) [OF settled_swap] m by blast
  obtain a1 where a1: "poll_read (endpoint_params n) noop (space st) (beside b1 ?a) = Some (Pending, space st, a1)"
      "settled n a1 (beside a1 b1)" "same_place (beside b1 ?a) a1"
    using settled_polls(3) [OF settled_swap [OF b1(2)]] m by blast
  have "timer ?a = timer ?b" using m by (simp add: settled_def)
  then have "unat (ticks_now (timer a1)) + 10 < 2 ^ 64"
    using assms(2) a1(3) b1(3) by (simp add: can_send_def same_place_def)
  from settled_tick [OF a1(2) this] obtain a2 b2 where
    t: "tick n \<lparr>sim_a = a1, sim_b = beside a1 b1\<rparr> = Some \<lparr>sim_a = a2, sim_b = b2\<rparr>" "settled n a2 b2"
    by blast
  from settled_flush [OF t(2)] obtain a3 b3 where
    "poll_flush (endpoint_params n) noop a2 = Some (Ready (Inr ()), a3)"
    "poll_flush (endpoint_params n) noop (beside a3 b2) = Some (Ready (Inr ()), b3)"
    by blast
  with m b1(1) a1(1) t(1) show ?thesis
    by (simp add: transfer_round_def try_write_def try_read_def slice_def Let_def)
qed

section \<open>From two new connections\<close>

lemma sim_with_new:
  assumes "sim_with usize_max n ca cb = Some s"
  shows "new_reliable (endpoint_params n) (new_endpoint usize_max) default_clock ca = Inr (sim_a s)"
    "new_reliable (endpoint_params n) (new_endpoint usize_max) default_clock cb = Inr (sim_b s)"
  using assms by (auto simp: sim_with_def new_link_def Let_def split: sum.splits)

lemma sim_with_run: "sim_with usize_max n ca cb = Some s \<Longrightarrow> sim_run n [] [] [] [] (sim_a s) (sim_b s)"
  by (rule sim_start [OF _ sim_with_new]) (simp_all add: new_link_def)

lemma new_endpoint_clear: "n \<le> usize_max \<Longrightarrow> clear_end n (new_endpoint usize_max)"
  by (simp add: clear_end_def faultless_def new_endpoint_def new_control_def default_pipe_def)

lemma new_at_rest: "new_reliable P t c cfg = Inr s \<Longrightarrow> at_rest s"
  by (auto simp: new_reliable_def at_rest_def split: if_splits)

lemma sim_with_settled:
  assumes "sim_with usize_max n ca cb = Some s" "session ca = session cb" "n \<le> usize_max"
  shows "settled n (sim_a s) (sim_b s)" "config (sim_a s) = ca" "tx_next (sim_a s) = 0"
    "timer (sim_a s) = default_clock" "0 < max_payload n"
proof -
  note new = sim_with_new [OF assms(1)]
  note a = new_reliable_fields [OF new(1)] and b = new_reliable_fields [OF new(2)]
  have "clear_end n (new_endpoint usize_max)"
    using new_endpoint_clear [OF assms(3)] .
  then have inv: "clear_inv n (sim_a s)" "clear_inv n (sim_b s)"
    by (simp_all add: new_reliable_inv [OF new(1)] new_reliable_inv [OF new(2)])
  moreover note new_at_rest [OF new(1)] new_at_rest [OF new(2)]
  ultimately show "settled n (sim_a s) (sim_b s)"
    using assms(2) by (simp add: settled_def a b new_endpoint_def default_pipe_def carried_def)
  show "config (sim_a s) = ca" "tx_next (sim_a s) = 0" "timer (sim_a s) = default_clock" by (simp_all add: a)
  show "0 < max_payload n"
    using conn_inv_parts(3) [OF inv(1)] by (simp add: buffers_inv_def MAX_PAYLOAD_def endpoint_params_def)
qed

lemma transfer_loop_first:
  "transfer_round n ab ba st = Some (True, st') \<Longrightarrow> 0 < count \<Longrightarrow> transfer_loop count n ab ba st = Some st'"
  by (cases count) simp_all

lemma transfer_all:
  assumes "sim_with usize_max n ca cb = Some s" "session ca = session cb" "n \<le> usize_max"
    and "0 < retransmit_timeout ca" "length ab \<le> MAX_TICKS * max_payload n" "max_payload n \<le> read_size"
  shows "\<exists>s'. transfer n s ab [] read_size = Some (ab, [], s')"
proof -
  note start = sim_with_settled [OF assms(1-3)]
  let ?st = "\<lparr>sent_a = 0, sent_b = 0, got_a = [], got_b = [], space = replicate read_size 0, the_sim = s\<rparr>"
  have mv: "moving n ab ?st" using start(1,5) assms(6) by (simp add: moving_def)
  have send: "can_send k (sim_a (the_sim ?st))" if "k \<le> MAX_TICKS" for k
    using that assms(4) by (simp add: can_send_def start(2-4) default_clock_def MAX_TICKS_def)
  show ?thesis
  proof (cases "ab = []")
    case True
    with mv have "moving n [] ?st" by simp
    from iteration_idle [OF this] send [of 1] True show ?thesis
      by (auto simp: transfer_def transfer_loop_first MAX_TICKS_def)
  next
    case False
    with transfer_loop_moves [OF mv _ send start(5), of MAX_TICKS MAX_TICKS] assms(5)
    show ?thesis by (auto simp: transfer_def)
  qed
qed

section \<open>Examples\<close>

lemma max_payload_64: "max_payload 64 = 44"
proof -
  have "44 \<le> max_payload 64 \<and> \<not> 45 \<le> max_payload 64"
    using max_payload_iff [of 44 64] max_payload_iff [of 45 64]
    by (simp add: OVERHEAD_17 max_encoding_length_def max_encoding_overhead_def div_ceil_254)
  then show ?thesis by linarith
qed

lemma example_sim:
  assumes "21 \<le> n"
  shows "\<exists>s. sim_with n n (test_config 7) (test_config 7) = Some s \<and>
    session (config (sim_a s)) = session (config (sim_b s))"
proof -
  obtain a where "new_reliable (endpoint_params n) (new_endpoint n) default_clock (test_config 7) = Inr a"
    using new_reliable_cases(1) [of "endpoint_params n" "new_endpoint n" default_clock "test_config 7"] assms
    by (auto simp: endpoint_params_def)
  then show ?thesis by (simp add: sim_with_def new_link_def)
qed

lemma example_transfer:
  "\<exists>s s'. sim_with 64 64 (test_config 7) (test_config 7) = Some s \<and>
     session (config (sim_a s)) = session (config (sim_b s)) \<and>
     transfer 64 s [1, 2, 3] [] 64 = Some ([1, 2, 3], [], s')"
proof -
  obtain s where s: "sim_with 64 64 (test_config 7) (test_config 7) = Some s"
      "session (config (sim_a s)) = session (config (sim_b s))"
    using example_sim [of 64] by auto
  have "length [1, 2, 3 :: u8] \<le> MAX_TICKS * max_payload 64" "max_payload 64 \<le> 64"
    by (simp_all add: MAX_TICKS_def max_payload_64)
  with transfer_all [OF s(1)] s show ?thesis by (simp add: test_config_def)
qed

end
