(* ===== verification/Exchange_Example.thy ===== *)
theory Exchange_Example
  imports Clear_Transfer
begin

text \<open>
  One exchange of three bytes between two new connections of the simulation, as a run of each: the
  concrete input of the witnesses on delivery.
\<close>

definition example_params :: "(endpoint, fake_clock, string) params" where
  "example_params = endpoint_params 64"

text \<open>The polls behind the statements of the driver\<close>

lemma try_write_poll:
  "try_write n data a b = Some (len, a', b') \<Longrightarrow> 0 < len \<Longrightarrow>
     poll_write (endpoint_params n) noop data a = Some (Ready (Inr len), a')"
  by (auto simp: try_write_def Let_def elim!: bind_SomeE split: if_splits poll.splits sum.splits)

lemma try_read_poll:
  "try_read n buf acc a b = Some (buf', acc @ bytes, a', b') \<Longrightarrow> bytes \<noteq> [] \<Longrightarrow>
     \<exists>r. poll_read (endpoint_params n) noop buf a = Some (r, buf', a') \<and> delivered r buf' got = got @ bytes"
  by (auto simp: try_read_def Let_def slice_def delivered_def elim!: bind_SomeE
      split: if_splits poll.splits sum.splits)

lemma example_exchange:
  "\<exists>a a' b cx. conn_run example_params (\<lambda>_. True) [[1, 2, 3]] [] a \<and>
     poll_flush (taped example_params) cx a = Some (Ready (Inr ()), a') \<and>
     conn_run example_params (\<lambda>_. True) [[1, 2, 3]] [] a' \<and>
     conn_run example_params (\<lambda>_. True) [] [1, 2, 3] b \<and>
     session (config a') = session (config b) \<and>
     genuine example_params a' example_params b \<and> genuine example_params b example_params a'"
proof -
  obtain s where s: "sim_with 64 64 (test_config 7) (test_config 7) = Some s" using example_sim [of 64] by auto
  note start = sim_with_settled [OF s]
  let ?a = "sim_a s" and ?b = "sim_b s" and ?data = "[1, 2, 3 :: u8]"
  have st: "settled 64 ?a ?b" "config ?a = test_config 7" "tx_next ?a = 0" "timer ?a = default_clock"
    using start(1-4) by simp_all
  have payload: "?data = take (min (length ?data) (max_payload 64)) ?data" by (simp add: max_payload_64)
  obtain a1 where a1: "try_write 64 ?data ?a ?b = Some (3, a1, beside a1 ?b)" "awaits_ack a1"
      "in_transit 64 (Data 7 0 ?data) a1 (beside a1 ?b)" "config a1 = test_config 7" "tx_next a1 = 1"
    using transfer_write [OF st(1) _ _ _ payload] by (auto simp: st(2-4) test_config_def default_clock_def saturating_add_def)
  have b: "session (config ?b) = 7" "rx_next ?b = 0" "at_rest ?b" "rx_start ?b = rx_end ?b"
    using st by (simp_all add: settled_def test_config_def)
  obtain b1 where b1: "try_read 64 (replicate 3 0) [] (beside a1 ?b) a1 = Some (?data, [] @ ?data, b1, beside b1 a1)"
      "in_transit 64 (Ack 7 0) b1 (beside b1 a1)"
    using transfer_read [of 64 "beside a1 ?b" 0 ?data a1 "replicate 3 0" "[]"] a1(3) b
    by (auto simp: max_payload_64)
  let ?a2 = "beside b1 a1"
  have ack: "clear_inv 64 ?a2" "awaits_ack ?a2" "unat (0 :: u32) + 1 = unat (tx_next ?a2)"
      "queue (incoming (transport ?a2)) = packet_frame (Ack (session (config ?a2)) 0)"
    using b1(2) a1(2,4,5) by (simp_all add: in_transit_def test_config_def)
  obtain a3 where a3: "poll_flush (endpoint_params 64) noop ?a2 = Some (Ready (Inr ()), a3)" "config a3 = config ?a2"
    using clear_prompt.flush_prompt [OF ack, of noop] by blast
  obtain r where r: "poll_read (endpoint_params 64) noop (replicate 3 0) (beside a1 ?b) = Some (r, ?data, b1)"
      "delivered r ?data [] = ?data"
    using try_read_poll [OF b1(1), of "[]"] by auto
  have "sim_run 64 [?data] [] [] [] a1 (beside a1 ?b)"
    using sim_write [OF sim_with_run [OF s] try_write_poll [OF a1(1)]] by (simp add: accepted_def)
  from sim_swap [OF sim_read [OF sim_swap [OF this] r(1)]]
  have run: "sim_run 64 [?data] [] [] ?data ?a2 b1" by (simp add: r(2))
  then obtain ta tb where ok: "pair_run 64 [?data] [] [] ?data ta tb" "untaped ta = ?a2" "untaped tb = b1"
    using sim_ok_run [of 64 "[?data]" "[]" "[]" ?data ?a2 b1] by (auto simp: sim_ok_def)
  obtain ta' where flush: "poll_flush (taped_params 64) noop ta = Some (Ready (Inr ()), ta')" "untaped ta' = a3"
    using poll_taped(3) [of "endpoint_params 64" noop ta] a3(1) ok(2) by auto
  let ?tb = "tape_beside ta' tb"
  note ok' = pair_polls(3) [OF ok(1) flush(1)]
  have "session (config ta') = session (config a3)" "session (config ?tb) = session (config b1)"
    using flush(2) ok(3) by (auto simp: tape_beside_def)
  then have "session (config ta') = session (config ?tb)"
    using a3(2) b1(2) by (simp add: in_transit_def)
  then show ?thesis
    using ok(1) ok' flush(1) ends_genuine ends_ok_swap unfolding pair_run_def example_params_def by blast
qed

end
