(* ===== verification/Sync_Examples.thy ===== *)
theory Sync_Examples
  imports Cobs_Encode Cobs_Decode
begin

text \<open>
  The examples of the documentation of \<open>src/sync.rs\<close>, each as the conjunction of its assertions; a
  failed \<open>unwrap\<close> or a slice out of range is \<^term>\<open>None\<close>. The kernel runs them.
\<close>

definition unwrap :: "'e + 'a \<Rightarrow> 'a option" where
  "unwrap r = (case r of Inl _ \<Rightarrow> None | Inr x \<Rightarrow> Some x)"

text \<open>Two frames written one after the other into a buffer, and read from it one after the other\<close>

definition stream_example :: "bool option" where
  "stream_example = do {
     let stream = replicate (2 * (max_encoding_length 3 + 2)) 0;
     let (r, stream) = encode_from_slice_including_sentinels [7, 0, 8] stream;
     first \<leftarrow> unwrap r;
     free \<leftarrow> slice first (length stream) stream;
     let (r, free) = encode_from_slice_including_sentinels [9] free;
     second \<leftarrow> unwrap r;
     input \<leftarrow> slice 0 (first + second) (take first stream @ free);
     let (r, payload) = decode_to_slice input (replicate 3 0);
     frame \<leftarrow> unwrap r;
     bytes \<leftarrow> slice 0 (frame_len frame) payload;
     let one = (bytes = [7, 0, 8]);
     input \<leftarrow> slice (frame_consumed frame) (length input) input;
     let (r, payload) = decode_to_slice input payload;
     frame \<leftarrow> unwrap r;
     bytes \<leftarrow> slice 0 (frame_len frame) payload;
     left \<leftarrow> slice (frame_consumed frame) (length input) input;
     Some (one \<and> bytes = [9] \<and> left = [])
   }"

definition encode_from_slice_example :: "bool option" where
  "encode_from_slice_example = do {
     let (r, encoded) = encode_from_slice [7, 0, 8] (replicate 4 0);
     len \<leftarrow> unwrap r;
     bytes \<leftarrow> slice 0 len encoded;
     Some (bytes = [2, 7, 2, 8])
   }"

definition decode_to_slice_example :: "bool option" where
  "decode_to_slice_example = do {
     let source = [0, 2, 7, 2, 8, 0, 2, 9, 0];
     let (r, output) = decode_to_slice source (replicate 5 0x80);
     frame \<leftarrow> unwrap r;
     left \<leftarrow> slice (frame_consumed frame) (length source) source;
     Some (frame_len frame = 3 \<and> output = [7, 0, 8, 0x80, 0x80] \<and> left = [2, 9, 0])
   }"

lemma sync_examples_hold:
  "stream_example = Some True" "encode_from_slice_example = Some True" "decode_to_slice_example = Some True"
  by code_simp+

end
