(* ===== verification/Doc_Example.thy ===== *)
theory Doc_Example
  imports Prompt_Link Sync_Examples
begin

text \<open>
  The example of the documentation of \<open>src/lib.rs\<close>: its link that takes every byte and delivers none,
  its clock that stands still, and what it asserts of a connection over them. The link is a prompt
  link, so the lemmas on prompt links carry the proof.
\<close>

section \<open>The stubs\<close>

definition doc_poll_read :: "waker \<Rightarrow> u8 list \<Rightarrow> unit \<Rightarrow> ((infallible + nat) poll \<times> u8 list \<times> unit) option" where
  "doc_poll_read cx buf t = Some (Pending, buf, t)"

definition doc_poll_write :: "waker \<Rightarrow> u8 list \<Rightarrow> unit \<Rightarrow> ((infallible + nat) poll \<times> unit) option" where
  "doc_poll_write cx buf t = Some (Ready (Inr (length buf)), t)"

definition doc_poll_flush :: "waker \<Rightarrow> unit \<Rightarrow> ((infallible + unit) poll \<times> unit) option" where
  "doc_poll_flush cx t = Some (Ready (Inr ()), t)"

definition doc_link :: "(unit, infallible) transport_ops" where
  "doc_link =
     \<lparr>t_poll_read = doc_poll_read, t_poll_write = doc_poll_write, t_poll_flush = doc_poll_flush\<rparr>"

text \<open>\<open>Clock\<close> is the number it holds.\<close>

definition doc_now :: "u64 \<Rightarrow> u64 \<times> u64" where
  "doc_now c = (c, c)"

definition doc_poll_deadline :: "waker \<Rightarrow> u64 \<Rightarrow> u64 \<Rightarrow> unit poll \<times> u64" where
  "doc_poll_deadline cx deadline c = (if c \<ge> deadline then Ready () else Pending, c)"

definition doc_clock :: "u64 timer_ops" where
  "doc_clock = \<lparr>c_now = doc_now, c_poll_deadline = doc_poll_deadline\<rparr>"

text \<open>The default capacity\<close>

definition doc_params :: "(unit, u64, infallible) params" where
  "doc_params = \<lparr>link = doc_link, clock = doc_clock, capacity = 256\<rparr>"

lemmas doc_defs = doc_params_def doc_link_def doc_poll_read_def doc_poll_write_def doc_poll_flush_def
  doc_clock_def doc_now_def doc_poll_deadline_def

interpretation doc_prompt: prompt_link doc_params "\<lambda>_. True" "\<lambda>_. []" "\<lambda>_. ()" "\<lambda>_ h. h" "\<lambda>_ h. h" "\<lambda>c. c"
  by unfold_locales (simp_all add: doc_defs)

section \<open>The assertions\<close>

text \<open>The code points of \<open>b"hello"\<close>\<close>

definition hello :: "u8 list" where
  "hello = [0x68, 0x65, 0x6C, 0x6C, 0x6F]"

text \<open>
  The examples of the documentation hold: with the default capacity of 256 a connection is
  created, accepts \<open>b"hello"\<close> whole, and a flush without an acknowledgment from the peer is pending;
  the largest payload of the default capacity is 236 bytes, as documented. So do the three examples of
  the codec.
\<close>

lemma doc_example:
  "max_payload 256 = 236 \<and>
   (\<exists>s a b. new_reliable doc_params () 0 (new_config 0xC0B5) = Inr s \<and>
      poll_write doc_params cx hello s = Some (Ready (Inr 5), a) \<and>
      poll_flush doc_params cx a = Some (Pending, b)) \<and>
   stream_example = Some True \<and> encode_from_slice_example = Some True \<and> decode_to_slice_example = Some True"
proof -
  have "236 \<le> max_payload 256 \<and> \<not> 237 \<le> max_payload 256"
    using max_payload_iff [of 236 256] max_payload_iff [of 237 256]
    by (simp add: OVERHEAD_17 max_encoding_length_def max_encoding_overhead_def div_ceil_254)
  then have max: "max_payload 256 = 236" by linarith
  then obtain s where s: "new_reliable doc_params () 0 (new_config 0xC0B5) = Inr s"
    by (simp add: new_reliable_def MAX_PAYLOAD_def doc_params_def)
  have inv: "conn_inv doc_params (\<lambda>_. True) s" by (rule new_reliable_inv [OF s]) simp
  have fields: "at_rest s" "tx_next s = 0" "timer s = 0" "config s = new_config 0xC0B5"
    using s by (auto simp: new_reliable_def at_rest_def split: if_splits)
  have "hello \<noteq> []" "hello = take (min (length hello) (MAX_PAYLOAD doc_params)) hello" "length hello = 5"
    using max by (simp_all add: hello_def MAX_PAYLOAD_def doc_params_def)
  with doc_prompt.write_prompt [OF inv fields(1) _ this(1) _ _ this(2), of cx] fields obtain a where
    a: "poll_write doc_params cx hello s = Some (Ready (Inr 5), a)" "conn_inv doc_params (\<lambda>_. True) a"
      "awaits_ack a" "timer a < tx_deadline a"
    by (auto simp: new_config_def saturating_add_def)
  with doc_prompt.flush_waits [OF a(2,3) _ a(4), of cx] s max show ?thesis by (auto simp: sync_examples_hold)
qed

end
