(* ===== verification/Display.thy ===== *)
theory Display
  imports Errors
begin

text \<open>
  The diagnostic texts of \<open>src/error.rs\<close> (the implementations of \<open>Display\<close> and \<open>defmt::Format\<close>) and the text that the
  derived \<open>Debug\<close> of \<open>DecodeProgress\<close> gives, which \<open>InvalidFrame\<close> prints. A text is the string the
  formatter receives; the text of the error of a transport, a source or a destination is that of its
  own implementation, a parameter.
\<close>

section \<open>Numbers\<close>

definition digit :: "nat \<Rightarrow> char" where
  "digit d = char_of (48 + d)"

text \<open>Decimal, as the standard library prints unsigned integers\<close>

fun show_nat :: "nat \<Rightarrow> string" where
  "show_nat n = (if n < 10 then [digit n] else show_nat (n div 10) @ [digit (n mod 10)])"

declare show_nat.simps [simp del]

definition digit_value :: "char \<Rightarrow> nat" where
  "digit_value c = of_char c - 48"

definition is_digit :: "char \<Rightarrow> bool" where
  "is_digit c \<longleftrightarrow> 48 \<le> (of_char c :: nat) \<and> (of_char c :: nat) \<le> 57"

definition read_nat :: "string \<Rightarrow> nat" where
  "read_nat ds = foldl (\<lambda>n c. 10 * n + digit_value c) 0 ds"

lemma digit_props [simp]: "d < 10 \<Longrightarrow> is_digit (digit d)" "d < 10 \<Longrightarrow> digit_value (digit d) = d"
  by (simp_all add: is_digit_def digit_def digit_value_def)

lemma read_show_nat: "read_nat (show_nat n) = n"
proof (induction n rule: show_nat.induct)
  case (1 n)
  then show ?case
    by (subst show_nat.simps) (auto simp: read_nat_def)
qed

lemma show_nat_digits: "c \<in> set (show_nat n) \<Longrightarrow> is_digit c"
proof (induction n rule: show_nat.induct)
  case (1 n)
  then show ?case
    by (cases "n < 10") (auto simp: show_nat.simps [of n])
qed

lemma show_nat_inject: "show_nat m = show_nat n \<longleftrightarrow> m = n"
  by (metis read_show_nat)

section \<open>Progress\<close>

definition show_option_nat :: "nat option \<Rightarrow> string" where
  "show_option_nat x = (case x of None \<Rightarrow> ''None'' | Some n \<Rightarrow> ''Some('' @ show_nat n @ '')'')"

definition debug_decode_progress :: "decode_progress \<Rightarrow> string" where
  "debug_decode_progress p =
     ''DecodeProgress { consumed: '' @ show_nat (unat (progress_consumed p)) @
     '', written: '' @ show_nat (unat (progress_written p)) @
     '', frame_len: '' @ show_option_nat (map_option unat (progress_frame_len p)) @ '' }''"

section \<open>Errors\<close>

definition display_decode_error ::
  "('s \<Rightarrow> string) \<Rightarrow> ('d \<Rightarrow> string) \<Rightarrow> ('s, 'd) decode_error \<Rightarrow> string" where
  "display_decode_error show_source show_destination e =
     (case e of
        Source e \<Rightarrow> ''Source error: '' @ show_source e
      | Destination e \<Rightarrow> ''Destination error: '' @ show_destination e
      | UnexpectedSourceEof \<Rightarrow> ''Unexpected source EOF''
      | EmptyFrame \<Rightarrow> ''Empty frame''
      | InvalidFrame progress \<Rightarrow> ''Invalid frame after decoding '' @ debug_decode_progress progress)"

definition display_seekable_error :: "seekable_error \<Rightarrow> string" where
  "display_seekable_error e = (case e of OutOfBounds \<Rightarrow> ''Out of bounds'')"

definition display_config_error :: "config_error \<Rightarrow> string" where
  "display_config_error e = (case e of BufferTooSmall \<Rightarrow> ''Buffer cannot hold a protocol packet'')"

definition display_connection_error :: "('e \<Rightarrow> string) \<Rightarrow> 'e connection_error \<Rightarrow> string" where
  "display_connection_error show_error e =
     (case e of
        Transport e \<Rightarrow> ''Transport error: '' @ show_error e
      | UnexpectedEof \<Rightarrow> ''Transport closed unexpectedly''
      | WriteZero \<Rightarrow> ''Transport accepted zero bytes''
      | Timeout \<Rightarrow> ''Retransmission attempts exhausted''
      | SequenceExhausted \<Rightarrow> ''Sequence numbers exhausted''
      | Failed \<Rightarrow> ''Connection previously failed'')"

section \<open>The implementations of \<open>defmt::Format\<close>\<close>

text \<open>
  \<open>defmt\<close> writes a format string and its arguments. What it makes of them is a parameter, as are the
  arguments that stand for the errors of a source or a destination and for \<open>DecodeProgress\<close>.
\<close>

definition format_decode_error ::
  "(string \<Rightarrow> 'a list \<Rightarrow> 'w) \<Rightarrow> ('s \<Rightarrow> 'a) \<Rightarrow> ('d \<Rightarrow> 'a) \<Rightarrow> (decode_progress \<Rightarrow> 'a) \<Rightarrow>
     ('s, 'd) decode_error \<Rightarrow> 'w" where
  "format_decode_error write source_arg destination_arg progress_arg e =
     (case e of
        Source e \<Rightarrow> write ''Source error: {}'' [source_arg e]
      | Destination e \<Rightarrow> write ''Destination error: {}'' [destination_arg e]
      | UnexpectedSourceEof \<Rightarrow> write ''Unexpected source EOF'' []
      | EmptyFrame \<Rightarrow> write ''Empty frame'' []
      | InvalidFrame progress \<Rightarrow> write ''Invalid frame after decoding {:?}'' [progress_arg progress])"

definition format_seekable_error :: "(string \<Rightarrow> 'a list \<Rightarrow> 'w) \<Rightarrow> seekable_error \<Rightarrow> 'w" where
  "format_seekable_error write e = (case e of OutOfBounds \<Rightarrow> write ''Out of bounds'' [])"

section \<open>Different errors have different texts\<close>

lemma split_at_nondigit:
  assumes "\<forall>c \<in> set xs. is_digit c" "\<forall>c \<in> set ys. is_digit c" "\<not> is_digit a" "\<not> is_digit b"
    and "xs @ a # r = ys @ b # r'"
  shows "xs = ys \<and> r = r'"
  using assms(1,2,5)
proof (induction xs arbitrary: ys)
  case Nil
  then show ?case using assms(3) by (cases ys) auto
next
  case (Cons x xs)
  then show ?case using assms(4) by (cases ys) auto
qed

lemma show_nat_split:
  assumes "show_nat m @ a # r = show_nat n @ b # r'" "\<not> is_digit a" "\<not> is_digit b"
  shows "m = n \<and> r = r'"
  using split_at_nondigit [OF _ _ assms(2,3,1)] show_nat_digits show_nat_inject by blast

lemma is_digit_punctuation: "\<not> is_digit CHR '',''" "\<not> is_digit CHR '')''"
  by (simp_all add: is_digit_def)

lemma show_option_inject:
  assumes "show_option_nat x @ r = show_option_nat y @ r"
  shows "x = y"
proof (cases x)
  case None
  with assms show ?thesis by (cases y) (simp_all add: show_option_nat_def)
next
  case (Some m)
  show ?thesis
  proof (cases y)
    case None
    with Some assms show ?thesis by (simp add: show_option_nat_def)
  next
    case n: (Some n)
    with Some assms have "show_nat m @ CHR '')'' # r = show_nat n @ CHR '')'' # r"
      by (simp add: show_option_nat_def)
    from show_nat_split [OF this is_digit_punctuation(2,2)] Some n show ?thesis by simp
  qed
qed

text \<open>A number and the separator after it can be taken off.\<close>

lemma show_nat_comma:
  assumes "show_nat m @ (CHR '','' # sep) @ r = show_nat n @ (CHR '','' # sep) @ r'"
  shows "m = n \<and> r = r'"
proof -
  from assms have "show_nat m @ CHR '','' # (sep @ r) = show_nat n @ CHR '','' # (sep @ r')" by simp
  from show_nat_split [OF this is_digit_punctuation(1,1)] show ?thesis by simp
qed

lemma debug_progress_inject:
  assumes "debug_decode_progress p = debug_decode_progress q"
  shows "p = q"
proof -
  from assms have "show_nat (unat (progress_consumed p)) @ '', written: '' @
      show_nat (unat (progress_written p)) @ '', frame_len: '' @
      show_option_nat (map_option unat (progress_frame_len p)) @ '' }'' =
    show_nat (unat (progress_consumed q)) @ '', written: '' @
      show_nat (unat (progress_written q)) @ '', frame_len: '' @
      show_option_nat (map_option unat (progress_frame_len q)) @ '' }''"
    unfolding debug_decode_progress_def same_append_eq .
  from show_nat_comma [OF this]
  have c: "unat (progress_consumed p) = unat (progress_consumed q)"
    and rest: "show_nat (unat (progress_written p)) @ '', frame_len: '' @
      show_option_nat (map_option unat (progress_frame_len p)) @ '' }'' =
    show_nat (unat (progress_written q)) @ '', frame_len: '' @
      show_option_nat (map_option unat (progress_frame_len q)) @ '' }''"
    by blast+
  from show_nat_comma [OF rest]
  have w: "unat (progress_written p) = unat (progress_written q)"
    and "show_option_nat (map_option unat (progress_frame_len p)) @ '' }'' =
      show_option_nat (map_option unat (progress_frame_len q)) @ '' }''"
    by blast+
  from this(2) have "map_option unat (progress_frame_len p) = map_option unat (progress_frame_len q)"
    by (rule show_option_inject)
  then have "progress_frame_len p = progress_frame_len q"
    by (cases "progress_frame_len p"; cases "progress_frame_len q") (auto simp: word_unat_eq_iff)
  with c w show ?thesis by (intro decode_progress.equality) (simp_all add: word_unat_eq_iff)
qed

lemma display_decode_inject:
  assumes "inj show_source" "inj show_destination"
    and "display_decode_error show_source show_destination a =
      display_decode_error show_source show_destination b"
  shows "a = b"
  using assms(3) injD [OF assms(1)] injD [OF assms(2)]
  by (cases a; cases b) (simp_all add: display_decode_error_def debug_progress_inject)

lemma display_connection_inject:
  assumes "inj show_error" "display_connection_error show_error a = display_connection_error show_error b"
  shows "a = b"
  using assms(2) injD [OF assms(1)] by (cases a; cases b) (simp_all add: display_connection_error_def)

end
