(* ===== verification/Spec2Isabelle.thy ===== *)
theory Spec2Isabelle
  imports Codec_Properties Protocol_Properties Connection_Properties Progress_Properties
    Whole_Buffer Retries Exchange_Example Doc_Example Display
begin

text \<open>
  A verification of the crate \<open>cobs-io-async\<close>: a reliable, ordered byte stream over an unreliable
  point-to-point link, and the COBS codec under it.

  The program. \<open>src/src/sync.rs\<close> encodes a slice with COBS and decodes one frame from a slice, with
  the decoder state machine of \<open>src/src/codec/decode.rs\<close> and the sizes of \<open>src/src/lib.rs\<close>.
  \<open>src/src/protocol.rs\<close> lays out DATA and ACK packets with a CRC-32 and frames them.
  \<open>src/src/transport.rs\<close> and \<open>src/src/timer.rs\<close> are the traits of the link and the clock.
  \<open>src/src/connection.rs\<close> is the connection: a stop-and-wait protocol in each direction, driven only
  by the polls of its application, which is itself a \<open>Transport\<close>. \<open>src/src/error.rs\<close> has the errors.

  The model. Machine integers are words of their width (\<open>usize\<close> is a natural number, except where
  its overflow is the subject); a panic (an index out of range, an overflow of checked arithmetic, a
  failed conversion) is \<^term>\<open>None\<close>; a \<open>Result\<close> is a sum; a slice written through a reference is
  returned next to the result, also on an error, since errors do not undo partial writes. A trait is
  the record of its methods on an explicit state. The wakeups a connection issues are recorded in
  the trace \<open>woken\<close>.

  The theories, in the order of the code, and what their lemmas show:

  \<^item> \<open>Prelude\<close> (slices, checked arithmetic, big-endian bytes, the option and error binds), \<open>Errors\<close>
    (the types of \<open>error.rs\<close>), \<open>Display\<close> (their texts, plain and for \<open>defmt\<close>), \<open>Sizes\<close> (\<open>max_encoding_length\<close>).
  \<^item> \<open>Cobs_Spec\<close>: COBS by blocks, as a function of lists, and its inverse. \<open>Cobs_Encode\<close>
    (\<open>encode_from_slice\<close>, \<open>SliceOutput\<close>) and \<open>Cobs_Decode\<close> (\<open>DecoderState::push\<close>, \<open>decode_slice\<close>,
    \<open>decode_to_slice\<close>) refine it for every destination, errors and partial output included. \<open>Framing\<close>
    states the contract of a framing as a locale and interprets it on the two functions.
    \<open>Reference_Encoder\<close> has the encoder the tests compare with, \<open>Sync_Examples\<close> the examples of the
    documentation, \<open>Codec_Properties\<close> the properties.
  \<^item> \<open>Crc\<close> (\<open>CRC_TABLE\<close>, \<open>crc32\<close>: equal to the bitwise computation, and what damage it detects),
    \<open>Protocol\<close> (\<open>encode_data\<close>, \<open>encode_ack\<close>, \<open>parse\<close>, \<open>max_payload\<close>), \<open>Protocol_Properties\<close>.
  \<^item> \<open>Transport\<close>: the traits, and the locales \<open>transport_total\<close> (what a connection needs of its link)
    and \<open>transport_laws\<close> (the documented contract). \<open>Test_Link\<close>: the links and the clock of
    \<open>src/src/tests/support\<close>, on which the locales are interpreted. \<open>Doc_Example\<close>: those of the
    documentation.
  \<^item> \<open>Connection_State\<close> (every field of \<open>Reliable\<close>, \<open>Config\<close>, \<open>Waiters\<close>, \<open>Budget\<close>, \<open>Health\<close>) and
    \<open>Connection\<close> (\<open>process_input\<close>, \<open>poll_output\<close>, \<open>poll_input\<close>, \<open>poll_timer\<close>, \<open>step\<close>, \<open>drive\<close>, and the
    operations of the application). A method of the source is one definition, or one for each of its
    parts, named after it; \<open>process_frame\<close> and \<open>poll_output\<close> are split where they branch.
  \<^item> \<open>Connection_Inv\<close>, \<open>Connection_Polls\<close>: the invariant of a connection (buffers at the capacity,
    offsets within the frame under way, a whole frame of the right packet in every buffer that is
    being written, acknowledgments only of packets retained, retries within their bound, room in the
    input buffer), kept by every step and operation on every link of the locale \<open>reliable_link\<close>,
    where none of them panics; so a connection can be the link of another (the sublocale \<open>stacked\<close>).
  \<^item> \<open>Connection_Input\<close>: \<open>process_input\<close> refines a receiver that takes one byte at a time.
    \<open>Connection_Wakeups\<close>: what \<open>notify\<close>, \<open>finish\<close> and \<open>cancel_pending\<close> do to the waiters, exactly.
    \<open>Connection_Failure\<close>: errors are reported once. \<open>Poll_Effects\<close>: which waiters each poll wakes and
    keeps, exactly; the cause of every error; and the contract of \<open>Transport\<close> for a connection (the
    sublocale \<open>contract\<close>). \<open>Connection_Properties\<close>: the properties of these.
  \<^item> \<open>Registration\<close> (the loop of \<open>drive\<close> as the closure of a step relation; why a pending poll will be
    polled again), \<open>Sequence\<close> (the outcomes of a write and the sequence numbers), \<open>Call_Budget\<close> (how
    often a poll calls its link), \<open>Progress_Properties\<close>.
  \<^item> \<open>Taped\<close> puts a tape between a connection and its link: ghost state with what has been read and
    written. \<open>Delivery\<close> and \<open>Delivery_Run\<close> relate it to the payloads accepted and the bytes delivered,
    along every operation. \<open>End_To_End\<close>: runs of a connection as an inductive relation (any operations
    in any order, any link, any change of the world in between), and what two runs of one session
    have to do with each other. \<open>Link_Map\<close>: a map of links that commutes with their methods commutes
    with every step and poll (a locale, interpreted on the map that forgets the tape); so the runs with
    a tape are those of the connection itself. \<open>Retries\<close> counts the frames of each number along a run.
  \<^item> \<open>Prompt_Link\<close>: the steps and polls of a connection on a link that takes and delivers everything at
    once, as a locale; \<open>Exchange\<close> interprets it on the endpoints of the tests.
  \<^item> \<open>Recovery\<close>: a prompt link with a clock that fires, as a locale that extends the one above: what a
    poll after the deadline does, and how a receiver treats a packet it has retained before.
    \<open>Lossy_Exchange\<close> interprets it on the endpoints and the clock of the tests and follows a packet
    through any losses of its frames and acknowledgments; \<open>Whole_Buffer\<close> repeats such exchanges until
    a whole buffer has been sent.
  \<^item> \<open>Shared_Link\<close>: the bytes that make up no packet of a session whatever follows them, the filters that
    give out only such bytes, as a coinductive predicate, and a pipe with such a filter as a channel. \<open>Simulation\<close>: the runs of two connections that share the
    pipes and the clock, as an inductive relation on the pair, each side of which is a run of its own;
    the invariant of the pair with tapes gives \<open>genuine\<close>. \<open>Test_Transfer\<close>: \<open>Sim\<close> and \<open>transfer\<close> of \<open>src/src/tests/connection.rs\<close>,
    whose statements are steps of such a run; \<open>Clear_Transfer\<close>: on a link without faults it completes.
    \<open>Exchange_Example\<close> follows three bytes through the pair, for the witnesses.

  The properties of delivery are in this theory. For arbitrary links they assume \<open>genuine\<close>: every
  packet of the session that a connection finds in its input is one its peer has written, which is
  what the session identifier and the checksum are for. A link may do anything else: lose, repeat,
  delay, reorder, damage and insert bytes. No order of frames is assumed, because sequence numbers do
  not wrap. On the links of the tests this is proved, from what
  filters and injections put on the wire: bytes that make up no other packet of the session.

  Bounds. A poll has a budget of \<open>STEP_BUDGET\<close> = 16 units, one for each call of the link; \<open>drive_loop\<close>
  terminates because a step that makes progress spends one, and \<open>process_input\<close> because each
  iteration removes a frame from the buffer. No definition needs fuel.

  In the exchanges a loss takes a frame as a whole and a timeout passes before the next poll of the
  sender; the clock must not overflow before the last deadline, which is assumed of the ticks left.

  Not modelled: the code that the macros of \<open>serde\<close> and \<open>defmt\<close> derive under optional features, which
  is not in the repository, and the empty implementations of \<open>core::error::Error\<close>; the test cases and
  benchmarks, which run the code modelled here (the driver of the tests is modelled, the inputs and
  assertions of each are not); the build files. The two ends of a pair of test
  endpoints share their pipes through reference counts; here each has the two pipes in its state, and
  the other end follows (\<open>shared\<close>, \<open>follow\<close>; \<open>beside\<close> for connections and their clock), or what arrives
  is injected, which comes to the same (\<open>shared_delivery\<close>).
\<close>

section \<open>Delivery\<close>

text \<open>
  C1: In-order delivery without loss, duplication or corruption. Take any runs of two connections of
  one session over any links that do not panic: any operations of the applications in any order,
  any bytes lost, delayed, repeated or made up by the links, any behaviour of the clocks. If every
  packet of the session that the second finds in its input is one the first has written, then what
  the second has delivered, followed by the payload it retains, is the payloads of the first so many
  writes of the first connection; in particular what it has delivered is a prefix of what was
  written.
\<close>

theorem delivery_in_order:
  assumes "transport_total (link Pa) ta" "transport_total (link Pb) tb"
    and "conn_run Pa ta sentA gotA a" "conn_run Pb tb sentB gotB b"
    and "session (config a) = session (config b)" "genuine Pa a Pb b"
  shows "unat (rx_next b) \<le> length sentA \<and>
    gotB @ unread b = concat (take (unat (rx_next b)) sentA) \<and>
    take (length gotB) (concat sentA) = gotB"
proof -
  have ok: "reliable_link Pa ta" "reliable_link Pb tb" using assms(1,2) by (simp_all add: reliable_link_def)
  have pre: "unat (rx_next b) \<le> length sentA" "gotB @ unread b = concat (take (unat (rx_next b)) sentA)"
    using delivery_prefix [OF ok reliable_link.conn_run_ok [OF ok(1) assms(3)]
        reliable_link.conn_run_ok [OF ok(2) assms(4)] assms(5,6)] by auto
  have "concat sentA = (gotB @ unread b) @ concat (drop (unat (rx_next b)) sentA)"
    unfolding pre(2) by (metis append_take_drop_id concat_append)
  then have "take (length gotB) (concat sentA) = gotB" by simp
  with pre show ?thesis by simp
qed

theorem delivery_in_order_witness:
  "\<exists>b. conn_run example_params (\<lambda>_. True) [] [1, 2, 3] b \<and> [1, 2, 3] @ unread b = concat (take (unat (rx_next b)) [[1, 2, 3]])"
  using example_exchange endpoint_conn.transport_total_axioms [of 64]
    delivery_in_order [of example_params "\<lambda>_. True" example_params "\<lambda>_. True" "[[1, 2, 3]]" "[]" _ "[]" "[1, 2, 3]"]
  unfolding example_params_def by blast

text \<open>
  C3: When a flush completes, everything accepted so far has reached the other side, for the runs of
  two connections of one session over any links, as above, of which each finds in its input only
  packets of the session that the other has written, DATA and acknowledgments. The bytes delivered by
  the peer, followed by the payload it retains for the next read, are all the bytes written.
\<close>

theorem flush_means_delivered:
  assumes "transport_total (link Pa) ta" "transport_total (link Pb) tb"
    and "conn_run Pa ta sentA gotA a" "poll_flush (taped Pa) cx a = Some (Ready (Inr u), a')"
    and "conn_run Pb tb sentB gotB b" "session (config a') = session (config b)"
    and "genuine Pa a' Pb b" "genuine Pb b Pa a'"
  shows "gotB @ unread b = concat sentA"
proof -
  have ok: "reliable_link Pa ta" "reliable_link Pb tb" using assms(1,2) by (simp_all add: reliable_link_def)
  have "tx a' = TxIdle" using poll_flush_ready [OF assms(4)] by (simp add: flush_ready_def)
  then show ?thesis
    using delivery_complete [OF ok reliable_link.conn_run_ok [OF ok(1) run_flush [OF assms(3,4)]]
        reliable_link.conn_run_ok [OF ok(2) assms(5)] assms(6-8)] by simp
qed

theorem flush_means_delivered_witness:
  "\<exists>b. conn_run example_params (\<lambda>_. True) [] [1, 2, 3] b \<and> [1, 2, 3] @ unread b = concat [[1, 2, 3]]"
  using example_exchange endpoint_conn.transport_total_axioms [of 64]
    flush_means_delivered [of example_params "\<lambda>_. True" example_params "\<lambda>_. True" "[[1, 2, 3]]" "[]" _ _ "()" _ "[]" "[1, 2, 3]"]
  unfolding example_params_def by blast

section \<open>Delivery over a shared link\<close>





text \<open>
  C4: And in one direction it does return. Between two new connections of one session with a positive
  retransmission timeout, on a link without faults and with a buffer for reads of at least one largest
  payload, it moves data of any length up to one largest payload for each of its iterations, for every
  capacity of the connections. Writes, reads, time and flushes are interleaved as the driver does it,
  on shared pipes and a shared clock.
\<close>

theorem transfer_completes:
  assumes "sim_with usize_max n ca cb = Some s" "session ca = session cb" "n \<le> usize_max"
    and "0 < retransmit_timeout ca" "length ab \<le> MAX_TICKS * max_payload n" "max_payload n \<le> read_size"
  shows "\<exists>s'. transfer n s ab [] read_size = Some (ab, [], s')"
  by (rule transfer_all [OF assms])

theorem transfer_completes_witness:
  "\<exists>s s'. sim_with 64 64 (test_config 7) (test_config 7) = Some s \<and>
     transfer 64 s (replicate 1000 5) [] 256 = Some (replicate 1000 5, [], s')"
proof -
  obtain s where s: "sim_with 64 64 (test_config 7) (test_config 7) = Some s"
    using example_sim [of 64] by auto
  moreover have "1000 \<le> MAX_TICKS * max_payload 64" "max_payload 64 \<le> 256"
    by (simp_all add: MAX_TICKS_def max_payload_64)
  ultimately show ?thesis
    using transfer_completes [OF s] by (simp add: test_config_def)
qed

text \<open>
  C19: What goes over the link: after any run the bytes written are whole frames and possibly the
  beginning of one more; each frame is a DATA packet of the session with the payload of an accepted
  write under that write's number, or an acknowledgment of a packet that has been retained.
\<close>

theorem written_stream_is_frames:
  assumes "transport_total (link P) tinv" "conn_run P tinv sent got s"
  shows "\<exists>ps part. tape_out (transport s) = concat (map packet_frame ps) @ part \<and>
    wire_packets (capacity P) (tape_out (transport s)) = ps \<and>
    (part = [] \<or> (\<exists>p k. packet_of_conn sent s p \<and> k < length (packet_frame p) \<and> part = take k (packet_frame p))) \<and>
    (\<forall>p \<in> set ps. case p of
        Data sess q payload \<Rightarrow>
          sess = session (config s) \<and> unat q < length sent \<and> payload = sent ! unat q
      | Ack sess q \<Rightarrow> sess = session (config s) \<and> unat q < unat (rx_next s))"
proof -
  have ok: "reliable_link P tinv" using assms(1) by (simp add: reliable_link_def)
  note run = reliable_link.conn_run_ok [OF ok assms(2)]
  obtain ps where ps: "tape_out (transport s) = concat (map packet_frame ps) @ partial_frame s"
      "\<forall>p \<in> set ps. packet_of_conn sent s p" "wire_packets (capacity P) (tape_out (transport s)) = ps"
    using reliable_link.wire_packets_written [OF ok run] by metis
  have "partial_frame s = [] \<or> (\<exists>p k. packet_of_conn sent s p \<and> k < length (packet_frame p) \<and>
      partial_frame s = take k (packet_frame p))"
    using reliable_link.partial_frame_cases [OF ok run] by metis
  with ps show ?thesis by (auto simp: packet_of_conn_def)
qed

theorem written_stream_is_frames_witness:
  "\<exists>b. conn_run example_params (\<lambda>_. True) [] [1, 2, 3] b \<and>
    (\<exists>ps part. tape_out (transport b) = concat (map packet_frame ps) @ part)"
  using example_exchange endpoint_conn.transport_total_axioms [of 64]
    written_stream_is_frames [of example_params "\<lambda>_. True" "[]" "[1, 2, 3]"]
  unfolding example_params_def by blast

text \<open>
  C6: Recovery from losses. Between two connections at rest over the endpoints of the tests, let any
  of the frames of one packet be lost, DATA frames or acknowledgments, in any order. As long as there
  are no more losses than \<open>max_retries\<close>, each followed by one timeout, the write, the flush and the
  read of the peer complete, the peer reads the payload exactly once, and both connections are ready
  for the next exchange. With one loss more the flush reports \<open>Timeout\<close>.
\<close>

theorem exchange_survives_losses:
  assumes "exchange_ready (endpoint_params n) (faultless n) (\<lambda>t. queue (incoming t)) a b"
    and "buf \<noteq> []" "payload = take (min (length buf) (max_payload n)) buf"
    and "unat (tx_next a) < 2 ^ 32" "0 < retransmit_timeout (config a)"
    and "unat (ticks_now (timer a)) + (length ls + 1) * unat (retransmit_timeout (config a)) < 2 ^ 64"
  shows "if length ls \<le> unat (max_retries (config a))
    then \<exists>a' b'. lossy_exchange n cxa cxb ls buf a b = Some (Inr (length payload, payload, a', b')) \<and>
      exchange_ready (endpoint_params n) (faultless n) (\<lambda>t. queue (incoming t)) a' b'
    else lossy_exchange n cxa cxb ls buf a b = Some (Inl Timeout)"
proof -
  have "clock_room (length ls + Suc 0) a" using assms(5,6) by (simp add: clock_room_def)
  from lossy_exchange_result [OF assms(1-4) this, of cxa cxb] show ?thesis by (auto split: if_splits)
qed

theorem exchange_survives_losses_witness:
  "\<exists>s a b. new_reliable (endpoint_params 32) (new_endpoint 32) default_clock (new_config 7) = Inr s \<and>
     lossy_exchange 32 (Waker 2 0) (Waker 2 1) [Data_Lost, Ack_Lost, Ack_Lost] [5] s s = Some (Inr (1, [5], a, b)) \<and>
     lossy_exchange 32 (Waker 2 0) (Waker 2 1) (replicate 9 Ack_Lost) [5] s s = Some (Inl Timeout)"
proof -
  obtain s where s: "new_reliable (endpoint_params 32) (new_endpoint 32) default_clock (new_config 7) = Inr s"
    "endpoints_ready 32 s s" "tx_next s = 0" "config s = new_config 7" "timer s = default_clock"
    using example_ready by blast
  have "[5 :: u8] = take (min (length [5 :: u8]) (max_payload 32)) [5]" using max_payload_32 by simp
  note run = exchange_survives_losses [OF s(2) _ this, of _ "Waker 2 0" "Waker 2 1"]
  have "\<exists>a b. lossy_exchange 32 (Waker 2 0) (Waker 2 1) [Data_Lost, Ack_Lost, Ack_Lost] [5] s s = Some (Inr (1, [5], a, b))"
    using run [of "[Data_Lost, Ack_Lost, Ack_Lost]"] by (auto simp: s(3-5) new_config_def default_clock_def)
  moreover have "lossy_exchange 32 (Waker 2 0) (Waker 2 1) (replicate 9 Ack_Lost) [5] s s = Some (Inl Timeout)"
    using run [of "replicate 9 Ack_Lost"] by (simp add: s(3-5) new_config_def default_clock_def)
  ultimately show ?thesis using s(1) by blast
qed

text \<open>
  C7: A buffer of any length gets through: as many exchanges as the buffer has payloads, each writing
  what is left and each with losses of its own, no more than \<open>max_retries\<close>, deliver exactly the
  buffer to the peer and leave both connections ready, for as long as the sequence numbers suffice.
\<close>

theorem whole_buffer_arrives:
  assumes "exchange_ready (endpoint_params n) (faultless n) (\<lambda>t. queue (incoming t)) a b"
    and "length buf \<le> length lss * max_payload n" "unat (tx_next a) + length lss \<le> 2 ^ 32"
    and "\<forall>ls \<in> set lss. length ls \<le> unat (max_retries (config a))" "0 < retransmit_timeout (config a)"
    and "unat (ticks_now (timer a)) +
      (sum_list (map length lss) + 1) * unat (retransmit_timeout (config a)) < 2 ^ 64"
  shows "\<exists>a' b'. send_whole n cxa cxb lss buf a b = Some (Inr (buf, a', b')) \<and>
    exchange_ready (endpoint_params n) (faultless n) (\<lambda>t. queue (incoming t)) a' b'"
proof -
  have "clock_room (sum_list (map length lss) + 1) a" using assms(5,6) by (simp add: clock_room_def)
  from send_whole_all [OF assms(1-4) this] show ?thesis .
qed

theorem whole_buffer_arrives_witness:
  "\<exists>s a b. new_reliable (endpoint_params 32) (new_endpoint 32) default_clock (new_config 7) = Inr s \<and>
     send_whole 32 (Waker 2 0) (Waker 2 1) (replicate 100 [Data_Lost, Ack_Lost]) (replicate 300 5) s s =
       Some (Inr (replicate 300 5, a, b))"
proof -
  obtain s where s: "new_reliable (endpoint_params 32) (new_endpoint 32) default_clock (new_config 7) = Inr s"
    "endpoints_ready 32 s s" "tx_next s = 0" "config s = new_config 7" "timer s = default_clock"
    using example_ready by blast
  have "\<exists>a b. send_whole 32 (Waker 2 0) (Waker 2 1) (replicate 100 [Data_Lost, Ack_Lost]) (replicate 300 5) s s =
      Some (Inr (replicate 300 5, a, b))"
    using whole_buffer_arrives [OF s(2), of "replicate 300 5" "replicate 100 [Data_Lost, Ack_Lost]" "Waker 2 0" "Waker 2 1"]
      max_payload_32 by (auto simp: s(3-5) new_config_def default_clock_def sum_list_replicate)
  then show ?thesis using s(1) by blast
qed

section \<open>Well-formed states\<close>

text \<open>
  C14: Every state that a connection reaches is well formed, over any link that does not panic and
  whatever happens to the link and the clock between two polls: its
  arrays have the lengths of their types; the offsets of the frame under way, of the input buffer and
  of the retained payload lie within them, and the input buffer has room; the sequence numbers are at
  most one above the largest \<open>u32\<close>, and the retries within their limit; a DATA frame is under way
  exactly when the packet is being sent, or has been acknowledged meanwhile; and the timer's last
  look at the input is pending only while an acknowledgment is awaited.
\<close>

theorem reachable_well_formed:
  assumes "transport_total (link P) tinv" "plain_run P tinv sent got s"
  shows "length (rx_buf s) = capacity P \<and> length (rx_payload s) = capacity P \<and>
    length (scratch s) = capacity P \<and> length (tx_frame s) = capacity P \<and>
    length (ack_frame s) = ACK_FRAME_LEN \<and> 21 \<le> capacity P \<and>
    rx_len s < capacity P \<and> rx_start s \<le> rx_end s \<and> rx_end s \<le> MAX_PAYLOAD P \<and>
    (\<forall>i. out s = Writing DataFrame i \<longrightarrow> i < tx_len s \<and> tx_len s \<le> capacity P) \<and>
    (\<forall>i. out s = Writing AckFrame i \<longrightarrow> i < ack_len s \<and> ack_len s \<le> ACK_FRAME_LEN) \<and>
    unat (tx_next s) \<le> 2 ^ 32 \<and> unat (rx_next s) \<le> 2 ^ 32 \<and> tx_retries s \<le> max_retries (config s) \<and>
    (tx s = TxSending \<longrightarrow> data_out_busy s) \<and> (data_out_busy s \<longrightarrow> tx s = TxIdle \<or> tx s = TxSending) \<and>
    (final_input s \<noteq> None \<longrightarrow> tx s = TxWaiting)"
proof -
  have ok: "reliable_link P tinv" using assms(1) by (simp add: reliable_link_def)
  have inv: "conn_inv P tinv s" by (rule plain_run_inv [OF ok assms(2)])
  note parts = conn_inv_parts(3-7) [OF inv]
  have out: "i < tx_len s \<and> tx_len s \<le> capacity P" if "out s = Writing DataFrame i" for i
    using that parts(1-3)
    by (auto simp: out_inv_def tx_inv_def tx_frame_ok_def data_out_busy_def holds_frame_def buffers_inv_def)
  have ack: "i < ack_len s \<and> ack_len s \<le> ACK_FRAME_LEN" if "out s = Writing AckFrame i" for i
    using that parts(1,3) by (auto simp: out_inv_def ack_frame_ok_def holds_frame_def buffers_inv_def)
  show ?thesis
    using parts(1,2,4,5) capacity_bounds(1) [OF parts(1)] out ack
    by (simp add: buffers_inv_def tx_inv_def rx_inv_def input_inv_def)
qed

theorem reachable_well_formed_witness:
  "\<exists>a. plain_run example_params (\<lambda>_. True) [[1, 2, 3]] [] a \<and> length (tx_frame a) = 64 \<and> rx_len a < 64"
proof -
  obtain a where run: "plain_run example_params (\<lambda>_. True) [[1, 2, 3]] [] a"
    using example_exchange conn_run_plain by blast
  moreover from run have "length (tx_frame a) = 64 \<and> rx_len a < 64"
    using reachable_well_formed [OF endpoint_conn.transport_total_axioms, of 64]
    by (auto simp: example_params_def endpoint_params_def)
  ultimately show ?thesis by blast
qed

section \<open>Retransmission\<close>

text \<open>
  C9: No packet is sent more often than configured: after any run, at most \<open>max_retries + 1\<close> DATA
  frames of each sequence number have gone over the link. And the connection does not give up early:
  a poll that reports \<open>Timeout\<close> leaves exactly that many frames of the last packet on the link.
\<close>

theorem retransmission_bound:
  assumes "transport_total (link P) tinv" "conn_run P tinv sent got s"
  shows "(\<forall>q. data_frames (capacity P) q (tape_out (transport s)) \<le> unat (max_retries (config s)) + 1) \<and>
    (\<forall>cx s'. reports_timeout (taped P) cx s s' \<longrightarrow>
      data_frames (capacity P) (last_seq s') (tape_out (transport s')) = unat (max_retries (config s')) + 1)"
proof (intro conjI allI impI)
  have ok: "reliable_link P tinv" using assms(1) by (simp add: reliable_link_def)
  show "data_frames (capacity P) q (tape_out (transport s)) \<le> unat (max_retries (config s)) + 1" for q
  proof -
    have "started (capacity P) q s \<le> unat (max_retries (config s)) + 1"
      using reliable_link.conn_run_sending [OF ok assms(2)] by (simp add: sending_ok_def retry_ok_def)
    then show ?thesis by (simp add: started_def)
  qed
  show "data_frames (capacity P) (last_seq s') (tape_out (transport s')) = unat (max_retries (config s')) + 1"
    if "reports_timeout (taped P) cx s s'" for cx s'
    using reliable_link.run_reports_timeout [OF ok assms(2) that] .
qed

theorem retransmission_bound_witness:
  "\<exists>a. conn_run example_params (\<lambda>_. True) [[1, 2, 3]] [] a \<and>
    data_frames (capacity example_params) 0 (tape_out (transport a)) \<le> unat (max_retries (config a)) + 1"
  using example_exchange endpoint_conn.transport_total_axioms [of 64]
    retransmission_bound [of example_params "\<lambda>_. True" "[[1, 2, 3]]" "[]"]
  unfolding example_params_def by blast

end
